(* ===== verification/Prelude.thy ===== *)
theory Prelude
  imports Main "HOL-Library.Word"
begin

unbundle bit_operations_syntax

text \<open>
  Shared vocabulary of the development: the C integer types as words, the outcome of a
  kernel routine (a panic or a sleep is a value), byte-addressed memory, the little-endian
  layout of C scalars, and the generic lemmas the component theories use.
\<close>

section \<open>C types and constants\<close>

type_synonym u8 = "8 word"
type_synonym u16 = "16 word"
type_synonym u32 = "32 word"
type_synonym u64 = "64 word"

abbreviation (input) NPROC :: nat where "NPROC \<equiv> 64"
abbreviation (input) NCPU :: nat where "NCPU \<equiv> 8"
abbreviation (input) NOFILE :: nat where "NOFILE \<equiv> 16"
abbreviation (input) NFILE :: nat where "NFILE \<equiv> 100"
abbreviation (input) NINODE :: nat where "NINODE \<equiv> 50"
abbreviation (input) NDEV :: nat where "NDEV \<equiv> 10"
abbreviation (input) MAXOPBLOCKS :: nat where "MAXOPBLOCKS \<equiv> 10"
abbreviation (input) LOGSIZE :: nat where "LOGSIZE \<equiv> 30"
abbreviation (input) NBUF :: nat where "NBUF \<equiv> 30"

section \<open>Outcomes\<close>

text \<open>
  The locks and the sleep channels of the kernel are objects with distinct addresses; the
  model names them. A sleep lock contains a spin lock, \<open>LkSleep\<close>.
\<close>

datatype slock = BufSL nat | InodeSL nat

datatype lock =
    LkPid | LkProc nat | LkKmem | LkBcache | LkLog | LkIcache | LkFtable | LkTicks
  | LkCons nat | LkPipe u64 | LkPr | LkVdisk | LkSleep slock

datatype chan =
    ChProc nat | ChTicks | ChLog | ChSleepLock slock | ChPipeRead u64 | ChPipeWrite u64
  | ChConsRead nat | ChDiskFree | ChBuf nat

text \<open>
  Why a kernel routine does not return to its caller: it panics, it spins on a lock that
  another CPU holds, or it gives up the CPU in
  \<open>sleep\<close> on a channel. A routine of the model yields \<open>Inl\<close> of the reason or \<open>Inr\<close>
  of its result (and the new state). \<open>Halted\<close> is a CPU that stopped because another one panicked,
  \<open>Undef\<close> behaviour that C leaves undefined. \<open>NoFuel\<close> marks a recursion the model cut off; every
  theorem about a routine with fuel says how much is enough.
\<close>

datatype stop = Panic string | Sleep chan | Spin lock | Halted | Undef | NoFuel

type_synonym 'a result = "stop + 'a"

definition bnd :: "'e + 'a \<Rightarrow> ('a \<Rightarrow> 'e + 'b) \<Rightarrow> 'e + 'b" where
  "bnd r f = (case r of Inl e \<Rightarrow> Inl e | Inr x \<Rightarrow> f x)"

named_theorems outcome \<open>equations that decide when a composed routine returns\<close>

lemma bnd_simps [simp]:
  "bnd (Inl e) f = Inl e"
  "bnd (Inr x) f = f x"
  by (simp_all add: bnd_def)

lemma bnd_Inr_iff [outcome]: "bnd r f = Inr y \<longleftrightarrow> (\<exists>x. r = Inr x \<and> f x = Inr y)"
  by (cases r) simp_all

lemma bnd_Inl_iff [outcome]:
  "bnd r f = Inl e \<longleftrightarrow> r = Inl e \<or> (\<exists>x. r = Inr x \<and> f x = Inl e)"
  by (cases r) simp_all

lemma bnd_cong [fundef_cong]:
  "r = r' \<Longrightarrow> (\<And>x. r' = Inr x \<Longrightarrow> f x = g x) \<Longrightarrow> bnd r f = bnd r' g"
  by (cases r') simp_all

lemma bnd_assoc: "bnd (bnd r f) g = bnd r (\<lambda>x. bnd (f x) g)"
  by (cases r) simp_all

lemma if_Inl_Inr_iff [outcome]:
  "(if b then Inl e else r) = Inr y \<longleftrightarrow> \<not> b \<and> r = Inr y"
  "(if b then r else Inl e) = Inr y \<longleftrightarrow> b \<and> r = Inr y"
  by simp_all

text \<open>The routine returns, and its result satisfies a predicate (total correctness).\<close>

definition returns :: "'e + 'a \<Rightarrow> ('a \<Rightarrow> bool) \<Rightarrow> bool" where
  "returns r Q = (case r of Inl _ \<Rightarrow> False | Inr x \<Rightarrow> Q x)"

lemma returns_simps [simp]:
  "returns (Inl e) Q = False"
  "returns (Inr x) Q = Q x"
  by (simp_all add: returns_def)

lemma returns_bnd: "returns (bnd r f) Q = returns r (\<lambda>x. returns (f x) Q)"
  by (cases r) simp_all

lemma returns_mono: "returns r P \<Longrightarrow> (\<And>x. P x \<Longrightarrow> Q x) \<Longrightarrow> returns r Q"
  by (cases r) simp_all

lemma returns_iff: "returns r Q \<longleftrightarrow> (\<exists>x. r = Inr x \<and> Q x)"
  by (cases r) simp_all

lemma returns_bndI:
  "returns r P \<Longrightarrow> (\<And>x. P x \<Longrightarrow> returns (f x) Q) \<Longrightarrow> returns (bnd r f) Q"
  by (cases r) simp_all

section \<open>Linear scans\<close>

text \<open>
  \<open>first_idx P i n\<close> is the first index of \<open>i, i+1, \<dots>, i+n-1\<close> that satisfies \<open>P\<close>: the loop
  of every table search of the kernel.
\<close>

fun first_idx :: "(nat \<Rightarrow> bool) \<Rightarrow> nat \<Rightarrow> nat \<Rightarrow> nat option" where
  "first_idx P i 0 = None"
| "first_idx P i (Suc n) = (if P i then Some i else first_idx P (Suc i) n)"

lemma first_idx_SomeD:
  "first_idx P i n = Some j \<Longrightarrow> i \<le> j \<and> j < i + n \<and> P j \<and> (\<forall>k. i \<le> k \<and> k < j \<longrightarrow> \<not> P k)"
proof (induction n arbitrary: i)
  case 0
  then show ?case by simp
next
  case (Suc n)
  show ?case
  proof (cases "P i")
    case True
    with Suc.prems show ?thesis by auto
  next
    case False
    with Suc.prems Suc.IH[of "Suc i"]
    have j: "Suc i \<le> j \<and> j < Suc i + n \<and> P j \<and> (\<forall>k. Suc i \<le> k \<and> k < j \<longrightarrow> \<not> P k)" by simp
    have "\<not> P k" if "i \<le> k \<and> k < j" for k
      using that j False by (cases "k = i") auto
    with j show ?thesis by auto
  qed
qed

lemma first_idx_None_iff: "first_idx P i n = None \<longleftrightarrow> (\<forall>k. i \<le> k \<and> k < i + n \<longrightarrow> \<not> P k)"
proof (induction n arbitrary: i)
  case 0
  then show ?case by auto
next
  case (Suc n)
  have "(\<forall>k. i \<le> k \<and> k < i + Suc n \<longrightarrow> \<not> P k) \<longleftrightarrow>
        \<not> P i \<and> (\<forall>k. Suc i \<le> k \<and> k < Suc i + n \<longrightarrow> \<not> P k)"
    by (metis Suc_le_eq add_Suc_right add_Suc_shift le_eq_less_or_eq less_add_Suc1)
  then show ?case using Suc.IH[of "Suc i"] by simp
qed

lemma first_idx_SomeI:
  "i \<le> j \<Longrightarrow> j < i + n \<Longrightarrow> P j \<Longrightarrow> \<exists>k. first_idx P i n = Some k"
  using first_idx_None_iff [of P i n] by (cases "first_idx P i n") auto

section \<open>Loops\<close>

text \<open>
  A \<open>for\<close> loop over indices, and one that may leave early with a result.
\<close>

fun loop :: "(nat \<Rightarrow> 's \<Rightarrow> 's result) \<Rightarrow> nat list \<Rightarrow> 's \<Rightarrow> 's result" where
  "loop f [] s = Inr s"
| "loop f (i # is) s = bnd (f i s) (loop f is)"

fun scan :: "(nat \<Rightarrow> 's \<Rightarrow> ('r option \<times> 's) result) \<Rightarrow> nat list \<Rightarrow> 's \<Rightarrow> ('r option \<times> 's) result" where
  "scan f [] s = Inr (None, s)"
| "scan f (i # is) s = bnd (f i s) (\<lambda>(r, s). case r of None \<Rightarrow> scan f is s | Some x \<Rightarrow> Inr (Some x, s))"

lemma loop_append: "loop f (xs @ ys) s = bnd (loop f xs s) (loop f ys)"
proof (induction xs arbitrary: s)
  case (Cons i xs)
  then show ?case by (cases "f i s") simp_all
qed simp

lemma loop_upto:
  assumes "P 0 s" and "\<And>i s. i < n \<Longrightarrow> P i s \<Longrightarrow> \<exists>s'. f i s = Inr s' \<and> P (Suc i) s'"
  shows "\<exists>s'. loop f [0..<n] s = Inr s' \<and> P n s'"
  using assms(2)
proof (induction n)
  case 0
  then show ?case using assms(1) by simp
next
  case (Suc n)
  then obtain s' where s': "loop f [0..<n] s = Inr s'" "P n s'" by (metis less_Suc_eq)
  from Suc.prems [OF _ s'(2)] obtain s'' where "f n s' = Inr s''" "P (Suc n) s''" by blast
  with s'(1) show ?case by (simp add: loop_append)
qed

lemma loop_eq:
  assumes "\<And>i. i < n \<Longrightarrow> f i (g i) = Inr (g (Suc i))"
  shows "loop f [0..<n] (g 0) = Inr (g n)"
  using loop_upto [of "\<lambda>i s. s = g i" "g 0" n f] assms by auto

lemma scan_append:
  "scan f (xs @ ys) s = bnd (scan f xs s) (\<lambda>(r, s). case r of None \<Rightarrow> scan f ys s | Some x \<Rightarrow> Inr (Some x, s))"
proof (induction xs arbitrary: s)
  case (Cons i xs)
  show ?case
    by (cases "f i s") (auto simp: Cons.IH split: option.splits)
qed simp

text \<open>A scan whose steps do nothing until the first index that satisfies \<open>P\<close>.\<close>

lemma scan_first:
  assumes "\<And>i. i < n \<Longrightarrow> \<not> P i \<Longrightarrow> f i s = Inr (None, s)"
    and "\<And>i. i < n \<Longrightarrow> P i \<Longrightarrow> f i s = Inr (Some (r i), g i)"
  shows "scan f [0..<n] s = (case first_idx P 0 n of None \<Rightarrow> Inr (None, s) | Some i \<Rightarrow> Inr (Some (r i), g i))"
proof -
  have "scan f [k..<n] s = (case first_idx P k (n - k) of None \<Rightarrow> Inr (None, s) | Some i \<Rightarrow> Inr (Some (r i), g i))"
    if "k \<le> n" for k
    using that
  proof (induction rule: inc_induct)
    case (step k)
    then have "[k..<n] = k # [Suc k..<n]" "n - k = Suc (n - Suc k)" by (auto simp: upt_conv_Cons)
    with step assms [of k] show ?case by (auto split: option.splits)
  qed simp
  from this [of 0] show ?thesis by simp
qed

end
