(* ===== verification/Memory.thy ===== *)
theory Memory
  imports Prelude
begin

unbundle bit_operations_syntax

text \<open>
  Little-endian encoding of C scalars in byte lists, and byte-addressed memory with loads
  and stores of byte runs and of 64-bit words. Addresses wrap at 64 bits. The lemmas give
  the round trips and the frame conditions that the page allocator, the page tables and
  the on-disk structures rely on.
\<close>

section \<open>Little-endian scalars\<close>

definition le_bytes :: "nat \<Rightarrow> 'a::len word \<Rightarrow> u8 list" where
  "le_bytes n w = map (\<lambda>i. ucast (drop_bit (8 * i) w)) [0..<n]"

fun le_word :: "u8 list \<Rightarrow> 'a::len word" where
  "le_word [] = 0"
| "le_word (b # bs) = ucast b OR push_bit 8 (le_word bs)"

lemma length_le_bytes [simp]: "length (le_bytes n w) = n"
  by (simp add: le_bytes_def)

lemma nth_le_bytes: "i < n \<Longrightarrow> le_bytes n w ! i = ucast (drop_bit (8 * i) w)"
  by (simp add: le_bytes_def)

lemma bit_le_word:
  "bit (le_word bs :: 'a::len word) n \<longleftrightarrow>
     n < LENGTH('a) \<and> n div 8 < length bs \<and> bit (bs ! (n div 8)) (n mod 8)"
proof (induction bs arbitrary: n)
  case Nil
  then show ?case by simp
next
  case (Cons b bs)
  show ?case
  proof (cases "n < 8")
    case True
    then show ?thesis
      by (auto simp: bit_or_iff bit_ucast_iff bit_push_bit_iff)
  next
    case False
    then have d: "n div 8 = Suc ((n - 8) div 8)" "n mod 8 = (n - 8) mod 8"
      by (auto simp: div_if mod_if)
    have "\<not> bit b n" using False by (auto dest: bit_imp_le_length)
    then show ?thesis
      using False by (auto simp: bit_or_iff bit_ucast_iff bit_push_bit_iff Cons.IH d)
  qed
qed

lemma le_word_le_bytes:
  assumes "LENGTH('a::len) = 8 * n"
  shows "le_word (le_bytes n (w :: 'a word)) = w"
proof (rule bit_word_eqI)
  fix k assume k: "k < LENGTH('a)"
  with assms have kn: "k div 8 < n" by linarith
  have "8 * (k div 8) + k mod 8 = k" by simp
  then show "bit (le_word (le_bytes n w) :: 'a word) k = bit w k"
    using k kn by (auto simp: bit_le_word nth_le_bytes bit_ucast_iff bit_drop_bit_eq)
qed

lemma le_bytes_le_word:
  assumes "length bs = n" and "8 * n \<le> LENGTH('a::len)"
  shows "le_bytes n (le_word bs :: 'a word) = bs"
proof (rule nth_equalityI)
  show "length (le_bytes n (le_word bs :: 'a word)) = length bs" using assms by simp
next
  fix i assume "i < length (le_bytes n (le_word bs :: 'a word))"
  then have i: "i < n" by simp
  show "le_bytes n (le_word bs :: 'a word) ! i = bs ! i"
  proof (rule bit_word_eqI)
    fix k assume k: "k < LENGTH(8)"
    then have k8: "k < 8" by simp
    have "(8 * i + k) div 8 = i" "(8 * i + k) mod 8 = k" using k8 by auto
    moreover have "8 * i + k < LENGTH('a)" using i k8 assms(2) by linarith
    ultimately show "bit (le_bytes n (le_word bs :: 'a word) ! i) k = bit (bs ! i) k"
      using i k8 assms(1)
      by (auto simp: nth_le_bytes bit_ucast_iff bit_drop_bit_eq bit_le_word)
  qed
qed

section \<open>Scalars inside a byte array\<close>

text \<open>
  A struct field in a block or a page: \<open>get_le n off bs\<close> reads the \<open>n\<close>-byte scalar at byte
  offset \<open>off\<close>, \<open>put_bytes off vs bs\<close> overwrites bytes from \<open>off\<close> on.
\<close>

definition put_bytes :: "nat \<Rightarrow> 'a list \<Rightarrow> 'a list \<Rightarrow> 'a list" where
  "put_bytes off vs bs = take off bs @ vs @ drop (off + length vs) bs"

definition get_bytes :: "nat \<Rightarrow> nat \<Rightarrow> 'a list \<Rightarrow> 'a list" where
  "get_bytes off n bs = take n (drop off bs)"

definition get_le :: "nat \<Rightarrow> nat \<Rightarrow> u8 list \<Rightarrow> 'a::len word" where
  "get_le off n bs = le_word (get_bytes off n bs)"

definition put_le :: "nat \<Rightarrow> nat \<Rightarrow> 'a::len word \<Rightarrow> u8 list \<Rightarrow> u8 list" where
  "put_le off n w bs = put_bytes off (le_bytes n w) bs"

lemma length_put_bytes [simp]:
  "off + length vs \<le> length bs \<Longrightarrow> length (put_bytes off vs bs) = length bs"
  by (simp add: put_bytes_def)

lemma length_get_bytes [simp]:
  "off + n \<le> length bs \<Longrightarrow> length (get_bytes off n bs) = n"
  by (simp add: get_bytes_def)

lemma length_put_le [simp]:
  "off + n \<le> length bs \<Longrightarrow> length (put_le off n w bs) = length bs"
  by (simp add: put_le_def)

lemma nth_put_bytes:
  "off + length vs \<le> length bs \<Longrightarrow>
   i < length bs \<Longrightarrow>
   put_bytes off vs bs ! i = (if off \<le> i \<and> i < off + length vs then vs ! (i - off) else bs ! i)"
  by (auto simp: put_bytes_def nth_append min_def)

lemma nth_get_bytes: "i < n \<Longrightarrow> off + n \<le> length bs \<Longrightarrow> get_bytes off n bs ! i = bs ! (off + i)"
  by (simp add: get_bytes_def)

lemma get_put_bytes_same:
  "off + length vs \<le> length bs \<Longrightarrow> get_bytes off (length vs) (put_bytes off vs bs) = vs"
  by (simp add: get_bytes_def put_bytes_def)

lemma get_put_bytes_other:
  assumes "off + length vs \<le> length bs" "off' + n \<le> length bs"
    and "off' + n \<le> off \<or> off + length vs \<le> off'"
  shows "get_bytes off' n (put_bytes off vs bs) = get_bytes off' n bs"
  by (rule nth_equalityI) (use assms in \<open>auto simp: nth_get_bytes nth_put_bytes\<close>)

lemma put_bytes_get_bytes:
  "off + n \<le> length bs \<Longrightarrow> put_bytes off (get_bytes off n bs) bs = bs"
  by (rule nth_equalityI) (auto simp: nth_put_bytes nth_get_bytes)

lemma put_bytes_twice:
  "length vs = length ws \<Longrightarrow> off + length vs \<le> length bs \<Longrightarrow>
   put_bytes off vs (put_bytes off ws bs) = put_bytes off vs bs"
  by (rule nth_equalityI) (auto simp: nth_put_bytes)

lemma get_put_le_same:
  assumes "off + n \<le> length bs" "LENGTH('a::len) = 8 * n"
  shows "get_le off n (put_le off n (w :: 'a word) bs) = w"
  using assms get_put_bytes_same [of off "le_bytes n w" bs]
  by (simp add: get_le_def put_le_def le_word_le_bytes)

lemma get_put_le_other:
  "off + n \<le> length bs \<Longrightarrow> off' + m \<le> length bs \<Longrightarrow> off' + m \<le> off \<or> off + n \<le> off' \<Longrightarrow>
   get_le off' m (put_le off n w bs) = get_le off' m bs"
  by (simp add: get_le_def put_le_def get_put_bytes_other)

section \<open>Byte-addressed memory\<close>

lemma unat_lt64: "unat (a :: u64) < 2 ^ 64"
  by (rule order_less_le_trans [OF unsigned_less]) simp

type_synonym mem = "u64 \<Rightarrow> u8"

definition load_bytes :: "mem \<Rightarrow> u64 \<Rightarrow> nat \<Rightarrow> u8 list" where
  "load_bytes m a n = map (\<lambda>i. m (a + of_nat i)) [0..<n]"

definition store_bytes :: "mem \<Rightarrow> u64 \<Rightarrow> u8 list \<Rightarrow> mem" where
  "store_bytes m a bs = (\<lambda>x. if unat (x - a) < length bs then bs ! unat (x - a) else m x)"

definition load64 :: "mem \<Rightarrow> u64 \<Rightarrow> u64" where
  "load64 m a = le_word (load_bytes m a 8)"

definition store64 :: "mem \<Rightarrow> u64 \<Rightarrow> u64 \<Rightarrow> mem" where
  "store64 m a w = store_bytes m a (le_bytes 8 w)"

lemma length_load_bytes [simp]: "length (load_bytes m a n) = n"
  by (simp add: load_bytes_def)

lemma nth_load_bytes [simp]: "i < n \<Longrightarrow> load_bytes m a n ! i = m (a + of_nat i)"
  by (simp add: load_bytes_def)

lemma load_store_bytes:
  assumes "length bs \<le> 2 ^ 64"
  shows "load_bytes (store_bytes m a bs) a (length bs) = bs"
proof (rule nth_equalityI)
  fix i assume "i < length (load_bytes (store_bytes m a bs) a (length bs))"
  then have i: "i < length bs" by simp
  with assms have "unat (of_nat i :: u64) = i" by (simp add: unat_of_nat)
  with i show "load_bytes (store_bytes m a bs) a (length bs) ! i = bs ! i"
    by (simp add: store_bytes_def)
qed simp

definition disjoint_runs :: "u64 \<Rightarrow> nat \<Rightarrow> u64 \<Rightarrow> nat \<Rightarrow> bool" where
  "disjoint_runs a n b k \<longleftrightarrow> (\<forall>i<n. k \<le> unat (a + of_nat i - b))"

lemma load_store_bytes_other:
  assumes "disjoint_runs a n b (length bs)"
  shows "load_bytes (store_bytes m b bs) a n = load_bytes m a n"
  by (rule nth_equalityI) (use assms in \<open>auto simp: store_bytes_def disjoint_runs_def not_less\<close>)

lemma store_bytes_apply_other:
  "length bs \<le> unat (x - a) \<Longrightarrow> store_bytes m a bs x = m x"
  by (simp add: store_bytes_def)

lemma store_bytes_Nil [simp]: "store_bytes m a [] = m"
  by (simp add: store_bytes_def)

lemma load64_store64 [simp]: "load64 (store64 m a w) a = w"
  using load_store_bytes [of "le_bytes 8 w" m a]
  by (simp add: load64_def store64_def le_word_le_bytes)

lemma load64_store64_other:
  "disjoint_runs a 8 b 8 \<Longrightarrow> load64 (store64 m b w) a = load64 m a"
  by (simp add: load64_def store64_def load_store_bytes_other)

lemma load64_cong:
  "(\<And>i. i < 8 \<Longrightarrow> m (a + of_nat i) = m' (a + of_nat i)) \<Longrightarrow> load64 m a = load64 m' a"
  unfolding load64_def load_bytes_def by (rule arg_cong [where f = le_word]) auto

lemma load_bytes_cong:
  "(\<And>i. i < n \<Longrightarrow> m (a + of_nat i) = m' (a + of_nat i)) \<Longrightarrow> load_bytes m a n = load_bytes m' a n"
  by (simp add: load_bytes_def cong: map_cong)

section \<open>Pages\<close>

abbreviation (input) PGSIZE :: u64 where "PGSIZE \<equiv> 4096"

definition pgno :: "u64 \<Rightarrow> u64" where
  "pgno a = drop_bit 12 a"

definition page_aligned :: "u64 \<Rightarrow> bool" where
  "page_aligned a \<longleftrightarrow> a mod PGSIZE = 0"

lemma unat_pgno: "unat (pgno a) = unat a div 4096"
  by (simp add: pgno_def unat_drop_bit_eq drop_bit_eq_div unat_div)

lemma page_aligned_unat: "page_aligned a \<longleftrightarrow> unat a mod 4096 = 0"
  using unat_mod [of a PGSIZE] by (simp add: page_aligned_def flip: unat_eq_0)

lemma pgno_aligned_offset:
  assumes "page_aligned p" "i < 4096"
  shows "pgno (p + of_nat i) = pgno p" and "unat (p + of_nat i) = unat p + i"
proof -
  from assms(1) obtain q where q: "unat p = 4096 * q"
    by (auto simp: page_aligned_unat)
  have "unat p < 2 ^ 64" using unsigned_less [of p] by simp
  with q have "q < 2 ^ 52" by simp
  with q assms(2) have "unat p + i < 2 ^ 64" by simp
  then show *: "unat (p + of_nat i) = unat p + i"
    using assms(2) by (simp add: unat_word_ariths unat_of_nat)
  show "pgno (p + of_nat i) = pgno p"
    using q assms(2) by (simp add: word_unat_eq_iff unat_pgno *)
qed

lemma page_eqI: "page_aligned p \<Longrightarrow> page_aligned q \<Longrightarrow> pgno p = pgno q \<Longrightarrow> p = q"
  by (metis page_aligned_unat unat_pgno word_unat_eq_iff mult_div_mod_eq)

lemma disjoint_runs_pages:
  assumes "page_aligned p" "page_aligned q" "p \<noteq> q" "i + n \<le> 4096" "j + k \<le> 4096"
  shows "disjoint_runs (p + of_nat i) n (q + of_nat j) k"
  unfolding disjoint_runs_def
proof (intro allI impI, rule ccontr)
  fix t assume t: "t < n" and "\<not> k \<le> unat (p + of_nat i + of_nat t - (q + of_nat j))"
  then obtain d where d: "p + of_nat i + of_nat t - (q + of_nat j) = of_nat d" "d < k"
    using that [of "unat (p + of_nat i + of_nat t - (q + of_nat j))"] by simp
  then have "p + of_nat (i + t) = q + of_nat (j + d)" by (simp add: algebra_simps)
  moreover have "pgno (p + of_nat (i + t)) = pgno p" "pgno (q + of_nat (j + d)) = pgno q"
    using assms t d by (auto intro!: pgno_aligned_offset simp del: of_nat_add)
  ultimately have "pgno p = pgno q" by simp
  with assms show False using page_eqI by blast
qed

lemma disjoint_runs_words:
  assumes "i < 512" "j < 512" "i \<noteq> j"
  shows "disjoint_runs (p + of_nat (8 * i)) 8 (p + of_nat (8 * j)) 8"
  unfolding disjoint_runs_def
proof (intro allI impI)
  fix t :: nat assume t: "t < 8"
  have eq: "p + of_nat (8 * i) + of_nat t - (p + of_nat (8 * j)) = (of_nat (8 * i + t) - of_nat (8 * j) :: u64)"
    by (simp add: algebra_simps)
  have u: "unat (of_nat (8 * i + t) :: u64) = 8 * i + t" "unat (of_nat (8 * j) :: u64) = 8 * j"
    using assms t by (simp_all add: unat_of_nat del: of_nat_add of_nat_mult)
  show "8 \<le> unat (p + of_nat (8 * i) + of_nat t - (p + of_nat (8 * j)))"
  proof (cases "j < i")
    case True
    then have "of_nat (8 * j) \<le> (of_nat (8 * i + t) :: u64)"
      using u by (simp add: word_le_nat_alt del: of_nat_add of_nat_mult)
    with True u t show ?thesis by (simp add: eq unat_sub del: of_nat_add of_nat_mult)
  next
    case False
    with assms(3) have "i < j" by simp
    then have lt: "of_nat (8 * i + t) < (of_nat (8 * j) :: u64)"
      using u t by (simp add: word_less_nat_alt del: of_nat_add of_nat_mult)
    have "unat (of_nat (8 * i + t) - of_nat (8 * j) :: u64) = 2 ^ 64 + (8 * i + t) - 8 * j"
      using lt u assms by (simp add: unat_sub_if_size word_size word_le_nat_alt word_less_nat_alt del: of_nat_add of_nat_mult)
    with assms show ?thesis by (simp add: eq del: of_nat_add of_nat_mult)
  qed
qed

lemma load64_store64_page:
  assumes "page_aligned p" "page_aligned q" "p \<noteq> q" "i < 512" "j < 512"
  shows "load64 (store64 m (q + of_nat (8 * j)) w) (p + of_nat (8 * i)) = load64 m (p + of_nat (8 * i))"
  by (rule load64_store64_other, rule disjoint_runs_pages) (use assms in auto)

lemma load64_store64_index:
  assumes "i < 512" "j < 512" "i \<noteq> j"
  shows "load64 (store64 m (p + of_nat (8 * j)) w) (p + of_nat (8 * i)) = load64 m (p + of_nat (8 * i))"
  by (rule load64_store64_other, rule disjoint_runs_words) (use assms in auto)

end
