(* ===== verification/Cstring.thy ===== *)
theory Cstring
  imports Memory
begin

text \<open>
  The string and memory routines of kernel/string.c. The memory routines act on
  byte-addressed memory, so that overlap is visible. The string routines see an object
  through a pointer, as the function from offsets to bytes; a memory address gives such a
  view, and so does a byte buffer that is followed by a NUL.
\<close>

section \<open>Memory routines\<close>

definition memset :: "mem \<Rightarrow> u64 \<Rightarrow> u8 \<Rightarrow> nat \<Rightarrow> mem" where
  "memset m dst c n = fold (\<lambda>i m. m(dst + of_nat i := c)) [0..<n] m"

fun memcmp :: "mem \<Rightarrow> u64 \<Rightarrow> u64 \<Rightarrow> nat \<Rightarrow> int" where
  "memcmp m s1 s2 0 = 0"
| "memcmp m s1 s2 (Suc n) =
     (if m s1 \<noteq> m s2 then uint (m s1) - uint (m s2) else memcmp m (s1 + 1) (s2 + 1) n)"

definition copy_up :: "mem \<Rightarrow> u64 \<Rightarrow> u64 \<Rightarrow> nat \<Rightarrow> mem" where
  "copy_up m d s n = fold (\<lambda>i m. m(d + of_nat i := m (s + of_nat i))) [0..<n] m"

definition copy_down :: "mem \<Rightarrow> u64 \<Rightarrow> u64 \<Rightarrow> nat \<Rightarrow> mem" where
  "copy_down m d s n = fold (\<lambda>i m. m(d + of_nat i := m (s + of_nat i))) (rev [0..<n]) m"

definition memmove :: "mem \<Rightarrow> u64 \<Rightarrow> u64 \<Rightarrow> nat \<Rightarrow> mem" where
  "memmove m dst src n =
     (if src < dst \<and> src + of_nat n > dst then copy_down m dst src n else copy_up m dst src n)"

definition memcpy :: "mem \<Rightarrow> u64 \<Rightarrow> u64 \<Rightarrow> nat \<Rightarrow> mem" where
  "memcpy m dst src n = memmove m dst src n"

section \<open>String routines\<close>

type_synonym cptr = "nat \<Rightarrow> u8"

definition at_addr :: "mem \<Rightarrow> u64 \<Rightarrow> cptr" where
  "at_addr m a = (\<lambda>i. m (a + of_nat i))"

definition at_buf :: "u8 list \<Rightarrow> cptr" where
  "at_buf bs = (\<lambda>i. if i < length bs then bs ! i else 0)"

fun strncmp_from :: "cptr \<Rightarrow> cptr \<Rightarrow> nat \<Rightarrow> nat \<Rightarrow> int" where
  "strncmp_from p q i 0 = 0"
| "strncmp_from p q i (Suc n) =
     (if p i \<noteq> 0 \<and> p i = q i then strncmp_from p q (Suc i) n else uint (p i) - uint (q i))"

definition strncmp :: "cptr \<Rightarrow> cptr \<Rightarrow> nat \<Rightarrow> int" where
  "strncmp p q n = strncmp_from p q 0 n"

text \<open>
  \<open>strncpy\<close>: the first loop copies up to and including a NUL, the second fills the rest
  with zeros.
\<close>

fun strncpy_fill :: "cptr \<Rightarrow> nat \<Rightarrow> nat \<Rightarrow> cptr" where
  "strncpy_fill s i 0 = s"
| "strncpy_fill s i (Suc n) = strncpy_fill (s(i := 0)) (Suc i) n"

fun strncpy_from :: "cptr \<Rightarrow> cptr \<Rightarrow> nat \<Rightarrow> nat \<Rightarrow> cptr" where
  "strncpy_from s t i 0 = s"
| "strncpy_from s t i (Suc n) =
     (let s = s(i := t i)
      in if t i \<noteq> 0 then strncpy_from s t (Suc i) n else strncpy_fill s (Suc i) n)"

definition strncpy :: "cptr \<Rightarrow> cptr \<Rightarrow> nat \<Rightarrow> cptr" where
  "strncpy s t n = strncpy_from s t 0 n"

fun safestrcpy_from :: "cptr \<Rightarrow> cptr \<Rightarrow> nat \<Rightarrow> nat \<Rightarrow> cptr" where
  "safestrcpy_from s t i 0 = s(i := 0)"
| "safestrcpy_from s t i (Suc n) =
     (let s = s(i := t i)
      in if t i \<noteq> 0 then safestrcpy_from s t (Suc i) n else s(Suc i := 0))"

definition safestrcpy :: "cptr \<Rightarrow> cptr \<Rightarrow> int \<Rightarrow> cptr" where
  "safestrcpy s t n = (if n \<le> 0 then s else safestrcpy_from s t 0 (nat n - 1))"

text \<open>\<open>strlen\<close> runs until it finds a NUL; it does not return on memory without one.\<close>

partial_function (option) strlen_from :: "cptr \<Rightarrow> nat \<Rightarrow> nat option" where
  "strlen_from s n = (if s n \<noteq> 0 then strlen_from s (Suc n) else Some n)"

definition strlen :: "cptr \<Rightarrow> nat option" where
  "strlen s = strlen_from s 0"

section \<open>Lemmas\<close>

lemma of_nat_inj64: "i < 2 ^ 64 \<Longrightarrow> j < 2 ^ 64 \<Longrightarrow> (of_nat i :: u64) = of_nat j \<longleftrightarrow> i = j"
  by (simp add: word_of_nat_eq_iff take_bit_nat_eq_self)

lemma memset_eq:
  assumes "n \<le> 2 ^ 64"
  shows "memset m dst c n = store_bytes m dst (replicate n c)"
  using assms
proof (induction n)
  case 0
  then show ?case by (simp add: memset_def)
next
  case (Suc n)
  then have IH: "memset m dst c n = store_bytes m dst (replicate n c)" by simp
  have "memset m dst c (Suc n) x = store_bytes m dst (replicate (Suc n) c) x" for x
  proof -
    have u: "unat (of_nat n :: u64) = n" using Suc.prems by (simp add: unat_of_nat)
    have "x = dst + of_nat n \<longleftrightarrow> unat (x - dst) = n"
      using u by (metis add_diff_cancel_left' diff_add_cancel add.commute word_unat_eq_iff)
    then show ?thesis
      using IH by (auto simp: memset_def store_bytes_def less_Suc_eq simp del: replicate.simps)
  qed
  then show ?case by blast
qed

lemma fold_copy:
  assumes "sorted_wrt (\<lambda>j i. s + of_nat i \<noteq> d + of_nat j) is"
  shows "fold (\<lambda>i m. m(d + of_nat i := m (s + of_nat i))) is m x =
     (if \<exists>i\<in>set is. x = d + of_nat i then m (s + (x - d)) else m (x :: u64))"
  using assms
proof (induction "is" arbitrary: x rule: rev_induct)
  case Nil
  then show ?case by simp
next
  case (snoc i js)
  then have "\<forall>j\<in>set js. s + of_nat i \<noteq> d + of_nat j" and "sorted_wrt (\<lambda>j i. s + of_nat i \<noteq> d + of_nat j) js"
    by (auto simp: sorted_wrt_append)
  then show ?case using snoc.IH by auto
qed

lemma run_member:
  assumes "n \<le> 2 ^ 64"
  shows "(\<exists>i<n. x = d + of_nat i) \<longleftrightarrow> unat (x - d :: u64) < n"
proof
  assume "\<exists>i<n. x = d + of_nat i"
  with assms show "unat (x - d) < n" by (auto simp: unat_of_nat)
next
  assume "unat (x - d) < n"
  then show "\<exists>i<n. x = d + of_nat i" by (intro exI [of _ "unat (x - d)"]) simp
qed

text \<open>Either direction of copying is right when no source byte is overwritten too early.\<close>

lemma copy_runs:
  assumes "n \<le> 2 ^ 64" and "set is = {0..<n}"
    and "sorted_wrt (\<lambda>j i. s + of_nat i \<noteq> d + of_nat j) is"
  shows "fold (\<lambda>i m. m(d + of_nat i := m (s + of_nat i))) is m = store_bytes m d (load_bytes m s n)"
proof
  fix x
  have "(\<exists>i\<in>set is. x = d + of_nat i) \<longleftrightarrow> unat (x - d) < n"
    using run_member [OF assms(1), of x d] assms(2) by auto
  then show "fold (\<lambda>i m. m(d + of_nat i := m (s + of_nat i))) is m x = store_bytes m d (load_bytes m s n) x"
    unfolding fold_copy [OF assms(3)] by (simp add: store_bytes_def)
qed

lemma unat_run: "unat a + n < 2 ^ 64 \<Longrightarrow> i \<le> n \<Longrightarrow> unat (a + of_nat i :: u64) = unat a + i"
  by (simp add: unat_word_ariths unat_of_nat)

lemma memmove_eq:
  assumes "unat src + n < 2 ^ 64" and "unat dst + n < 2 ^ 64"
  shows "memmove m dst src n = store_bytes m dst (load_bytes m src n)"
proof -
  have n: "n \<le> 2 ^ 64" using assms by simp
  have eq: "src + of_nat i = dst + of_nat j \<longleftrightarrow> unat src + i = unat dst + j" if "i < n" "j < n" for i j
    using that unat_run [OF assms(1), of i] unat_run [OF assms(2), of j]
    by (simp add: word_unat_eq_iff)
  have cond: "src < dst \<and> src + of_nat n > dst \<longleftrightarrow> unat src < unat dst \<and> unat dst < unat src + n"
    using unat_run [OF assms(1), of n] by (simp add: word_less_nat_alt)
  show ?thesis
  proof (cases "src < dst \<and> src + of_nat n > dst")
    case True
    have "sorted_wrt (\<lambda>j i. src + of_nat i \<noteq> dst + of_nat j) (rev [0..<n])"
      using True cond
      by (auto simp: sorted_wrt_iff_nth_less rev_nth eq simp del: of_nat_diff of_nat_Suc)
    with True show ?thesis by (simp add: memmove_def copy_down_def copy_runs [OF n])
  next
    case False
    have "sorted_wrt (\<lambda>j i. src + of_nat i \<noteq> dst + of_nat j) [0..<n]"
      using False cond eq by (auto simp: sorted_wrt_iff_nth_less)
    with False show ?thesis by (auto simp: memmove_def copy_up_def copy_runs [OF n])
  qed
qed

text \<open>A byte of a C string at offset \<open>i\<close> is live when no NUL precedes it.\<close>

definition live :: "cptr \<Rightarrow> nat \<Rightarrow> bool" where
  "live t i \<longleftrightarrow> (\<forall>j<i. t j \<noteq> 0)"

lemma strncmp_from_0:
  "strncmp_from p q k n = 0 \<longleftrightarrow> (\<forall>i. k \<le> i \<and> i < k + n \<and> (\<forall>j. k \<le> j \<and> j < i \<longrightarrow> p j \<noteq> 0) \<longrightarrow> p i = q i)"
proof (induction n arbitrary: k)
  case 0
  then show ?case by auto
next
  case (Suc n)
  let ?P = "\<lambda>k n i. k \<le> i \<and> i < k + n \<and> (\<forall>j. k \<le> j \<and> j < i \<longrightarrow> p j \<noteq> 0)"
  show ?case
  proof (cases "p k \<noteq> 0 \<and> p k = q k")
    case True
    have "?P k (Suc n) i \<longleftrightarrow> i = k \<or> ?P (Suc k) n i" for i
      using True by (auto simp: Suc_le_eq) (metis le_neq_implies_less)
    with True Suc.IH [of "Suc k"] show ?thesis by auto
  next
    case False
    have "p i = q i" if "?P k (Suc n) i" "p k = q k" for i
      using that False by (cases "i = k") auto
    moreover have "?P k (Suc n) k" by auto
    ultimately have "(\<forall>i. ?P k (Suc n) i \<longrightarrow> p i = q i) \<longleftrightarrow> p k = q k" by blast
    moreover have "strncmp_from p q k (Suc n) = 0 \<longleftrightarrow> p k = q k"
      using False by (auto simp: word_uint_eq_iff)
    ultimately show ?thesis by blast
  qed
qed

lemma strncmp_0_iff: "strncmp p q n = 0 \<longleftrightarrow> (\<forall>i<n. live p i \<longrightarrow> p i = q i)"
  by (auto simp: strncmp_def strncmp_from_0 live_def)

lemma strncpy_fill_apply: "strncpy_fill s k n i = (if k \<le> i \<and> i < k + n then 0 else s i)"
proof (induction n arbitrary: s k)
  case 0
  then show ?case by auto
next
  case (Suc n)
  show ?case by (auto simp: Suc.IH Suc_le_eq)
qed

lemma strncpy_from_apply:
  "strncpy_from s t k n i =
     (if k \<le> i \<and> i < k + n then if \<forall>j. k \<le> j \<and> j < i \<longrightarrow> t j \<noteq> 0 then t i else 0 else s i)"
proof (induction n arbitrary: s k)
  case 0
  then show ?case by auto
next
  case (Suc n)
  show ?case
  proof (cases "t k \<noteq> 0")
    case True
    have "(\<forall>j. k \<le> j \<and> j < i \<longrightarrow> t j \<noteq> 0) \<longleftrightarrow> (\<forall>j. Suc k \<le> j \<and> j < i \<longrightarrow> t j \<noteq> 0)"
      using True by (metis Suc_leD Suc_le_eq le_neq_implies_less)
    then show ?thesis
      using True by (auto simp: Suc.IH Suc_le_eq Let_def)
  next
    case False
    then show ?thesis by (auto simp: strncpy_fill_apply)
  qed
qed

lemma strncpy_apply: "strncpy s t n i = (if i < n then if live t i then t i else 0 else s i)"
  by (simp add: strncpy_def strncpy_from_apply live_def)

lemma safestrcpy_from_spec:
  "\<exists>e. k \<le> e \<and> e \<le> k + n \<and> safestrcpy_from s t k n e = 0 \<and> (e = k + n \<or> t e = 0) \<and>
     (\<forall>i. k \<le> i \<and> i < e \<longrightarrow> safestrcpy_from s t k n i = t i \<and> t i \<noteq> 0) \<and>
     (\<forall>i. i < k \<or> k + n < i \<longrightarrow> safestrcpy_from s t k n i = s i)"
proof (induction n arbitrary: s k)
  case 0
  then show ?case by (intro exI [of _ k]) auto
next
  case (Suc n)
  show ?case
  proof (cases "t k \<noteq> 0")
    case True
    from Suc.IH [of "Suc k" "s(k := t k)"] obtain e where e:
      "Suc k \<le> e" "e \<le> Suc k + n" "safestrcpy_from (s(k := t k)) t (Suc k) n e = 0"
      "e = Suc k + n \<or> t e = 0"
      "\<forall>i. Suc k \<le> i \<and> i < e \<longrightarrow> safestrcpy_from (s(k := t k)) t (Suc k) n i = t i \<and> t i \<noteq> 0"
      "\<forall>i. i < Suc k \<or> Suc k + n < i \<longrightarrow> safestrcpy_from (s(k := t k)) t (Suc k) n i = (s(k := t k)) i"
      by blast
    have "safestrcpy_from (s(k := t k)) t (Suc k) n i = t i \<and> t i \<noteq> 0" if "k \<le> i \<and> i < e" for i
      using that e(5,6) True by (cases "i = k") auto
    with True e show ?thesis by (intro exI [of _ e]) auto
  next
    case False
    then show ?thesis by (intro exI [of _ k]) auto
  qed
qed

lemma strlen_from_Some:
  "(\<And>i. k \<le> i \<Longrightarrow> i < n \<Longrightarrow> s i \<noteq> 0) \<Longrightarrow> s n = 0 \<Longrightarrow> k \<le> n \<Longrightarrow> strlen_from s k = Some n"
proof (induction "n - k" arbitrary: k)
  case 0
  then show ?case by (simp add: strlen_from.simps)
next
  case (Suc d)
  then have "s k \<noteq> 0" by simp
  with Suc show ?case by (subst strlen_from.simps) simp
qed

lemma strlen_from_SomeD:
  assumes "strlen_from s k = Some n"
  shows "k \<le> n \<and> s n = 0 \<and> (\<forall>i. k \<le> i \<and> i < n \<longrightarrow> s i \<noteq> 0)"
proof (rule strlen_from.raw_induct
    [where P = "\<lambda>s k n. k \<le> n \<and> s n = 0 \<and> (\<forall>i. k \<le> i \<and> i < n \<longrightarrow> s i \<noteq> 0)", OF _ assms])
  fix f :: "cptr \<Rightarrow> nat \<Rightarrow> nat option" and s :: cptr and k n
  assume IH: "\<And>s k n. f s k = Some n \<Longrightarrow> k \<le> n \<and> s n = 0 \<and> (\<forall>i. k \<le> i \<and> i < n \<longrightarrow> s i \<noteq> 0)"
    and eq: "(if s k \<noteq> 0 then f s (Suc k) else Some k) = Some n"
  show "k \<le> n \<and> s n = (0 :: u8) \<and> (\<forall>i. k \<le> i \<and> i < n \<longrightarrow> s i \<noteq> 0)"
  proof (cases "s k \<noteq> 0")
    case True
    with eq IH [of s "Suc k" n] have *: "Suc k \<le> n \<and> s n = 0 \<and> (\<forall>i. Suc k \<le> i \<and> i < n \<longrightarrow> s i \<noteq> 0)"
      by simp
    have "s i \<noteq> 0" if "k \<le> i \<and> i < n" for i using that * True by (cases "i = k") auto
    with * show ?thesis by auto
  next
    case False
    with eq show ?thesis by auto
  qed
qed

lemma strlen_iff: "strlen s = Some n \<longleftrightarrow> s n = 0 \<and> live s n"
  using strlen_from_SomeD [of s 0 n] strlen_from_Some [of 0 n s]
  by (auto simp: strlen_def live_def)

section \<open>Properties\<close>

text \<open>
  C4. \<open>memmove\<close> copies correctly also when source and destination overlap, in either
  direction: the destination gets the bytes the source had before the call, and no other
  byte changes.
\<close>

theorem memmove_overlap:
  assumes "unat src + n < 2 ^ 64" and "unat dst + n < 2 ^ 64"
  shows "load_bytes (memmove m dst src n) dst n = load_bytes m src n \<and>
    (\<forall>x. n \<le> unat (x - dst) \<longrightarrow> memmove m dst src n x = m x)"
  using load_store_bytes [of "load_bytes m src n" m dst] assms
  by (simp add: memmove_eq store_bytes_def)

theorem memmove_overlap_witness:
  "load_bytes (memmove (\<lambda>a. ucast a) 101 100 3) 101 3 = [100, 101, 102]"
  using memmove_overlap [of 100 3 101 "\<lambda>a. ucast a"] by (simp add: load_bytes_def upt_rec)



end
