(* ===== verification/Spinlock.thy ===== *)
theory Spinlock
  imports Prelude
begin

text \<open>
  The spin locks of kernel/spinlock.c on several CPUs. The machine state holds each CPU's
  \<open>noff\<close> and \<open>intena\<close>, its interrupt-enable bit and the lock words. \<open>acquire\<close> and
  \<open>release\<close> are split at their atomic memory operations, and an interleaving step
  relation over CPUs gives mutual exclusion, interrupts off inside critical sections, and
  that \<open>pop_off\<close> never panics. The second half states the interface the rest of the
  kernel uses, a set of held locks, as a locale, and interprets it both on that set and on
  the machine.
\<close>

section \<open>CPUs and locks\<close>

record cpu =
  noff :: int
  intena :: bool

record spinlock =
  lk_name :: string
  locked :: u32
  lk_cpu :: "nat option"

record smp =
  cpus :: "nat \<Rightarrow> cpu"
  sie :: "nat \<Rightarrow> bool"
  locks :: "lock \<Rightarrow> spinlock"

definition initlock :: "lock \<Rightarrow> string \<Rightarrow> 'a smp_scheme \<Rightarrow> 'a smp_scheme" where
  "initlock lk name m =
     m\<lparr>locks := (locks m)(lk := \<lparr>lk_name = name, locked = 0, lk_cpu = None\<rparr>)\<rparr>"

definition intr_get :: "nat \<Rightarrow> 'a smp_scheme \<Rightarrow> bool" where
  "intr_get c m = sie m c"

definition intr_set :: "nat \<Rightarrow> bool \<Rightarrow> 'a smp_scheme \<Rightarrow> 'a smp_scheme" where
  "intr_set c b m = m\<lparr>sie := (sie m)(c := b)\<rparr>"

definition push_off :: "nat \<Rightarrow> 'a smp_scheme \<Rightarrow> 'a smp_scheme" where
  "push_off c m =
     (let old = intr_get c m;
          m = intr_set c False m;
          m = (if noff (cpus m c) = 0
               then m\<lparr>cpus := (cpus m)(c := (cpus m c)\<lparr>intena := old\<rparr>)\<rparr> else m)
      in m\<lparr>cpus := (cpus m)(c := (cpus m c)\<lparr>noff := noff (cpus m c) + 1\<rparr>)\<rparr>)"

definition pop_off :: "nat \<Rightarrow> 'a smp_scheme \<Rightarrow> 'a smp_scheme result" where
  "pop_off c m =
     (if intr_get c m then Inl (Panic ''pop_off - interruptible'')
      else let m = m\<lparr>cpus := (cpus m)(c := (cpus m c)\<lparr>noff := noff (cpus m c) - 1\<rparr>)\<rparr> in
        if noff (cpus m c) < 0 then Inl (Panic ''pop_off'')
        else if noff (cpus m c) = 0 \<and> intena (cpus m c) then Inr (intr_set c True m)
        else Inr m)"

definition holding :: "nat \<Rightarrow> lock \<Rightarrow> 'a smp_scheme \<Rightarrow> (bool \<times> 'a smp_scheme) result" where
  "holding c lk m =
     (let m = push_off c m;
          r = (locked (locks m lk) \<noteq> 0 \<and> lk_cpu (locks m lk) = Some c)
      in bnd (pop_off c m) (\<lambda>m. Inr (r, m)))"

text \<open>
  \<open>acquire\<close>: disable interrupts and check for a self-deadlock; then the atomic swap, in
  a loop; then record the owner. \<open>release\<close>: check the owner and clear it; then the atomic
  store and \<open>pop_off\<close>.
\<close>

definition acquire_begin :: "nat \<Rightarrow> lock \<Rightarrow> 'a smp_scheme \<Rightarrow> 'a smp_scheme result" where
  "acquire_begin c lk m =
     bnd (holding c lk (push_off c m)) (\<lambda>(r, m).
       if r then Inl (Panic ''acquire'') else Inr m)"

definition test_and_set :: "lock \<Rightarrow> 'a smp_scheme \<Rightarrow> u32 \<times> 'a smp_scheme" where
  "test_and_set lk m =
     (locked (locks m lk), m\<lparr>locks := (locks m)(lk := (locks m lk)\<lparr>locked := 1\<rparr>)\<rparr>)"

definition acquire_end :: "nat \<Rightarrow> lock \<Rightarrow> 'a smp_scheme \<Rightarrow> 'a smp_scheme" where
  "acquire_end c lk m = m\<lparr>locks := (locks m)(lk := (locks m lk)\<lparr>lk_cpu := Some c\<rparr>)\<rparr>"

definition release_begin :: "nat \<Rightarrow> lock \<Rightarrow> 'a smp_scheme \<Rightarrow> 'a smp_scheme result" where
  "release_begin c lk m =
     bnd (holding c lk m) (\<lambda>(r, m).
       if \<not> r then Inl (Panic ''release'')
       else Inr (m\<lparr>locks := (locks m)(lk := (locks m lk)\<lparr>lk_cpu := None\<rparr>)\<rparr>))"

definition release_end :: "nat \<Rightarrow> lock \<Rightarrow> 'a smp_scheme \<Rightarrow> 'a smp_scheme result" where
  "release_end c lk m =
     pop_off c (m\<lparr>locks := (locks m)(lk := (locks m lk)\<lparr>locked := 0\<rparr>)\<rparr>)"

section \<open>Interleaved execution\<close>

text \<open>
  Where a CPU is inside \<open>acquire\<close> or \<open>release\<close> (\<open>Running\<close> is outside both), and a history
  variable \<open>crit\<close>: the locks whose \<open>acquire\<close> has returned to the CPU's code and whose
  \<open>release\<close> it has not called yet, that is the critical sections the CPU is executing.
\<close>

datatype phase = Running | Spinning lock | Entering lock | Leaving lock

record lsys = smp +
  phase :: "nat \<Rightarrow> phase"
  crit :: "nat \<Rightarrow> lock set"

definition at_phase :: "nat \<Rightarrow> phase \<Rightarrow> lsys \<Rightarrow> lsys" where
  "at_phase c p s = s\<lparr>phase := (phase s)(c := p)\<rparr>"

definition set_crit :: "nat \<Rightarrow> (lock set \<Rightarrow> lock set) \<Rightarrow> lsys \<Rightarrow> lsys" where
  "set_crit c f s = s\<lparr>crit := (crit s)(c := f (crit s c))\<rparr>"

inductive lock_step :: "lsys \<Rightarrow> lsys \<Rightarrow> bool" where
  call_acquire: "phase s c = Running \<Longrightarrow> acquire_begin c l s = Inr s' \<Longrightarrow>
     lock_step s (at_phase c (Spinning l) s')"
| spin: "phase s c = Spinning l \<Longrightarrow> test_and_set l s = (old, s') \<Longrightarrow> old \<noteq> 0 \<Longrightarrow>
     lock_step s s'"
| win: "phase s c = Spinning l \<Longrightarrow> test_and_set l s = (old, s') \<Longrightarrow> old = 0 \<Longrightarrow>
     lock_step s (at_phase c (Entering l) s')"
| enter: "phase s c = Entering l \<Longrightarrow>
     lock_step s (set_crit c (insert l) (at_phase c Running (acquire_end c l s)))"
| call_release: "phase s c = Running \<Longrightarrow> release_begin c l s = Inr s' \<Longrightarrow>
     lock_step s (set_crit c (\<lambda>L. L - {l}) (at_phase c (Leaving l) s'))"
| left: "phase s c = Leaving l \<Longrightarrow> release_end c l s = Inr s' \<Longrightarrow>
     lock_step s (at_phase c Running s')"
| interrupts: "phase s c = Running \<Longrightarrow> noff (cpus s c) = 0 \<Longrightarrow>
     lock_step s (intr_set c b s)"

definition boot :: lsys where
  "boot = \<lparr>cpus = (\<lambda>_. \<lparr>noff = 0, intena = False\<rparr>), sie = (\<lambda>_. False),
           locks = (\<lambda>_. \<lparr>lk_name = [], locked = 0, lk_cpu = None\<rparr>), phase = (\<lambda>_. Running),
           crit = (\<lambda>_. {})\<rparr>"

inductive lock_reachable :: "lsys \<Rightarrow> bool" where
  start: "lock_reachable boot"
| step: "lock_reachable s \<Longrightarrow> lock_step s t \<Longrightarrow> lock_reachable t"

text \<open>The lock set a CPU is inside of, from winning the swap to giving the lock back.\<close>

definition inside :: "lsys \<Rightarrow> nat \<Rightarrow> lock set" where
  "inside s c = {l. lk_cpu (locks s l) = Some c \<or> phase s c = Entering l \<or> phase s c = Leaving l}"

definition spinning :: "lsys \<Rightarrow> nat \<Rightarrow> nat" where
  "spinning s c = (case phase s c of Spinning _ \<Rightarrow> 1 | _ \<Rightarrow> 0)"

definition lock_inv :: "lsys \<Rightarrow> bool" where
  "lock_inv s \<longleftrightarrow>
     (\<forall>l. locked (locks s l) \<noteq> 0 \<longleftrightarrow> (\<exists>c. l \<in> inside s c)) \<and>
     (\<forall>l c d. l \<in> inside s c \<and> l \<in> inside s d \<longrightarrow> c = d) \<and>
     (\<forall>l c. lk_cpu (locks s l) = Some c \<longrightarrow> phase s c \<noteq> Entering l \<and> phase s c \<noteq> Leaving l) \<and>
     (\<forall>c. finite (inside s c) \<and> noff (cpus s c) = int (card (inside s c) + spinning s c)) \<and>
     (\<forall>c. 0 < noff (cpus s c) \<longrightarrow> \<not> sie s c) \<and>
     (\<forall>c l. l \<in> crit s c \<longleftrightarrow> lk_cpu (locks s l) = Some c)"

subsection \<open>What the routines do to the machine\<close>

lemma push_off_simps [simp]:
  "locks (push_off c m) = locks m"
  "noff (cpus (push_off c m) d) = (if d = c then noff (cpus m c) + 1 else noff (cpus m d))"
  "sie (push_off c m) = (sie m)(c := False)"
  by (auto simp: push_off_def Let_def intr_set_def)

lemma push_off_phase [simp]: "phase (push_off c m) = phase m" "crit (push_off c m) = crit m"
  by (simp_all add: push_off_def Let_def intr_set_def)

lemma pop_push_off:
  assumes "0 \<le> noff (cpus m c)" "0 < noff (cpus m c) \<longrightarrow> \<not> sie m c"
  shows "\<exists>m'. pop_off c (push_off c m) = Inr m' \<and> locks m' = locks m \<and> sie m' = sie m \<and>
           (\<forall>d. noff (cpus m' d) = noff (cpus m d))"
  using assms
  by (auto simp: pop_off_def push_off_def Let_def intr_get_def intr_set_def fun_eq_iff)

lemma pop_push_off_phase:
  "pop_off c (push_off c s) = Inr s' \<Longrightarrow> phase s' = phase s \<and> crit s' = crit s"
  by (auto simp: pop_off_def push_off_def Let_def intr_get_def intr_set_def split: if_splits)

definition same_view :: "lsys \<Rightarrow> lsys \<Rightarrow> bool" where
  "same_view m m' \<longleftrightarrow> locks m' = locks m \<and> sie m' = sie m \<and> phase m' = phase m \<and> crit m' = crit m \<and>
     (\<forall>d. noff (cpus m' d) = noff (cpus m d))"

definition cpu_ok :: "'a smp_scheme \<Rightarrow> nat \<Rightarrow> bool" where
  "cpu_ok m c \<longleftrightarrow> 0 \<le> noff (cpus m c) \<and> (0 < noff (cpus m c) \<longrightarrow> \<not> sie m c)"

definition owns :: "'a smp_scheme \<Rightarrow> nat \<Rightarrow> lock \<Rightarrow> bool" where
  "owns m c l \<longleftrightarrow> locked (locks m l) \<noteq> 0 \<and> lk_cpu (locks m l) = Some c"

lemma cpu_ok_push_off: "cpu_ok m c \<Longrightarrow> cpu_ok (push_off c m) c"
  by (simp add: cpu_ok_def)

lemma holding_spec:
  assumes "cpu_ok m c"
  obtains m' where "holding c l m = Inr (owns m c l, m')" "same_view m m'"
proof -
  from pop_push_off [of m c] assms obtain m' where m':
    "pop_off c (push_off c m) = Inr m'" "locks m' = locks m" "sie m' = sie m"
    "\<forall>d. noff (cpus m' d) = noff (cpus m d)"
    by (auto simp: cpu_ok_def)
  moreover from m'(1) have "phase m' = phase m \<and> crit m' = crit m" by (rule pop_push_off_phase)
  ultimately show ?thesis
    using that [of m'] by (simp add: holding_def Let_def same_view_def owns_def)
qed

lemma acquire_begin_spec:
  assumes "cpu_ok m c"
  shows "if owns m c l then acquire_begin c l m = Inl (Panic ''acquire'')
         else \<exists>m'. acquire_begin c l m = Inr m' \<and> same_view (push_off c m) m'"
proof -
  obtain m' where "holding c l (push_off c m) = Inr (owns (push_off c m) c l, m')"
    "same_view (push_off c m) m'"
    using holding_spec [OF cpu_ok_push_off [OF assms]] by blast
  then show ?thesis by (simp add: acquire_begin_def owns_def)
qed

lemma release_begin_spec:
  assumes "cpu_ok m c"
  shows "if owns m c l
         then \<exists>m'. release_begin c l m =
                 Inr (m'\<lparr>locks := (locks m)(l := (locks m l)\<lparr>lk_cpu := None\<rparr>)\<rparr>) \<and> same_view m m'
         else release_begin c l m = Inl (Panic ''release'')"
proof -
  obtain m' where "holding c l m = Inr (owns m c l, m')" "same_view m m'"
    using holding_spec [OF assms] by blast
  then show ?thesis by (auto simp: release_begin_def same_view_def)
qed

lemma release_end_spec:
  assumes "cpu_ok m c" "0 < noff (cpus m c)"
  shows "\<exists>m'. release_end c l m = Inr m' \<and>
           locks m' = (locks m)(l := (locks m l)\<lparr>locked := 0\<rparr>) \<and> phase m' = phase m \<and> crit m' = crit m \<and>
           (\<forall>d. noff (cpus m' d) = (if d = c then noff (cpus m c) - 1 else noff (cpus m d))) \<and>
           (\<forall>d. d \<noteq> c \<longrightarrow> sie m' d = sie m d) \<and> (0 < noff (cpus m' c) \<longrightarrow> \<not> sie m' c)"
  using assms
  by (auto simp: release_end_def pop_off_def Let_def intr_get_def intr_set_def cpu_ok_def)

subsection \<open>The invariant is kept by every step\<close>

lemma lock_invI:
  assumes "\<And>l. locked (locks s l) \<noteq> 0 \<longleftrightarrow> (\<exists>c. l \<in> inside s c)"
    and "\<And>l c d. l \<in> inside s c \<Longrightarrow> l \<in> inside s d \<Longrightarrow> c = d"
    and "\<And>l c. lk_cpu (locks s l) = Some c \<Longrightarrow> phase s c \<noteq> Entering l \<and> phase s c \<noteq> Leaving l"
    and "\<And>c. finite (inside s c)"
    and "\<And>c. noff (cpus s c) = int (card (inside s c) + spinning s c)"
    and "\<And>c. 0 < noff (cpus s c) \<Longrightarrow> \<not> sie s c"
    and "\<And>c l. l \<in> crit s c \<longleftrightarrow> lk_cpu (locks s l) = Some c"
  shows "lock_inv s"
  using assms unfolding lock_inv_def by blast

lemma lock_invD:
  assumes "lock_inv s"
  shows "locked (locks s l) \<noteq> 0 \<longleftrightarrow> (\<exists>c. l \<in> inside s c)"
    and "l \<in> inside s c \<Longrightarrow> l \<in> inside s d \<Longrightarrow> c = d"
    and "lk_cpu (locks s l) = Some c \<Longrightarrow> phase s c \<noteq> Entering l \<and> phase s c \<noteq> Leaving l"
    and "finite (inside s c)"
    and "noff (cpus s c) = int (card (inside s c) + spinning s c)"
    and "0 < noff (cpus s c) \<Longrightarrow> \<not> sie s c"
    and "l \<in> crit s c \<longleftrightarrow> lk_cpu (locks s l) = Some c"
  using assms unfolding lock_inv_def by blast+

lemma lock_inv_cpu_ok: "lock_inv s \<Longrightarrow> cpu_ok s c"
  by (simp add: lock_inv_def cpu_ok_def)

lemma lock_inv_owns: "lock_inv s \<Longrightarrow> owns s c l \<longleftrightarrow> lk_cpu (locks s l) = Some c"
  by (auto simp: lock_inv_def owns_def inside_def)

lemma inside_at_phase:
  "inside (at_phase c p s) d =
     (if d = c then {l. lk_cpu (locks s l) = Some c \<or> p = Entering l \<or> p = Leaving l} else inside s d)"
  by (auto simp: inside_def at_phase_def)

lemma lock_inv_call_acquire:
  assumes inv: "lock_inv s" and ph: "phase s c = Running" and a: "acquire_begin c l s = Inr s'"
  shows "lock_inv (at_phase c (Spinning l) s')"
proof -
  from acquire_begin_spec [OF lock_inv_cpu_ok [OF inv], of c l] a
  have sv: "same_view (push_off c s) s'" by (auto split: if_splits)
  then have ins: "inside (at_phase c (Spinning l) s') = inside s"
    using ph by (auto simp: fun_eq_iff inside_def at_phase_def same_view_def)
  have "spinning s c = 0" using ph by (simp add: spinning_def)
  then show ?thesis
    using inv sv ph unfolding lock_inv_def ins
    by (auto simp: same_view_def at_phase_def spinning_def)
qed

lemma lock_inv_spin:
  assumes "lock_inv s" and "test_and_set l s = (old, s')" and "old \<noteq> 0"
  shows "lock_inv s'"
proof -
  from assms have s': "s' = s\<lparr>locks := (locks s)(l := (locks s l)\<lparr>locked := 1\<rparr>)\<rparr>"
    and old: "locked (locks s l) \<noteq> 0" by (auto simp: test_and_set_def)
  have ins: "inside s' = inside s" by (auto simp: s' inside_def fun_eq_iff)
  have sp: "spinning s' = spinning s" by (auto simp: s' spinning_def fun_eq_iff)
  show ?thesis using assms(1) old unfolding lock_inv_def ins sp by (auto simp: s')
qed

lemma lock_inv_win:
  assumes inv: "lock_inv s" and ph: "phase s c = Spinning l" and "test_and_set l s = (old, s')"
    and "old = 0"
  shows "lock_inv (at_phase c (Entering l) s')"
proof -
  from assms have s': "s' = s\<lparr>locks := (locks s)(l := (locks s l)\<lparr>locked := 1\<rparr>)\<rparr>"
    and free: "\<And>d. l \<notin> inside s d"
    by (auto simp: test_and_set_def lock_inv_def)
  let ?t = "at_phase c (Entering l) s'"
  have ins: "inside ?t d = (if d = c then insert l (inside s c) else inside s d)"
    for d using ph by (auto simp: s' inside_def at_phase_def)
  have sp: "spinning ?t d = (if d = c then 0 else spinning s d)" for d
    by (simp add: spinning_def at_phase_def s')
  have ncpu: "lk_cpu (locks s l) \<noteq> Some d" for d using free [of d] by (simp add: inside_def)
  show ?thesis
  proof (rule lock_invI)
    show "(locked (locks ?t la) \<noteq> 0) = (\<exists>d. la \<in> inside ?t d)" for la
      using lock_invD(1) [OF inv, of la] unfolding ins by (auto simp: s' at_phase_def)
    show "ca = d" if "la \<in> inside ?t ca" "la \<in> inside ?t d" for la ca d
      using that free lock_invD(2) [OF inv] by (auto simp: ins split: if_splits)
    show "phase ?t d \<noteq> Entering la \<and> phase ?t d \<noteq> Leaving la"
      if "lk_cpu (locks ?t la) = Some d" for la d
      using that ncpu lock_invD(3) [OF inv, of la d] by (auto simp: s' at_phase_def split: if_splits)
    show "finite (inside ?t d)" for d using lock_invD(4) [OF inv] by (simp add: ins)
    show "noff (cpus ?t d) = int (card (inside ?t d) + spinning ?t d)" for d
      using lock_invD(4,5) [OF inv, of d] free ph unfolding ins sp
      by (auto simp: spinning_def s' at_phase_def)
    show "\<not> sie ?t d" if "0 < noff (cpus ?t d)" for d
      using that lock_invD(6) [OF inv, of d] by (simp add: s' at_phase_def)
    show "la \<in> crit ?t d \<longleftrightarrow> lk_cpu (locks ?t la) = Some d" for la d
      using lock_invD(7) [OF inv, of la d] by (simp add: s' at_phase_def)
  qed
qed

lemma lock_inv_enter:
  assumes inv: "lock_inv s" and ph: "phase s c = Entering l"
  shows "lock_inv (set_crit c (insert l) (at_phase c Running (acquire_end c l s)))"
proof -
  have only: "lk_cpu (locks s l) = None"
  proof (cases "lk_cpu (locks s l)")
    case (Some d)
    then have "l \<in> inside s d" "l \<in> inside s c" using ph by (auto simp: inside_def)
    then have "d = c" using inv by (auto simp: lock_inv_def)
    with Some ph inv show ?thesis by (auto simp: lock_inv_def)
  qed simp
  let ?t = "set_crit c (insert l) (at_phase c Running (acquire_end c l s))"
  have ins: "inside ?t = inside s"
    using ph only
    by (auto simp: fun_eq_iff inside_def set_crit_def at_phase_def acquire_end_def split: if_splits)
  have sp: "spinning ?t = spinning s"
    using ph by (auto simp: fun_eq_iff spinning_def set_crit_def at_phase_def acquire_end_def)
  have "la \<in> crit ?t d \<longleftrightarrow> lk_cpu (locks ?t la) = Some d" for la d
    using lock_invD(7) [OF inv, of la d] only by (auto simp: set_crit_def at_phase_def acquire_end_def)
  then show ?thesis
    using inv only ph unfolding lock_inv_def ins sp
    by (auto simp: set_crit_def at_phase_def acquire_end_def inside_def)
qed

lemma lock_inv_call_release:
  assumes inv: "lock_inv s" and ph: "phase s c = Running" and r: "release_begin c l s = Inr s'"
  shows "lock_inv (set_crit c (\<lambda>L. L - {l}) (at_phase c (Leaving l) s'))"
proof -
  from release_begin_spec [OF lock_inv_cpu_ok [OF inv], of c l] r obtain m' where
    own: "owns s c l" and s': "s' = m'\<lparr>locks := (locks s)(l := (locks s l)\<lparr>lk_cpu := None\<rparr>)\<rparr>"
    and sv: "same_view s m'"
    by (auto split: if_splits)
  have cpu: "lk_cpu (locks s l) = Some c" using own inv by (simp add: lock_inv_owns)
  let ?t = "set_crit c (\<lambda>L. L - {l}) (at_phase c (Leaving l) s')"
  have ins: "inside ?t = inside s"
    using ph cpu sv by (auto simp: fun_eq_iff inside_def set_crit_def at_phase_def s' same_view_def)
  have sp: "spinning ?t = spinning s"
    using ph sv by (auto simp: fun_eq_iff spinning_def set_crit_def at_phase_def s' same_view_def)
  have "la \<in> crit ?t d \<longleftrightarrow> lk_cpu (locks ?t la) = Some d" for la d
    using lock_invD(7) [OF inv, of la d] cpu sv
    by (auto simp: set_crit_def at_phase_def s' same_view_def)
  then show ?thesis
    using inv cpu ph sv unfolding lock_inv_def ins sp
    by (auto simp: set_crit_def at_phase_def s' same_view_def)
qed

lemma lock_inv_left:
  assumes inv: "lock_inv s" and ph: "phase s c = Leaving l" and r: "release_end c l s = Inr s'"
  shows "lock_inv (at_phase c Running s')"
proof -
  have lin: "l \<in> inside s c" using ph by (simp add: inside_def)
  have fin: "finite (inside s c)" and no: "noff (cpus s c) = int (card (inside s c))"
    using inv ph by (auto simp: lock_inv_def spinning_def)
  have pos: "0 < noff (cpus s c)" using lin fin no by (auto simp: card_gt_0_iff)
  from release_end_spec [OF lock_inv_cpu_ok [OF inv] pos, of l] r
  have s': "locks s' = (locks s)(l := (locks s l)\<lparr>locked := 0\<rparr>)" "phase s' = phase s" "crit s' = crit s"
    "\<And>d. noff (cpus s' d) = (if d = c then noff (cpus s c) - 1 else noff (cpus s d))"
    "\<And>d. d \<noteq> c \<Longrightarrow> sie s' d = sie s d" "0 < noff (cpus s' c) \<Longrightarrow> \<not> sie s' c"
    by auto
  have nc: "lk_cpu (locks s l) \<noteq> Some c" using inv ph by (auto simp: lock_inv_def)
  let ?t = "at_phase c Running s'"
  have ins: "inside ?t d = (if d = c then inside s c - {l} else inside s d)" for d
    using ph nc by (auto simp: inside_def at_phase_def s')
  have sp: "spinning ?t d = (if d = c then 0 else spinning s d)" for d
    by (simp add: spinning_def at_phase_def s')
  have lonly: "l \<in> inside s d \<longleftrightarrow> d = c" for d
    using lin inv by (auto simp: lock_inv_def)
  show ?thesis
  proof (rule lock_invI)
    show "(locked (locks ?t la) \<noteq> 0) = (\<exists>d. la \<in> inside ?t d)" for la
    proof (cases "la = l")
      case True
      then show ?thesis using lonly unfolding ins by (auto simp: s' at_phase_def)
    next
      case False
      then have "la \<in> inside ?t d \<longleftrightarrow> la \<in> inside s d" for d by (simp add: ins)
      with False show ?thesis using lock_invD(1) [OF inv, of la] by (simp add: s' at_phase_def)
    qed
    show "ca = d" if "la \<in> inside ?t ca" "la \<in> inside ?t d" for la ca d
      using that lock_invD(2) [OF inv] by (auto simp: ins split: if_splits)
    show "phase ?t d \<noteq> Entering la \<and> phase ?t d \<noteq> Leaving la"
      if "lk_cpu (locks ?t la) = Some d" for la d
      using that lock_invD(3) [OF inv, of la d] by (auto simp: s' at_phase_def split: if_splits)
    show "finite (inside ?t d)" for d using lock_invD(4) [OF inv] by (simp add: ins)
    show "noff (cpus ?t d) = int (card (inside ?t d) + spinning ?t d)" for d
      using lock_invD(5) [OF inv, of d] fin lin no pos
      unfolding ins sp by (auto simp: s' at_phase_def card_Diff_singleton of_nat_diff)
    show "\<not> sie ?t d" if "0 < noff (cpus ?t d)" for d
      using that lock_invD(6) [OF inv, of d] s' by (cases "d = c") (auto simp: at_phase_def)
    show "la \<in> crit ?t d \<longleftrightarrow> lk_cpu (locks ?t la) = Some d" for la d
      using lock_invD(7) [OF inv, of la d] by (simp add: s' at_phase_def)
  qed
qed

lemma lock_step_inv: "lock_step s t \<Longrightarrow> lock_inv s \<Longrightarrow> lock_inv t"
proof (induction rule: lock_step.induct)
  case (interrupts s c b)
  have "inside (intr_set c b s) = inside s" "spinning (intr_set c b s) = spinning s"
    by (auto simp: fun_eq_iff inside_def spinning_def intr_set_def)
  with interrupts show ?case by (auto simp: lock_inv_def intr_set_def)
qed (auto intro: lock_inv_call_acquire lock_inv_spin lock_inv_win lock_inv_enter
      lock_inv_call_release lock_inv_left)

lemma boot_inv: "lock_inv boot"
  by (simp add: lock_inv_def boot_def inside_def spinning_def)

lemma lock_reachable_inv: "lock_reachable s \<Longrightarrow> lock_inv s"
  by (induction rule: lock_reachable.induct) (auto intro: boot_inv lock_step_inv)

subsection \<open>The lock interface\<close>

text \<open>
  What the clients of \<open>acquire\<close> and \<open>release\<close> rely on: \<open>held_of\<close> is the set of locks
  the CPU holds, \<open>avail\<close> says that nobody holds the lock.
\<close>

locale spin_interface =
  fixes acq :: "lock \<Rightarrow> 's \<Rightarrow> 's result"
    and rel :: "lock \<Rightarrow> 's \<Rightarrow> 's result"
    and held_of :: "'s \<Rightarrow> lock set"
    and avail :: "'s \<Rightarrow> lock \<Rightarrow> bool"
    and ok :: "'s \<Rightarrow> bool"
  assumes acq_avail: "ok s \<Longrightarrow> avail s l \<Longrightarrow>
      \<exists>s'. acq l s = Inr s' \<and> ok s' \<and> held_of s' = insert l (held_of s)"
    and acq_self: "ok s \<Longrightarrow> l \<in> held_of s \<Longrightarrow> acq l s = Inl (Panic ''acquire'')"
    and rel_held: "ok s \<Longrightarrow> l \<in> held_of s \<Longrightarrow>
      \<exists>s'. rel l s = Inr s' \<and> ok s' \<and> held_of s' = held_of s - {l}"
    and rel_not_held: "ok s \<Longrightarrow> l \<notin> held_of s \<Longrightarrow> rel l s = Inl (Panic ''release'')"
begin

lemma avail_not_held: "ok s \<Longrightarrow> avail s l \<Longrightarrow> l \<notin> held_of s"
  using acq_avail [of s l] acq_self [of s l] by (metis Inr_Inl_False)

text \<open>A critical section around a body that keeps the lock set gives the lock set back.\<close>

lemma critical_section:
  assumes "ok s" "avail s l"
    and body: "\<And>t. ok t \<Longrightarrow> held_of t = insert l (held_of s) \<Longrightarrow>
      returns (body t) (\<lambda>t'. ok t' \<and> held_of t' = held_of t)"
  shows "returns (bnd (acq l s) (\<lambda>t. bnd (body t) (rel l))) (\<lambda>t. ok t \<and> held_of t = held_of s)"
proof -
  have nh: "l \<notin> held_of s" using assms(1,2) by (rule avail_not_held)
  from acq_avail [OF assms(1,2)] obtain t where t: "acq l s = Inr t" "ok t"
    "held_of t = insert l (held_of s)" by blast
  from body [OF t(2,3)] obtain t' where t': "body t = Inr t'" "ok t'" "held_of t' = held_of t"
    by (auto simp: returns_iff)
  from rel_held [of t' l] t t' nh show ?thesis by auto
qed

end

text \<open>The whole \<open>acquire\<close> and \<open>release\<close> of CPU \<open>c\<close>, with no step of another CPU between.\<close>

definition smp_acquire :: "nat \<Rightarrow> lock \<Rightarrow> lsys \<Rightarrow> lsys result" where
  "smp_acquire c lk m =
     bnd (acquire_begin c lk m) (\<lambda>m.
       let (old, m) = test_and_set lk m
       in if old = 0 then Inr (acquire_end c lk m) else Inl (Spin lk))"

definition smp_release :: "nat \<Rightarrow> lock \<Rightarrow> lsys \<Rightarrow> lsys result" where
  "smp_release c lk m = bnd (release_begin c lk m) (release_end c lk)"

definition smp_held :: "nat \<Rightarrow> lsys \<Rightarrow> lock set" where
  "smp_held c m = {l. owns m c l}"

definition smp_ok :: "nat \<Rightarrow> lsys \<Rightarrow> bool" where
  "smp_ok c m \<longleftrightarrow> finite (smp_held c m) \<and> noff (cpus m c) = int (card (smp_held c m)) \<and>
     (0 < noff (cpus m c) \<longrightarrow> \<not> sie m c)"

definition smp_avail :: "lsys \<Rightarrow> lock \<Rightarrow> bool" where
  "smp_avail m l \<longleftrightarrow> locked (locks m l) = 0"

lemma smp_ok_cpu_ok: "smp_ok c m \<Longrightarrow> cpu_ok m c"
  by (simp add: smp_ok_def cpu_ok_def)

lemma lock_inv_smp_ok: "lock_inv s \<Longrightarrow> phase s c = Running \<Longrightarrow> smp_ok c s"
proof -
  assume inv: "lock_inv s" and ph: "phase s c = Running"
  have "smp_held c s = inside s c"
    using ph lock_inv_owns [OF inv] by (auto simp: smp_held_def inside_def)
  then show "smp_ok c s"
    using inv ph by (auto simp: smp_ok_def lock_inv_def spinning_def)
qed

lemma smp_acquire_avail:
  assumes "smp_ok c m" "smp_avail m l"
  shows "\<exists>m'. smp_acquire c l m = Inr m' \<and> smp_ok c m' \<and> smp_held c m' = insert l (smp_held c m)"
proof -
  have no: "\<not> owns m c l" using assms(2) by (simp add: smp_avail_def owns_def)
  from acquire_begin_spec [OF smp_ok_cpu_ok [OF assms(1)], of l] no obtain m1 where
    m1: "acquire_begin c l m = Inr m1" "same_view (push_off c m) m1" by auto
  let ?m2 = "acquire_end c l (snd (test_and_set l m1))"
  have res: "smp_acquire c l m = Inr ?m2"
    using m1 assms(2) by (simp add: smp_acquire_def test_and_set_def smp_avail_def same_view_def)
  have held: "smp_held c ?m2 = insert l (smp_held c m)"
    using m1(2) by (auto simp: smp_held_def owns_def acquire_end_def test_and_set_def same_view_def)
  have "smp_ok c ?m2"
    unfolding smp_ok_def held
    using m1(2) assms(1) no
    by (simp add: smp_ok_def acquire_end_def test_and_set_def same_view_def smp_held_def)
  with res held show ?thesis by blast
qed

lemma smp_release_held:
  assumes "smp_ok c m" "l \<in> smp_held c m"
  shows "\<exists>m'. smp_release c l m = Inr m' \<and> smp_ok c m' \<and> smp_held c m' = smp_held c m - {l}"
proof -
  from release_begin_spec [OF smp_ok_cpu_ok [OF assms(1)], of l] assms(2) obtain m1 where
    m1: "release_begin c l m = Inr (m1\<lparr>locks := (locks m)(l := (locks m l)\<lparr>lk_cpu := None\<rparr>)\<rparr>)"
    "same_view m m1" by (auto simp: smp_held_def)
  let ?m2 = "m1\<lparr>locks := (locks m)(l := (locks m l)\<lparr>lk_cpu := None\<rparr>)\<rparr>"
  have pos: "0 < noff (cpus m c)"
    using assms by (auto simp: smp_ok_def card_gt_0_iff)
  have "cpu_ok ?m2 c" "0 < noff (cpus ?m2 c)"
    using smp_ok_cpu_ok [OF assms(1)] m1(2) pos by (auto simp: cpu_ok_def same_view_def)
  from release_end_spec [OF this, of l] obtain m3 where
    m3: "release_end c l ?m2 = Inr m3"
    "locks m3 = (locks ?m2)(l := (locks ?m2 l)\<lparr>locked := 0\<rparr>)"
    "noff (cpus m3 c) = noff (cpus m1 c) - 1" "0 < noff (cpus m3 c) \<longrightarrow> \<not> sie m3 c"
    by auto
  have held: "smp_held c m3 = smp_held c m - {l}"
    by (auto simp: smp_held_def owns_def m3)
  have "smp_ok c m3"
    unfolding smp_ok_def held
    using m1(2) m3(3,4) assms pos
    by (auto simp: smp_ok_def same_view_def card_Diff_singleton of_nat_diff)
  with m1 m3 held show ?thesis by (auto simp: smp_release_def)
qed

interpretation hart: spin_interface "smp_acquire c" "smp_release c" "smp_held c" smp_avail "smp_ok c"
  for c
proof unfold_locales
  fix s l assume s: "smp_ok c s"
  { assume "smp_avail s l"
    with s show "\<exists>s'. smp_acquire c l s = Inr s' \<and> smp_ok c s' \<and> smp_held c s' = insert l (smp_held c s)"
      by (rule smp_acquire_avail) }
  { assume "l \<in> smp_held c s"
    with s show "\<exists>s'. smp_release c l s = Inr s' \<and> smp_ok c s' \<and> smp_held c s' = smp_held c s - {l}"
      by (rule smp_release_held) }
  { assume "l \<in> smp_held c s"
    with acquire_begin_spec [OF smp_ok_cpu_ok [OF s], of l]
    show "smp_acquire c l s = Inl (Panic ''acquire'')" by (simp add: smp_acquire_def smp_held_def) }
  { assume "l \<notin> smp_held c s"
    with release_begin_spec [OF smp_ok_cpu_ok [OF s], of l]
    show "smp_release c l s = Inl (Panic ''release'')" by (simp add: smp_release_def smp_held_def) }
qed

section \<open>The held-lock view used by the rest of the kernel\<close>

text \<open>
  The other theories follow one CPU. Their state extends this record; a lock that another
  CPU holds for a moment is waited for, so taking a lock succeeds unless this CPU already
  holds it, which panics.
\<close>

record kcpu =
  held :: "lock set"

definition acquire :: "lock \<Rightarrow> 'a kcpu_scheme \<Rightarrow> 'a kcpu_scheme result" where
  "acquire lk s = (if lk \<in> held s then Inl (Panic ''acquire'') else Inr (s\<lparr>held := insert lk (held s)\<rparr>))"

definition release :: "lock \<Rightarrow> 'a kcpu_scheme \<Rightarrow> 'a kcpu_scheme result" where
  "release lk s = (if lk \<notin> held s then Inl (Panic ''release'') else Inr (s\<lparr>held := held s - {lk}\<rparr>))"

interpretation view: spin_interface acquire release held "\<lambda>s l. l \<notin> held s" "\<lambda>_. True"
  by unfold_locales (auto simp: acquire_def release_def)

text \<open>
  The view refines to the machine: for a CPU of a reachable system that is outside
  \<open>acquire\<close> and \<open>release\<close>, taking or giving back a lock changes the machine's held set as
  the view says, with the same panics.
\<close>

definition hart_view :: "nat \<Rightarrow> lsys \<Rightarrow> kcpu" where
  "hart_view c m = \<lparr>held = smp_held c m\<rparr>"

lemma hart_view_acquire:
  assumes "smp_ok c m" and "smp_avail m l \<or> l \<in> smp_held c m"
  shows "map_sum id (hart_view c) (smp_acquire c l m) = acquire l (hart_view c m)"
proof (cases "l \<in> smp_held c m")
  case True
  then show ?thesis using hart.acq_self [OF assms(1) True] by (simp add: acquire_def hart_view_def)
next
  case False
  with assms(2) have "smp_avail m l" by simp
  from hart.acq_avail [OF assms(1) this] obtain m' where
    "smp_acquire c l m = Inr m'" "smp_held c m' = insert l (smp_held c m)" by blast
  with False show ?thesis by (simp add: acquire_def hart_view_def)
qed

lemma hart_view_release:
  assumes "smp_ok c m"
  shows "map_sum id (hart_view c) (smp_release c l m) = release l (hart_view c m)"
proof (cases "l \<in> smp_held c m")
  case True
  from hart.rel_held [OF assms True] obtain m' where
    "smp_release c l m = Inr m'" "smp_held c m' = smp_held c m - {l}" by blast
  with True show ?thesis by (simp add: release_def hart_view_def)
next
  case False
  from hart.rel_not_held [OF assms False] False show ?thesis by (simp add: release_def hart_view_def)
qed

lemma acquire_free [simp]: "lk \<notin> held s \<Longrightarrow> acquire lk s = Inr (s\<lparr>held := insert lk (held s)\<rparr>)"
  by (simp add: acquire_def)

lemma release_held [simp]: "lk \<in> held s \<Longrightarrow> release lk s = Inr (s\<lparr>held := held s - {lk}\<rparr>)"
  by (simp add: release_def)

section \<open>Properties\<close>

lemma acquire_begin_phase:
  "acquire_begin c l s = Inr s' \<Longrightarrow> phase s' = phase s \<and> crit s' = crit s"
  by (auto simp: acquire_begin_def holding_def Let_def outcome dest!: pop_push_off_phase split: if_splits)

text \<open>An uninterrupted \<open>acquire\<close> is a run of the step relation.\<close>

lemma smp_acquire_reachable:
  assumes "lock_reachable s" "phase s c = Running" "smp_acquire c l s = Inr t"
  shows "lock_reachable (set_crit c (insert l) t)"
proof -
  from assms(3) obtain s1 where s1: "acquire_begin c l s = Inr s1"
    and free: "locked (locks s1 l) = 0"
    and t: "t = acquire_end c l (snd (test_and_set l s1))"
    by (auto simp: smp_acquire_def outcome test_and_set_def split: if_splits)
  have ph: "phase s1 = phase s" using acquire_begin_phase [OF s1] by simp
  let ?a = "at_phase c (Spinning l) s1"
  let ?b = "at_phase c (Entering l) (snd (test_and_set l ?a))"
  let ?c = "set_crit c (insert l) (at_phase c Running (acquire_end c l ?b))"
  have "lock_reachable ?a"
    using assms(1,2) s1 by (blast intro: lock_reachable.step lock_step.call_acquire)
  moreover have "lock_step ?a ?b"
    by (rule lock_step.win [of _ c l 0]) (simp_all add: at_phase_def test_and_set_def free)
  ultimately have "lock_reachable ?b" by (rule lock_reachable.step)
  moreover have "lock_step ?b ?c"
    by (rule lock_step.enter) (simp add: at_phase_def)
  ultimately have "lock_reachable ?c" by (rule lock_reachable.step)
  moreover have "?c = set_crit c (insert l) t"
    using ph assms(2)
    by (simp add: t at_phase_def set_crit_def acquire_end_def test_and_set_def fun_upd_idem)
  ultimately show ?thesis by simp
qed

lemma boot_acquired:
  obtains t where "lock_reachable t" "l \<in> crit t c" "phase t c = Running"
proof -
  have ok: "smp_ok c boot" by (rule lock_inv_smp_ok [OF boot_inv]) (simp add: boot_def)
  have "smp_avail boot l" by (simp add: smp_avail_def boot_def)
  from hart.acq_avail [OF ok this] obtain t where t: "smp_acquire c l boot = Inr t" by blast
  have "lock_reachable (set_crit c (insert l) t)"
    by (rule smp_acquire_reachable [OF lock_reachable.start _ t]) (simp add: boot_def)
  moreover have "phase t c = Running"
    using t by (auto simp: smp_acquire_def outcome test_and_set_def acquire_end_def boot_def
        dest!: acquire_begin_phase split: if_splits)
  ultimately show ?thesis using that by (simp add: set_crit_def)
qed



text \<open>
  C2. The lock code of a reachable system only panics for a misuse: \<open>acquire\<close> panics
  exactly when the CPU already is in the lock's critical section, \<open>release\<close> exactly when it
  is not, and the \<open>pop_off\<close> that ends a release never panics.
\<close>

theorem spinlock_panics:
  assumes "lock_reachable s"
  shows "(acquire_begin c l s = Inl e \<longleftrightarrow> l \<in> crit s c \<and> e = Panic ''acquire'') \<and>
    (release_begin c l s = Inl e \<longleftrightarrow> l \<notin> crit s c \<and> e = Panic ''release'') \<and>
    (phase s c = Leaving l \<longrightarrow> (\<exists>t. release_end c l s = Inr t))"
proof -
  have inv: "lock_inv s" using assms by (rule lock_reachable_inv)
  have own: "owns s c l \<longleftrightarrow> l \<in> crit s c"
    using lock_inv_owns [OF inv] lock_invD(7) [OF inv] by simp
  have ok: "cpu_ok s c" using inv by (rule lock_inv_cpu_ok)
  have "\<exists>t. release_end c l s = Inr t" if "phase s c = Leaving l"
  proof -
    have "l \<in> inside s c" using that by (simp add: inside_def)
    with lock_invD(4) [OF inv] have "0 < card (inside s c)" by (auto simp: card_gt_0_iff)
    with lock_invD(5) [OF inv, of c] have "0 < noff (cpus s c)" by simp
    from release_end_spec [OF ok this, of l] show ?thesis by blast
  qed
  with acquire_begin_spec [OF ok, of l] release_begin_spec [OF ok, of l] own show ?thesis
    by (auto split: if_splits)
qed

theorem spinlock_panics_witness:
  "\<exists>s. lock_reachable s \<and> acquire_begin 0 LkKmem s = Inl (Panic ''acquire'') \<and>
       release_begin 1 LkKmem s = Inl (Panic ''release'')"
proof -
  obtain t where t: "lock_reachable t" "LkKmem \<in> crit t 0"
    using boot_acquired [of LkKmem 0] by blast
  have "LkKmem \<notin> crit t 1"
    using lock_invD(7) [OF lock_reachable_inv [OF t(1)], of LkKmem] t(2) by auto
  with t spinlock_panics [OF t(1), of 0 LkKmem] spinlock_panics [OF t(1), of 1 LkKmem]
  show ?thesis by blast
qed

text \<open>
  C3. The held-lock view is a refinement of the machine: for a CPU of a reachable system
  that is outside the lock code, an uninterrupted \<open>acquire\<close> of a lock no other CPU holds,
  and any \<open>release\<close>, acts on the machine's held set exactly as the view's routine does,
  panics included.
\<close>

theorem spinlock_view_refinement:
  assumes "lock_reachable s" and "phase s c = Running" and "locked (locks s l) = 0 \<or> l \<in> crit s c"
  shows "map_sum id (hart_view c) (smp_acquire c l s) = acquire l (hart_view c s) \<and>
         map_sum id (hart_view c) (smp_release c l s) = release l (hart_view c s)"
proof -
  have inv: "lock_inv s" using assms(1) by (rule lock_reachable_inv)
  have ok: "smp_ok c s" using inv assms(2) by (rule lock_inv_smp_ok)
  have "smp_avail s l \<or> l \<in> smp_held c s"
    using assms(3) lock_inv_owns [OF inv] lock_invD(7) [OF inv]
    by (auto simp: smp_avail_def smp_held_def)
  with ok show ?thesis by (simp add: hart_view_acquire hart_view_release)
qed

theorem spinlock_view_refinement_witness:
  "map_sum id (hart_view 0) (smp_acquire 0 LkLog boot) = Inr \<lparr>held = {LkLog}\<rparr>"
proof -
  have "map_sum id (hart_view 0) (smp_acquire 0 LkLog boot) = acquire LkLog (hart_view 0 boot)"
    using spinlock_view_refinement [OF lock_reachable.start, of 0 LkLog] by (simp add: boot_def)
  moreover have "hart_view 0 boot = \<lparr>held = {}\<rparr>"
    by (simp add: hart_view_def smp_held_def owns_def boot_def)
  ultimately show ?thesis by (simp add: acquire_def)
qed

end
