(* ===== verification/Kalloc.thy ===== *)
theory Kalloc
  imports Cstring Spinlock
begin

unbundle bit_operations_syntax

text \<open>
  The physical page allocator of kernel/kalloc.c. The free pages form a linked list through
  their first eight bytes; the state holds physical memory, the head of the list and the
  linker's \<open>end\<close>. The abstraction is the list of free pages, and the interface of the
  allocator is a locale that the page-table code relies on.
\<close>

section \<open>Model\<close>

abbreviation (input) KERNBASE :: u64 where "KERNBASE \<equiv> 0x80000000"
abbreviation (input) PHYSTOP :: u64 where "PHYSTOP \<equiv> 0x88000000"

definition PGROUNDUP :: "u64 \<Rightarrow> u64" where
  "PGROUNDUP sz = (sz + PGSIZE - 1) AND NOT (PGSIZE - 1)"

definition PGROUNDDOWN :: "u64 \<Rightarrow> u64" where
  "PGROUNDDOWN a = a AND NOT (PGSIZE - 1)"

record kmem = kcpu +
  ram :: mem
  freelist :: u64
  kend :: u64

definition kfree :: "u64 \<Rightarrow> 'a kmem_scheme \<Rightarrow> 'a kmem_scheme result" where
  "kfree pa s =
     (if pa mod PGSIZE \<noteq> 0 \<or> pa < kend s \<or> pa \<ge> PHYSTOP then Inl (Panic ''kfree'')
      else let s = s\<lparr>ram := memset (ram s) pa 1 4096\<rparr> in
        bnd (acquire LkKmem s) (\<lambda>s.
        let s = s\<lparr>ram := store64 (ram s) pa (freelist s)\<rparr>;
            s = s\<lparr>freelist := pa\<rparr>
        in release LkKmem s))"

definition kalloc :: "'a kmem_scheme \<Rightarrow> (u64 \<times> 'a kmem_scheme) result" where
  "kalloc s =
     bnd (acquire LkKmem s) (\<lambda>s.
     let r = freelist s;
         s = (if r \<noteq> 0 then s\<lparr>freelist := load64 (ram s) r\<rparr> else s)
     in bnd (release LkKmem s) (\<lambda>s.
        Inr (r, if r \<noteq> 0 then s\<lparr>ram := memset (ram s) r 5 4096\<rparr> else s)))"

text \<open>\<open>freerange\<close> frees every whole page of the range; pointers do not wrap.\<close>

function freerange_from :: "u64 \<Rightarrow> u64 \<Rightarrow> 'a kmem_scheme \<Rightarrow> 'a kmem_scheme result" where
  "freerange_from p pa_end s =
     (if unat p + 4096 \<le> unat pa_end
      then bnd (kfree p s) (freerange_from (p + PGSIZE) pa_end)
      else Inr s)"
  by pat_completeness auto
termination
proof (relation "measure (\<lambda>(p, e, s). unat e - unat p)")
  fix p e :: u64 and s x :: "'a kmem_scheme"
  assume le: "unat p + 4096 \<le> unat e"
  moreover have "unat e < 2 ^ 64" using unsigned_less [of e] by simp
  ultimately have "unat (p + 4096) = unat p + 4096" by (simp add: unat_word_ariths)
  with le show "((p + PGSIZE, e, x), p, e, s) \<in> measure (\<lambda>(p, e, s). unat e - unat p)" by simp
qed simp

declare freerange_from.simps [simp del]

definition freerange :: "u64 \<Rightarrow> u64 \<Rightarrow> 'a kmem_scheme \<Rightarrow> 'a kmem_scheme result" where
  "freerange pa_start pa_end s = freerange_from (PGROUNDUP pa_start) pa_end s"

definition kinit :: "'a kmem_scheme \<Rightarrow> 'a kmem_scheme result" where
  "kinit s = freerange (kend s) PHYSTOP s"

section \<open>The free list\<close>

fun free_list :: "mem \<Rightarrow> u64 \<Rightarrow> u64 list \<Rightarrow> bool" where
  "free_list m p [] = (p = 0)"
| "free_list m p (q # qs) = (p = q \<and> q \<noteq> 0 \<and> free_list m (load64 m q) qs)"

definition allocatable :: "u64 \<Rightarrow> u64 \<Rightarrow> bool" where
  "allocatable e pa \<longleftrightarrow> page_aligned pa \<and> e \<le> pa \<and> pa < PHYSTOP \<and> pa \<noteq> 0"

definition kmem_inv :: "u64 list \<Rightarrow> 'a kmem_scheme \<Rightarrow> bool" where
  "kmem_inv ps s \<longleftrightarrow> free_list (ram s) (freelist s) ps \<and> distinct ps \<and>
     (\<forall>p\<in>set ps. allocatable (kend s) p) \<and> kend s \<noteq> 0"

lemma free_list_frame:
  assumes "free_list m p qs" "\<And>q. q \<in> set qs \<Longrightarrow> load64 m' q = load64 m q"
  shows "free_list m' p qs"
  using assms by (induction m p qs rule: free_list.induct) auto

lemma free_list_unique: "free_list m p qs \<Longrightarrow> free_list m p qs' \<Longrightarrow> qs = qs'"
proof (induction qs arbitrary: p qs')
  case Nil
  then show ?case by (cases qs') auto
next
  case (Cons q qs)
  then show ?case by (cases qs') auto
qed

lemma load_bytes_memset_page:
  assumes "page_aligned p" "page_aligned q" "p \<noteq> q" "n \<le> 4096"
  shows "load_bytes (memset m p c 4096) q n = load_bytes m q n"
  using load_store_bytes_other [of "q + of_nat 0" n "p + of_nat 0" "replicate 4096 c" m]
    disjoint_runs_pages [of q p 0 n 0 4096] assms
  by (simp add: memset_eq)

lemma load64_memset_page:
  assumes "page_aligned p" "page_aligned q" "p \<noteq> q"
  shows "load64 (memset m p c 4096) q = load64 m q"
  using load_bytes_memset_page [OF assms, of 8] by (simp add: load64_def)

lemma load64_store64_base:
  assumes "page_aligned p" "page_aligned q" "p \<noteq> q"
  shows "load64 (store64 m q w) p = load64 m p"
  using load64_store64_page [OF assms, of 0 0] by simp

lemma memset_frame:
  assumes "page_aligned p" "pgno x \<noteq> pgno p"
  shows "memset m p c 4096 x = m x"
proof -
  have "\<not> unat (x - p) < 4096"
  proof
    assume "unat (x - p) < 4096"
    then have "pgno (p + of_nat (unat (x - p))) = pgno p"
      by (rule pgno_aligned_offset(1) [OF assms(1)])
    with assms(2) show False by simp
  qed
  then show ?thesis by (simp add: memset_eq store_bytes_def)
qed

lemma store64_frame:
  assumes "page_aligned p" "pgno x \<noteq> pgno p" "i < 512"
  shows "store64 m (p + of_nat (8 * i)) w x = m x"
proof -
  have "\<not> unat (x - (p + of_nat (8 * i))) < 8"
  proof
    assume lt: "unat (x - (p + of_nat (8 * i))) < 8"
    have "x = p + of_nat (8 * i + unat (x - (p + of_nat (8 * i))))" by simp
    moreover have "pgno (p + of_nat (8 * i + unat (x - (p + of_nat (8 * i))))) = pgno p"
      by (rule pgno_aligned_offset(1) [OF assms(1)]) (use lt assms(3) in linarith)
    ultimately show False using assms(2) by metis
  qed
  then show ?thesis by (simp add: store64_def store_bytes_def)
qed

section \<open>What the operations do to the list of free pages\<close>

lemma kfree_spec:
  assumes inv: "kmem_inv ps s" and lk: "LkKmem \<notin> held s"
    and pa: "allocatable (kend s) pa" "pa \<notin> set ps"
  shows "\<exists>s'. kfree pa s = Inr s' \<and> kmem_inv (pa # ps) s' \<and> held s' = held s \<and> kend s' = kend s \<and>
     kmem.more s' = kmem.more s \<and> (\<forall>x. pgno x \<noteq> pgno pa \<longrightarrow> ram s' x = ram s x)"
proof -
  let ?m = "store64 (memset (ram s) pa 1 4096) pa (freelist s)"
  let ?s = "s\<lparr>ram := ?m, freelist := pa\<rparr>"
  have al: "page_aligned pa" and pc: "kend s \<le> pa" "pa < PHYSTOP" "pa \<noteq> 0"
    using pa(1) by (auto simp: allocatable_def)
  have "kfree pa s = Inr ?s"
    using lk al pc by (simp add: kfree_def page_aligned_def Let_def not_less not_le)
  moreover have "free_list ?m (freelist s) ps"
  proof (rule free_list_frame)
    show "free_list (ram s) (freelist s) ps" using inv by (simp add: kmem_inv_def)
    fix q assume q: "q \<in> set ps"
    then have "page_aligned q" "q \<noteq> pa" using inv pa(2) by (auto simp: kmem_inv_def allocatable_def)
    with al show "load64 ?m q = load64 (ram s) q"
      by (simp add: load64_store64_base load64_memset_page)
  qed
  then have "kmem_inv (pa # ps) ?s"
    using inv pa pc by (simp add: kmem_inv_def)
  moreover have "pgno x \<noteq> pgno pa \<longrightarrow> ?m x = ram s x" for x
    using store64_frame [OF al, of x 0] memset_frame [OF al] by simp
  ultimately show ?thesis by (intro exI [of _ ?s]) simp
qed

lemma kalloc_spec:
  assumes inv: "kmem_inv ps s" and lk: "LkKmem \<notin> held s"
  shows "\<exists>s'. held s' = held s \<and> kend s' = kend s \<and> kmem.more s' = kmem.more s \<and>
     (case ps of
        [] \<Rightarrow> kalloc s = Inr (0, s') \<and> s' = s
      | p # qs \<Rightarrow> kalloc s = Inr (p, s') \<and> kmem_inv qs s' \<and> allocatable (kend s) p \<and> p \<notin> set qs \<and>
          load_bytes (ram s') p 4096 = replicate 4096 5 \<and>
          (\<forall>x. pgno x \<noteq> pgno p \<longrightarrow> ram s' x = ram s x))"
proof (cases ps)
  case Nil
  then show ?thesis using inv lk by (simp add: kalloc_def kmem_inv_def Let_def)
next
  case (Cons p qs)
  let ?m = "memset (ram s) p 5 4096"
  let ?s = "s\<lparr>ram := ?m, freelist := load64 (ram s) p\<rparr>"
  have al: "allocatable (kend s) p" "page_aligned p" "p \<noteq> 0" and fl: "freelist s = p"
    and qs: "p \<notin> set qs" "free_list (ram s) (load64 (ram s) p) qs"
    using inv Cons by (auto simp: kmem_inv_def allocatable_def)
  have "kalloc s = Inr (p, ?s)" using lk al fl by (simp add: kalloc_def Let_def)
  moreover have "free_list ?m (load64 (ram s) p) qs"
  proof (rule free_list_frame [OF qs(2)])
    fix q assume "q \<in> set qs"
    then have "page_aligned q" "q \<noteq> p" using inv Cons qs(1) by (auto simp: kmem_inv_def allocatable_def)
    with al show "load64 ?m q = load64 (ram s) q" by (simp add: load64_memset_page)
  qed
  then have "kmem_inv qs ?s" using inv Cons by (simp add: kmem_inv_def)
  moreover have "load_bytes ?m p 4096 = replicate 4096 5"
    using load_store_bytes [of "replicate 4096 5" "ram s" p] by (simp add: memset_eq)
  moreover have "\<forall>x. pgno x \<noteq> pgno p \<longrightarrow> ?m x = ram s x"
    using memset_frame [OF al(2)] by blast
  ultimately show ?thesis using Cons al qs(1) by (intro exI [of _ ?s]) simp
qed

section \<open>The allocator interface\<close>

text \<open>
  What the clients of the allocator rely on, over the list of free pages: \<open>inv ps s\<close> says that
  the free pages are \<open>ps\<close>. Pages other than the one allocated or freed keep their bytes.
\<close>

locale page_allocator =
  fixes alloc :: "'s \<Rightarrow> (u64 \<times> 's) result"
    and free :: "u64 \<Rightarrow> 's \<Rightarrow> 's result"
    and inv :: "u64 list \<Rightarrow> 's \<Rightarrow> bool"
    and usable :: "'s \<Rightarrow> u64 \<Rightarrow> bool"
    and bytes :: "'s \<Rightarrow> mem"
  assumes alloc_none: "inv [] s \<Longrightarrow> alloc s = Inr (0, s)"
    and alloc_some: "inv (p # ps) s \<Longrightarrow> \<exists>s'. alloc s = Inr (p, s') \<and> inv ps s' \<and> usable s p \<and>
      p \<notin> set ps \<and> usable s' = usable s \<and> (\<forall>x. pgno x \<noteq> pgno p \<longrightarrow> bytes s' x = bytes s x)"
    and free_page: "inv ps s \<Longrightarrow> usable s p \<Longrightarrow> p \<notin> set ps \<Longrightarrow> \<exists>s'. free p s = Inr s' \<and> inv (p # ps) s' \<and>
      usable s' = usable s \<and> (\<forall>x. pgno x \<noteq> pgno p \<longrightarrow> bytes s' x = bytes s x)"
    and usable_nonzero: "usable s p \<Longrightarrow> p \<noteq> 0"
begin

lemma alloc_zero_iff: "inv ps s \<Longrightarrow> alloc s = Inr (p, s') \<Longrightarrow> p = 0 \<longleftrightarrow> ps = []"
proof (cases ps)
  case Nil
  assume "inv ps s" "alloc s = Inr (p, s')"
  with Nil alloc_none [of s] show ?thesis by simp
next
  case (Cons q qs)
  assume "inv ps s" "alloc s = Inr (p, s')"
  with Cons alloc_some [of q qs s] usable_nonzero show ?thesis by auto
qed

lemma alloc_free: "inv ps s \<Longrightarrow> ps \<noteq> [] \<Longrightarrow> returns (bnd (alloc s) (\<lambda>(p, s). free p s)) (inv ps)"
proof (cases ps)
  case (Cons p qs)
  assume "inv ps s"
  with Cons alloc_some [of p qs s] obtain s1 where
    s1: "alloc s = Inr (p, s1)" "inv qs s1" "usable s1 p" "p \<notin> set qs" by auto
  from free_page [OF s1(2-4)] s1(1) Cons show ?thesis by auto
qed simp

lemma free_alloc:
  assumes "inv ps s" "usable s p" "p \<notin> set ps"
  shows "returns (bnd (free p s) alloc) (\<lambda>(q, s'). q = p \<and> inv ps s')"
proof -
  from free_page [OF assms] obtain s1 where s1: "free p s = Inr s1" "inv (p # ps) s1" by blast
  from alloc_some [OF s1(2)] s1(1) show ?thesis by auto
qed

text \<open>Two pages handed out one after the other are different, whatever the client does in between.\<close>

lemma alloc_distinct:
  assumes "inv ps s" "alloc s = Inr (p, s1)" "p \<noteq> 0" and "inv (tl ps) t" "alloc t = Inr (q, s2)"
  shows "p \<noteq> q"
proof -
  from assms(1-3) alloc_zero_iff obtain qs where ps: "ps = p # qs" and "p \<notin> set qs"
    using alloc_some by (cases ps) fastforce+
  then show ?thesis
    using assms(3-5) alloc_none [of t] alloc_some [of _ _ t] by (cases qs) fastforce+
qed

end

definition free_pages :: "u64 list \<Rightarrow> 'a kmem_scheme \<Rightarrow> bool" where
  "free_pages ps s \<longleftrightarrow> kmem_inv ps s \<and> LkKmem \<notin> held s"

interpretation km: page_allocator kalloc kfree free_pages "\<lambda>s. allocatable (kend s)" ram
proof unfold_locales
  fix s :: "'a kmem_scheme"
  assume "free_pages [] s"
  then show "kalloc s = Inr (0, s)"
    using kalloc_spec [of "[]" s] by (auto simp: free_pages_def)
next
  fix p ps and s :: "'a kmem_scheme"
  assume "free_pages (p # ps) s"
  then show "\<exists>s'. kalloc s = Inr (p, s') \<and> free_pages ps s' \<and> allocatable (kend s) p \<and> p \<notin> set ps \<and>
      allocatable (kend s') = allocatable (kend s) \<and> (\<forall>x. pgno x \<noteq> pgno p \<longrightarrow> ram s' x = ram s x)"
    using kalloc_spec [of "p # ps" s] by (auto simp: free_pages_def)
next
  fix p ps and s :: "'a kmem_scheme"
  assume "free_pages ps s" "allocatable (kend s) p" "p \<notin> set ps"
  then show "\<exists>s'. kfree p s = Inr s' \<and> free_pages (p # ps) s' \<and>
      allocatable (kend s') = allocatable (kend s) \<and> (\<forall>x. pgno x \<noteq> pgno p \<longrightarrow> ram s' x = ram s x)"
    using kfree_spec [of ps s p] by (auto simp: free_pages_def)
next
  fix p and s :: "'a kmem_scheme"
  assume "allocatable (kend s) p"
  then show "p \<noteq> 0" by (simp add: allocatable_def)
qed

section \<open>Booting the allocator\<close>

definition page_range :: "u64 \<Rightarrow> u64 \<Rightarrow> u64 list" where
  "page_range p e = map (\<lambda>i. p + of_nat (4096 * i)) [0..<(unat e - unat p) div 4096]"

lemma page_range_Cons:
  assumes "unat p + 4096 \<le> unat e"
  shows "page_range p e = p # page_range (p + PGSIZE) e"
proof -
  have "unat e < 2 ^ 64" using unsigned_less [of e] by simp
  with assms have u: "unat (p + 4096) = unat p + 4096" by (simp add: unat_word_ariths)
  have "(unat e - unat p) div 4096 = Suc ((unat e - (unat p + 4096)) div 4096)"
    using assms by (simp add: div_if)
  then show ?thesis
    by (simp add: page_range_def u upt_conv_Cons map_Suc_upt [symmetric] algebra_simps del: upt_Suc)
qed

lemma page_range_Nil: "\<not> unat p + 4096 \<le> unat e \<Longrightarrow> page_range p e = []"
  by (simp add: page_range_def)

lemma freerange_from_spec:
  assumes "free_pages ps s" "page_aligned p" "kend s \<le> p" "e \<le> PHYSTOP" "\<And>q. q \<in> set ps \<Longrightarrow> q < p"
  shows "\<exists>s'. freerange_from p e s = Inr s' \<and> free_pages (rev (page_range p e) @ ps) s' \<and>
     kend s' = kend s \<and> held s' = held s"
  using assms
proof (induction p e s arbitrary: ps rule: freerange_from.induct)
  case (1 p e s)
  show ?case
  proof (cases "unat p + 4096 \<le> unat e")
    case False
    with "1.prems" show ?thesis by (simp add: freerange_from.simps page_range_Nil)
  next
    case True
    have e: "unat e \<le> unat PHYSTOP" using "1.prems"(4) by (simp add: word_le_nat_alt)
    have u: "unat (p + PGSIZE) = unat p + 4096"
      using True e by (simp add: unat_word_ariths)
    have "0 < unat (kend s)"
      using "1.prems"(1) unat_eq_0 [of "kend s"]
      by (cases "unat (kend s)") (auto simp: free_pages_def kmem_inv_def)
    then have al: "allocatable (kend s) p"
      using "1.prems"(2-4) True e
      by (auto simp: allocatable_def word_less_nat_alt word_le_nat_alt)
    have "p \<notin> set ps" using "1.prems"(5) by blast
    with kfree_spec [of ps s p] "1.prems"(1) al obtain s1 where
      s1: "kfree p s = Inr s1" "free_pages (p # ps) s1" "kend s1 = kend s" "held s1 = held s"
      by (auto simp: free_pages_def)
    have "\<exists>s'. freerange_from (p + PGSIZE) e s1 = Inr s' \<and>
        free_pages (rev (page_range (p + PGSIZE) e) @ p # ps) s' \<and> kend s' = kend s1 \<and> held s' = held s1"
    proof (rule "1.IH" [OF True s1(1,2)])
      show "page_aligned (p + PGSIZE)"
        using "1.prems"(2) u by (simp add: page_aligned_unat)
      show "kend s1 \<le> p + PGSIZE"
        using "1.prems"(3) u s1(3) by (simp add: word_le_nat_alt)
      show "q < p + PGSIZE" if "q \<in> set (p # ps)" for q
        using that "1.prems"(5) [of q] u by (cases "q = p") (auto simp: word_less_nat_alt)
    qed (use "1.prems" in auto)
    with s1 True show ?thesis
      by (simp add: freerange_from.simps [of p e s] page_range_Cons)
  qed
qed

lemma PGROUNDDOWN_eq: "PGROUNDDOWN a = push_bit 12 (drop_bit 12 a)"
proof -
  have "PGROUNDDOWN a = a AND NOT (mask 12)"
    by (simp add: PGROUNDDOWN_def mask_eq_exp_minus_1)
  also have "\<dots> = push_bit 12 (drop_bit 12 a)"
    by (rule bit_word_eqI)
       (auto simp: bit_and_iff bit_not_iff bit_mask_iff bit_push_bit_iff bit_drop_bit_eq)
  finally show ?thesis .
qed

lemma unat_PGROUND: "unat (PGROUNDDOWN a) = 4096 * (unat a div 4096)"
proof -
  have "unat (drop_bit 12 a) = unat a div 4096" using unat_pgno [of a] by (simp add: pgno_def)
  moreover have "4096 * (unat a div 4096) < 2 ^ 64"
    using unat_lt64 [of a]
    by (intro le_less_trans [OF times_div_less_eq_dividend]) simp
  ultimately show ?thesis
    by (simp add: PGROUNDDOWN_eq push_bit_eq_mult unat_word_ariths mult.commute del: drop_bit_eq_div)
qed

lemma page_aligned_PGROUNDDOWN [simp]: "page_aligned (PGROUNDDOWN a)"
  by (simp add: page_aligned_unat unat_PGROUND)

lemma PGROUNDUP_eq: "PGROUNDUP a = PGROUNDDOWN (a + PGSIZE - 1)"
  by (simp add: PGROUNDUP_def PGROUNDDOWN_def)

lemma page_aligned_PGROUNDUP [simp]: "page_aligned (PGROUNDUP a)"
  by (simp add: PGROUNDUP_eq)

lemma unat_PGROUNDUP:
  assumes "unat a + 4095 < 2 ^ 64"
  shows "unat (PGROUNDUP a) = 4096 * ((unat a + 4095) div 4096)"
proof -
  have "unat (a + PGSIZE - 1) = unat a + 4095"
    using assms unat_run [of a 4095 4095] by (simp add: add.commute)
  then show ?thesis by (simp add: PGROUNDUP_eq unat_PGROUND)
qed

lemma PGROUNDUP_ge: "unat a + 4095 < 2 ^ 64 \<Longrightarrow> a \<le> PGROUNDUP a"
  by (simp add: word_le_nat_alt unat_PGROUNDUP)

section \<open>Properties\<close>

text \<open>
  C6. The page allocator implements the stack of free pages: \<open>kfree\<close> of a page of the
  managed range that is not free pushes it, \<open>kalloc\<close> pops, returning 0 exactly when no page
  is free; a page handed out is page aligned, inside the managed range, filled with the
  byte 5 and no longer free, and neither call changes a byte of any other page or the set
  of held locks.
\<close>

theorem kalloc_kfree_stack:
  assumes "free_pages ps s"
  shows "(case ps of [] \<Rightarrow> kalloc s = Inr (0, s)
     | p # qs \<Rightarrow> \<exists>s'. kalloc s = Inr (p, s') \<and> free_pages qs s' \<and> allocatable (kend s) p \<and> p \<notin> set qs \<and>
         load_bytes (ram s') p 4096 = replicate 4096 5 \<and>
         (\<forall>x. pgno x \<noteq> pgno p \<longrightarrow> ram s' x = ram s x) \<and> held s' = held s) \<and>
   (\<forall>p. allocatable (kend s) p \<and> p \<notin> set ps \<longrightarrow>
      (\<exists>s'. kfree p s = Inr s' \<and> free_pages (p # ps) s' \<and>
         (\<forall>x. pgno x \<noteq> pgno p \<longrightarrow> ram s' x = ram s x) \<and> held s' = held s)) \<and>
   (\<forall>p. \<not> page_aligned p \<or> p < kend s \<or> PHYSTOP \<le> p \<longrightarrow> kfree p s = Inl (Panic ''kfree''))"
proof (intro conjI)
  show "case ps of [] \<Rightarrow> kalloc s = Inr (0, s)
     | p # qs \<Rightarrow> \<exists>s'. kalloc s = Inr (p, s') \<and> free_pages qs s' \<and> allocatable (kend s) p \<and> p \<notin> set qs \<and>
         load_bytes (ram s') p 4096 = replicate 4096 5 \<and>
         (\<forall>x. pgno x \<noteq> pgno p \<longrightarrow> ram s' x = ram s x) \<and> held s' = held s"
    using kalloc_spec [of ps s] assms by (auto simp: free_pages_def split: list.splits)
  show "\<forall>p. allocatable (kend s) p \<and> p \<notin> set ps \<longrightarrow>
      (\<exists>s'. kfree p s = Inr s' \<and> free_pages (p # ps) s' \<and>
         (\<forall>x. pgno x \<noteq> pgno p \<longrightarrow> ram s' x = ram s x) \<and> held s' = held s)"
    using kfree_spec [of ps s] assms by (fastforce simp: free_pages_def)
  show "\<forall>p. \<not> page_aligned p \<or> p < kend s \<or> PHYSTOP \<le> p \<longrightarrow> kfree p s = Inl (Panic ''kfree'')"
    by (simp add: kfree_def page_aligned_def)
qed

definition kmem_example :: kmem where
  "kmem_example = \<lparr>held = {}, ram = (\<lambda>_. 0), freelist = 0, kend = 0x80021000\<rparr>"

lemma kmem_example_free: "free_pages [] kmem_example"
  by (simp add: free_pages_def kmem_inv_def kmem_example_def)

theorem kalloc_kfree_stack_witness:
  "kalloc kmem_example = Inr (0, kmem_example) \<and>
   (\<exists>s'. kfree 0x80022000 kmem_example = Inr s' \<and> free_pages [0x80022000] s')"
proof -
  have "allocatable (kend kmem_example) 0x80022000"
    by (simp add: allocatable_def kmem_example_def page_aligned_def)
  with kalloc_kfree_stack [OF kmem_example_free] show ?thesis by auto
qed

text \<open>
  C7. Booting: \<open>kinit\<close> returns with exactly the whole pages between the end of the kernel
  and the top of memory free, each once.
\<close>

theorem kinit_frees_memory:
  assumes "free_pages [] s" and "unat (kend s) \<le> unat PHYSTOP"
  shows "\<exists>s'. kinit s = Inr s' \<and> free_pages (rev (page_range (PGROUNDUP (kend s)) PHYSTOP)) s' \<and>
    (\<forall>p. p \<in> set (page_range (PGROUNDUP (kend s)) PHYSTOP) \<longleftrightarrow>
       page_aligned p \<and> kend s \<le> p \<and> unat p + 4096 \<le> unat PHYSTOP)"
proof -
  let ?b = "PGROUNDUP (kend s)"
  have lt: "unat (kend s) + 4095 < 2 ^ 64" using assms(2) by simp
  have b: "unat ?b = 4096 * ((unat (kend s) + 4095) div 4096)" using lt by (rule unat_PGROUNDUP)
  have "p \<in> set (page_range ?b PHYSTOP) \<longleftrightarrow> page_aligned p \<and> kend s \<le> p \<and> unat p + 4096 \<le> unat PHYSTOP"
    (is "_ \<longleftrightarrow> ?R") for p
  proof
    assume "p \<in> set (page_range ?b PHYSTOP)"
    then obtain i where i: "p = ?b + of_nat (4096 * i)" "i < (unat PHYSTOP - unat ?b) div 4096"
      by (auto simp: page_range_def simp del: of_nat_mult)
    then have "unat ?b + 4096 * i + 4096 \<le> unat PHYSTOP" by simp
    moreover from this have "unat p = unat ?b + 4096 * i"
      using i(1) unat_run [of ?b "4096 * i" "4096 * i"] by (simp del: of_nat_mult)
    ultimately show ?R using b by (simp add: page_aligned_unat word_le_nat_alt)
  next
    assume R: ?R
    then obtain q where q: "unat p = 4096 * q" by (auto simp: page_aligned_unat)
    with R have "unat (kend s) \<le> 4096 * q" by (simp add: word_le_nat_alt)
    then have "(unat (kend s) + 4095) div 4096 \<le> q" by linarith
    then obtain i where "q = (unat (kend s) + 4095) div 4096 + i" by (auto simp: le_iff_add)
    with b q have i: "unat p = unat ?b + 4096 * i" by simp
    then have "p = ?b + of_nat (4096 * i)"
      using R unat_run [of ?b "4096 * i" "4096 * i"] by (simp add: word_unat_eq_iff del: of_nat_mult)
    moreover from R have "unat p + 4096 \<le> unat PHYSTOP" by blast
    with i have "4096 * (i + 1) + unat ?b \<le> unat PHYSTOP" by simp
    then have "4096 * (i + 1) \<le> unat PHYSTOP - unat ?b" by (rule add_le_imp_le_diff)
    then have "i < (unat PHYSTOP - unat ?b) div 4096"
      by (simp only: less_eq_div_iff_mult_less_eq [of 4096] Suc_eq_plus1 [symmetric] Suc_le_eq [symmetric] mult.commute)
    ultimately show "p \<in> set (page_range ?b PHYSTOP)"
      using \<open>i < _\<close> by (auto simp: page_range_def simp del: of_nat_mult)
  qed
  moreover have "\<exists>s'. kinit s = Inr s' \<and> free_pages (rev (page_range ?b PHYSTOP) @ []) s' \<and>
      kend s' = kend s \<and> held s' = held s"
    unfolding kinit_def freerange_def
    by (rule freerange_from_spec [OF assms(1)]) (use lt in \<open>auto intro: PGROUNDUP_ge\<close>)
  ultimately show ?thesis by auto
qed

theorem kinit_frees_memory_witness:
  "\<exists>s'. kinit kmem_example = Inr s' \<and>
     free_pages (rev (page_range (PGROUNDUP (kend kmem_example)) PHYSTOP)) s'"
  using kinit_frees_memory [OF kmem_example_free] by (auto simp: kmem_example_def)

end
