(* ===== verification/Pagetable.thy ===== *)
theory Pagetable
  imports Kalloc
begin

unbundle bit_operations_syntax

text \<open>
  The Sv39 page tables of kernel/vm.c, in physical memory: \<open>walk\<close> reads and writes 64-bit
  PTEs of 4096-byte tables that \<open>kalloc\<close> provides; \<open>mappages\<close> and \<open>uvmunmap\<close> install and
  remove leaf entries. The invariant says that the tables form a tree of distinct pages, none
  of them free; the abstraction \<open>pte_of\<close> reads a table as a map from addresses to PTEs.
\<close>

section \<open>Page-table entries (kernel/riscv.h)\<close>

abbreviation (input) PTE_V :: u64 where "PTE_V \<equiv> 1"
abbreviation (input) PTE_R :: u64 where "PTE_R \<equiv> 2"
abbreviation (input) PTE_W :: u64 where "PTE_W \<equiv> 4"
abbreviation (input) PTE_X :: u64 where "PTE_X \<equiv> 8"
abbreviation (input) PTE_U :: u64 where "PTE_U \<equiv> 16"
abbreviation (input) MAXVA :: u64 where "MAXVA \<equiv> 0x4000000000"
abbreviation (input) TRAMPOLINE :: u64 where "TRAMPOLINE \<equiv> MAXVA - 0x1000"
abbreviation (input) TRAPFRAME :: u64 where "TRAPFRAME \<equiv> MAXVA - 0x2000"

definition PA2PTE :: "u64 \<Rightarrow> u64" where
  "PA2PTE pa = push_bit 10 (drop_bit 12 pa)"

definition PTE2PA :: "u64 \<Rightarrow> u64" where
  "PTE2PA pte = push_bit 12 (drop_bit 10 pte)"

definition PTE_FLAGS :: "u64 \<Rightarrow> u64" where
  "PTE_FLAGS pte = pte AND 0x3FF"

definition PX :: "nat \<Rightarrow> u64 \<Rightarrow> nat" where
  "PX level va = unat (drop_bit (12 + 9 * level) va AND 0x1FF)"

text \<open>The address of entry \<open>i\<close> of a table, \<open>&pagetable[i]\<close>.\<close>

definition pte_at :: "u64 \<Rightarrow> nat \<Rightarrow> u64" where
  "pte_at pagetable i = pagetable + of_nat (8 * i)"

section \<open>Walking and mapping\<close>

text \<open>One iteration of the loop of \<open>walk\<close>: the next table, or \<open>None\<close> where it returns 0.\<close>

definition walk_step ::
  "nat \<Rightarrow> u64 \<Rightarrow> bool \<Rightarrow> u64 \<Rightarrow> 'a kmem_scheme \<Rightarrow> (u64 option \<times> 'a kmem_scheme) result" where
  "walk_step level va alloc pagetable s =
     (let pte = pte_at pagetable (PX level va) in
      if load64 (ram s) pte AND PTE_V \<noteq> 0 then Inr (Some (PTE2PA (load64 (ram s) pte)), s)
      else if \<not> alloc then Inr (None, s)
      else bnd (kalloc s) (\<lambda>(pt, s).
        if pt = 0 then Inr (None, s)
        else let s = s\<lparr>ram := memset (ram s) pt 0 4096\<rparr>;
                 s = s\<lparr>ram := store64 (ram s) pte (PA2PTE pt OR PTE_V)\<rparr>
             in Inr (Some pt, s)))"

fun walk_from ::
  "nat \<Rightarrow> u64 \<Rightarrow> bool \<Rightarrow> u64 \<Rightarrow> 'a kmem_scheme \<Rightarrow> (u64 \<times> 'a kmem_scheme) result" where
  "walk_from 0 va alloc pagetable s = Inr (pte_at pagetable (PX 0 va), s)"
| "walk_from (Suc l) va alloc pagetable s =
     bnd (walk_step (Suc l) va alloc pagetable s) (\<lambda>(next, s).
       case next of None \<Rightarrow> Inr (0, s) | Some pt \<Rightarrow> walk_from l va alloc pt s)"

definition walk ::
  "u64 \<Rightarrow> u64 \<Rightarrow> bool \<Rightarrow> 'a kmem_scheme \<Rightarrow> (u64 \<times> 'a kmem_scheme) result" where
  "walk pagetable va alloc s =
     (if va \<ge> MAXVA then Inl (Panic ''walk'') else walk_from 2 va alloc pagetable s)"

definition walkaddr :: "u64 \<Rightarrow> u64 \<Rightarrow> 'a kmem_scheme \<Rightarrow> u64 result" where
  "walkaddr pagetable va s =
     (if va \<ge> MAXVA then Inr 0
      else bnd (walk pagetable va False s) (\<lambda>(pte, s).
        if pte = 0 then Inr 0
        else if load64 (ram s) pte AND PTE_V = 0 then Inr 0
        else if load64 (ram s) pte AND PTE_U = 0 then Inr 0
        else Inr (PTE2PA (load64 (ram s) pte))))"

lemma walk_MAXVA: "walk pagetable va alloc s = Inr r \<Longrightarrow> va < MAXVA"
  by (auto simp: walk_def not_le split: if_splits)

lemma unat_below_MAXVA: "a < MAXVA \<Longrightarrow> unat (a + PGSIZE) = unat a + 4096"
  by (rule unat_run [of a 4096 4096, simplified]) (simp add: word_less_nat_alt)

text \<open>
  \<open>mappages\<close> and \<open>uvmunmap\<close> run until they reach the final page; they cannot run away
  because \<open>walk\<close> panics beyond \<open>MAXVA\<close>, which is what their termination rests on.
\<close>

function mappages_from ::
  "u64 \<Rightarrow> u64 \<Rightarrow> u64 \<Rightarrow> u64 \<Rightarrow> u64 \<Rightarrow> 'a kmem_scheme \<Rightarrow> (int \<times> 'a kmem_scheme) result" where
  "mappages_from pagetable a final pa perm s =
     bnd (walk pagetable a True s) (\<lambda>(pte, s).
       if pte = 0 then Inr (-1, s)
       else if load64 (ram s) pte AND PTE_V \<noteq> 0 then Inl (Panic ''remap'')
       else let s = s\<lparr>ram := store64 (ram s) pte (PA2PTE pa OR perm OR PTE_V)\<rparr> in
         if a = final then Inr (0, s)
         else mappages_from pagetable (a + PGSIZE) final (pa + PGSIZE) perm s)"
  by pat_completeness auto
termination
proof (relation "measure (\<lambda>(_, a, _). 2 ^ 39 - unat a)", goal_cases)
  case (2 pagetable a final pa perm s x pte s1 s2)
  then have "a < MAXVA" by (auto dest: walk_MAXVA)
  then show ?case using unat_below_MAXVA [of a] by (simp add: word_less_nat_alt)
qed simp

declare mappages_from.simps [simp del]

definition mappages ::
  "u64 \<Rightarrow> u64 \<Rightarrow> u64 \<Rightarrow> u64 \<Rightarrow> u64 \<Rightarrow> 'a kmem_scheme \<Rightarrow> (int \<times> 'a kmem_scheme) result" where
  "mappages pagetable va sz pa perm s =
     mappages_from pagetable (PGROUNDDOWN va) (PGROUNDDOWN (va + sz - 1)) pa perm s"

function uvmunmap_from ::
  "u64 \<Rightarrow> u64 \<Rightarrow> u64 \<Rightarrow> bool \<Rightarrow> 'a kmem_scheme \<Rightarrow> 'a kmem_scheme result" where
  "uvmunmap_from pagetable a final do_free s =
     bnd (walk pagetable a False s) (\<lambda>(pte, s).
       if pte = 0 then Inl (Panic ''uvmunmap: walk'')
       else if load64 (ram s) pte AND PTE_V = 0 then Inl (Panic ''uvmunmap: not mapped'')
       else if PTE_FLAGS (load64 (ram s) pte) = PTE_V then Inl (Panic ''uvmunmap: not a leaf'')
       else bnd (if do_free then kfree (PTE2PA (load64 (ram s) pte)) s else Inr s) (\<lambda>s.
         let s = s\<lparr>ram := store64 (ram s) pte 0\<rparr> in
         if a = final then Inr s
         else uvmunmap_from pagetable (a + PGSIZE) final do_free s))"
  by pat_completeness auto
termination
proof (relation "measure (\<lambda>(_, a, _). 2 ^ 39 - unat a)", goal_cases)
  case (2 pagetable a final do_free s x pte s1 s2 s3)
  then have "a < MAXVA" by (auto dest: walk_MAXVA)
  then show ?case using unat_below_MAXVA [of a] by (simp add: word_less_nat_alt)
qed simp

declare uvmunmap_from.simps [simp del]

definition uvmunmap :: "u64 \<Rightarrow> u64 \<Rightarrow> u64 \<Rightarrow> bool \<Rightarrow> 'a kmem_scheme \<Rightarrow> 'a kmem_scheme result" where
  "uvmunmap pagetable va sz do_free s =
     uvmunmap_from pagetable (PGROUNDDOWN va) (PGROUNDDOWN (va + sz - 1)) do_free s"

section \<open>Lemmas on entries\<close>

lemma PX_eq: "PX level va = unat va div 2 ^ (12 + 9 * level) mod 512"
proof -
  have "drop_bit (12 + 9 * level) va AND 0x1FF = take_bit 9 (drop_bit (12 + 9 * level) va)"
    using take_bit_eq_mask [of 9 "drop_bit (12 + 9 * level) va"] by (simp add: mask_eq_exp_minus_1)
  then have "PX level va = take_bit 9 (drop_bit (12 + 9 * level) (unat va))"
    by (simp only: PX_def unsigned_take_bit_eq unat_drop_bit_eq)
  then show ?thesis by (simp add: take_bit_eq_mod drop_bit_eq_div)
qed

lemma PX_less [simp]: "PX level va < 512"
  by (simp add: PX_eq)

text \<open>Below \<open>MAXVA\<close> the three indices determine the page.\<close>

lemma PX_inj:
  assumes "a < MAXVA" "b < MAXVA" "PX 2 a = PX 2 b" "PX 1 a = PX 1 b" "PX 0 a = PX 0 b"
  shows "pgno a = pgno b"
proof -
  have split: "unat v div 4096 = PX 0 v + 512 * PX 1 v + 262144 * PX 2 v" if "v < MAXVA" for v :: u64
  proof -
    define n where "n = unat v div 4096"
    have "unat v < 274877906944" using that by (simp add: word_less_nat_alt)
    then have "n < 134217728" by (simp add: n_def div_less_iff_less_mult)
    then have "n div 262144 mod 512 = n div 262144" by (simp add: div_less_iff_less_mult)
    moreover have "n = n mod 512 + 512 * (n div 512 mod 512) + 262144 * (n div 262144)"
    proof -
      have "n div 262144 = n div 512 div 512" using div_mult2_eq [of n 512 512] by simp
      with mult_div_mod_eq [of 512 n] mult_div_mod_eq [of 512 "n div 512"] show ?thesis by linarith
    qed
    ultimately have "n = n mod 512 + 512 * (n div 512 mod 512) + 262144 * (n div 262144 mod 512)"
      by simp
    moreover have "PX 0 v = n mod 512" "PX 1 v = n div 512 mod 512" "PX 2 v = n div 262144 mod 512"
      by (simp_all add: PX_eq n_def flip: div_mult2_eq)
    ultimately show ?thesis unfolding n_def [symmetric] by linarith
  qed
  show ?thesis using assms by (simp add: word_unat_eq_iff unat_pgno split)
qed

lemma PTE2PA_PA2PTE:
  assumes "page_aligned pa" "f AND 0x3FF = f"
  shows "PTE2PA (PA2PTE pa OR f) = pa"
proof (rule bit_eqI)
  fix n :: nat assume "possible_bit TYPE(64 word) n"
  have "pa = push_bit 12 (drop_bit 12 pa)"
    using assms(1) PGROUNDDOWN_eq [of pa] unat_PGROUND [of pa] 
    by (auto simp: page_aligned_unat word_unat_eq_iff)
  then have lo: "\<not> bit pa n" if "n < 12" 
    using that by (metis bit_push_bit_iff not_le)
  have hi: "\<not> bit f k" if "10 \<le> k" for k
  proof -
    have "(0x3FF :: u64) = mask 10" by (simp add: mask_eq_exp_minus_1)
    with assms(2) have "f = f AND mask 10" by simp
    then show ?thesis using that by (metis bit_and_iff bit_mask_iff not_le)
  qed
  show "bit (PTE2PA (PA2PTE pa OR f)) n = bit pa n"
    using \<open>possible_bit _ n\<close> lo hi
    by (cases "n < 12")
      (auto simp: PTE2PA_def PA2PTE_def bit_push_bit_iff bit_drop_bit_eq bit_or_iff bit_simps)
qed

lemma PA2PTE_OR_AND:
  assumes "f AND 0x3FF = f" "k AND 0x3FF = k"
  shows "(PA2PTE pa OR f) AND k = f AND k"
proof (rule bit_eqI)
  fix n :: nat assume "possible_bit TYPE(64 word) n"
  have "(0x3FF :: u64) = mask 10" by (simp add: mask_eq_exp_minus_1)
  with assms(2) have "k = k AND mask 10" by simp
  then have "bit k n \<Longrightarrow> n < 10" by (metis bit_and_iff bit_mask_iff)
  then show "bit ((PA2PTE pa OR f) AND k) n = bit (f AND k) n"
    by (auto simp: PA2PTE_def bit_push_bit_iff bit_and_iff bit_or_iff)
qed

lemma load64_pte_store:
  assumes "page_aligned p" "page_aligned q" "i < 512" "j < 512"
  shows "load64 (store64 m (pte_at q j) w) (pte_at p i) =
    (if p = q \<and> i = j then w else load64 m (pte_at p i))"
  using assms load64_store64_page [of p q i j m w] load64_store64_index [of i j m p w]
  by (auto simp: pte_at_def)

lemma pgno_pte_at: "page_aligned p \<Longrightarrow> i < 512 \<Longrightarrow> k < 8 \<Longrightarrow> pgno (pte_at p i + of_nat k) = pgno p"
  using pgno_aligned_offset [of p "8 * i + k"] by (simp add: pte_at_def add.assoc)

lemma pte_at_nonzero:
  assumes "page_aligned p" "p \<noteq> 0" "i < 512" shows "pte_at p i \<noteq> 0"
proof
  assume "pte_at p i = 0"
  then have "unat (pte_at p i) = 0" by simp
  moreover have "unat (pte_at p i) = unat p + 8 * i"
    using assms pgno_aligned_offset(2) [of p "8 * i"] by (simp add: pte_at_def)
  ultimately show False using assms(2) by (simp add: unat_eq_0)
qed

lemma load64_pte_frame:
  assumes "page_aligned p" "i < 512" "\<And>x. pgno x = pgno p \<Longrightarrow> m' x = m x"
  shows "load64 m' (pte_at p i) = load64 m (pte_at p i)"
  by (rule load64_cong) (simp add: assms pgno_pte_at)

lemma load64_pte_memset:
  assumes "page_aligned p" "i < 512"
  shows "load64 (memset m p 0 4096) (pte_at p i) = 0"
proof -
  have "memset m p 0 4096 (pte_at p i + of_nat k) = 0" if "k < 8" for k
  proof -
    have "unat (pte_at p i + of_nat k - p) = 8 * i + k"
      using that assms(2) by (simp add: pte_at_def unat_of_nat flip: of_nat_add of_nat_mult)
    then show ?thesis using that assms(2) by (simp add: memset_eq store_bytes_def)
  qed
  then have "load64 (memset m p 0 4096) (pte_at p i) = load64 (\<lambda>_. 0) (pte_at p i)"
    by (intro load64_cong) simp
  also have "\<dots> = 0" by (simp add: load64_def load_bytes_def numeral_eq_Suc)
  finally show ?thesis .
qed

section \<open>The tree of tables\<close>

definition entry :: "mem \<Rightarrow> u64 \<Rightarrow> nat \<Rightarrow> u64 option" where
  "entry m p i = (let pte = load64 m (pte_at p i) in
     if pte AND PTE_V \<noteq> 0 then Some (PTE2PA pte) else None)"

fun node :: "mem \<Rightarrow> u64 \<Rightarrow> nat list \<Rightarrow> u64 option" where
  "node m p [] = Some p"
| "node m p (i # path) = (case entry m p i of None \<Rightarrow> None | Some q \<Rightarrow> node m q path)"

definition good_path :: "nat list \<Rightarrow> bool" where
  "good_path path \<longleftrightarrow> length path \<le> 2 \<and> (\<forall>i\<in>set path. i < 512)"

definition tables :: "mem \<Rightarrow> u64 \<Rightarrow> u64 set" where
  "tables m pt = {p. \<exists>path. good_path path \<and> node m pt path = Some p}"

definition pt_wf :: "mem \<Rightarrow> u64 \<Rightarrow> bool" where
  "pt_wf m pt \<longleftrightarrow> (\<forall>p\<in>tables m pt. page_aligned p \<and> p \<noteq> 0) \<and>
     (\<forall>xs ys p. good_path xs \<longrightarrow> good_path ys \<longrightarrow> node m pt xs = Some p \<longrightarrow> node m pt ys = Some p \<longrightarrow> xs = ys) \<and>
     (\<forall>xs i p. good_path (xs @ [i]) \<longrightarrow> node m pt xs = Some p \<longrightarrow>
        load64 m (pte_at p i) AND PTE_V \<noteq> 0 \<longrightarrow> load64 m (pte_at p i) AND (PTE_R OR PTE_W OR PTE_X) = 0)"

text \<open>The PTE that translates \<open>va\<close>, 0 where there is no table for it.\<close>

definition pte_of :: "mem \<Rightarrow> u64 \<Rightarrow> u64 \<Rightarrow> u64" where
  "pte_of m pt va = (case node m pt [PX 2 va, PX 1 va] of
     None \<Rightarrow> 0 | Some p \<Rightarrow> load64 m (pte_at p (PX 0 va)))"

lemma good_path_snoc: "good_path (xs @ [i]) \<Longrightarrow> good_path xs \<and> i < 512"
  by (auto simp: good_path_def)

lemma good_path_PX [simp]: "good_path []" "good_path [PX l va]" "good_path [PX l va, PX k va]"
  by (simp_all add: good_path_def)

lemma node_snoc:
  "node m p (path @ [i]) = (case node m p path of None \<Rightarrow> None | Some q \<Rightarrow> entry m q i)"
  by (induction path arbitrary: p) (auto split: option.splits)

lemma tablesI: "good_path path \<Longrightarrow> node m pt path = Some p \<Longrightarrow> p \<in> tables m pt"
  by (auto simp: tables_def)

lemma tables_root [simp]: "pt \<in> tables m pt"
  by (rule tablesI [of "[]"]) simp_all

lemma pt_wfD:
  assumes "pt_wf m pt"
  shows "p \<in> tables m pt \<Longrightarrow> page_aligned p" and "p \<in> tables m pt \<Longrightarrow> p \<noteq> 0"
    and "good_path xs \<Longrightarrow> good_path ys \<Longrightarrow> node m pt xs = Some p \<Longrightarrow> node m pt ys = Some p \<Longrightarrow> xs = ys"
    and "good_path (xs @ [i]) \<Longrightarrow> node m pt xs = Some p \<Longrightarrow> load64 m (pte_at p i) AND PTE_V \<noteq> 0 \<Longrightarrow>
      load64 m (pte_at p i) AND (PTE_R OR PTE_W OR PTE_X) = 0"
  using assms unfolding pt_wf_def by blast+

lemma pt_wfI:
  assumes "\<And>p. p \<in> tables m pt \<Longrightarrow> page_aligned p \<and> p \<noteq> 0"
    and "\<And>xs ys p. good_path xs \<Longrightarrow> good_path ys \<Longrightarrow> node m pt xs = Some p \<Longrightarrow> node m pt ys = Some p \<Longrightarrow> xs = ys"
    and "\<And>xs i p. good_path (xs @ [i]) \<Longrightarrow> node m pt xs = Some p \<Longrightarrow> load64 m (pte_at p i) AND PTE_V \<noteq> 0 \<Longrightarrow>
      load64 m (pte_at p i) AND (PTE_R OR PTE_W OR PTE_X) = 0"
  shows "pt_wf m pt"
  using assms unfolding pt_wf_def by blast

subsection \<open>Memory that keeps the tables\<close>

lemma entry_cong: "load64 m' (pte_at p i) = load64 m (pte_at p i) \<Longrightarrow> entry m' p i = entry m p i"
  by (simp add: entry_def)

text \<open>Only the entries of interior tables determine the tree.\<close>

lemma node_cong:
  assumes "\<And>xs i p. good_path (xs @ [i]) \<Longrightarrow> node m pt xs = Some p \<Longrightarrow>
      load64 m' (pte_at p i) = load64 m (pte_at p i)"
  shows "good_path path \<Longrightarrow> node m' pt path = node m pt path"
proof (induction path rule: rev_induct)
  case (snoc i path)
  with good_path_snoc have IH: "node m' pt path = node m pt path" by blast
  show ?case
  proof (cases "node m pt path")
    case (Some p)
    with assms snoc.prems have "entry m' p i = entry m p i" by (intro entry_cong)
    with Some IH show ?thesis by (simp add: node_snoc)
  qed (simp add: node_snoc IH)
qed simp

lemma pt_wf_cong:
  assumes wf: "pt_wf m pt" and eq: "\<And>xs i p. good_path (xs @ [i]) \<Longrightarrow> node m pt xs = Some p \<Longrightarrow>
      load64 m' (pte_at p i) = load64 m (pte_at p i)"
  shows "pt_wf m' pt" and "tables m' pt = tables m pt"
proof -
  have n: "good_path path \<Longrightarrow> node m' pt path = node m pt path" for path
    using eq by (rule node_cong)
  then show t: "tables m' pt = tables m pt" by (auto simp: tables_def)
  show "pt_wf m' pt"
  proof (rule pt_wfI)
    fix xs i p assume *: "good_path (xs @ [i])" "node m' pt xs = Some p"
      "load64 m' (pte_at p i) AND PTE_V \<noteq> 0"
    with good_path_snoc n have "node m pt xs = Some p" by metis
    with * eq [of xs i p] pt_wfD(4) [OF wf, of xs i p]
    show "load64 m' (pte_at p i) AND (PTE_R OR PTE_W OR PTE_X) = 0" by simp
  qed (use wf t n pt_wfD in metis)+
qed

text \<open>Memory outside the tables is irrelevant to them.\<close>

lemma pt_frame:
  assumes wf: "pt_wf m pt" and eq: "\<And>x p. p \<in> tables m pt \<Longrightarrow> pgno x = pgno p \<Longrightarrow> m' x = m x"
  shows "pt_wf m' pt" and "tables m' pt = tables m pt" and "pte_of m' pt va = pte_of m pt va"
    and "good_path path \<Longrightarrow> node m' pt path = node m pt path"
proof -
  have l: "load64 m' (pte_at p i) = load64 m (pte_at p i)" if "p \<in> tables m pt" "i < 512" for p i
    using that pt_wfD(1) [OF wf] eq by (intro load64_pte_frame) auto
  have c: "load64 m' (pte_at p i) = load64 m (pte_at p i)"
    if "good_path (xs @ [i])" "node m pt xs = Some p" for xs i p
    using that good_path_snoc [of xs i] tablesI [of xs m pt p] l by blast
  show "pt_wf m' pt" using wf c by (rule pt_wf_cong)
  show "tables m' pt = tables m pt" using wf c by (rule pt_wf_cong)
  show n: "good_path path \<Longrightarrow> node m' pt path = node m pt path" for path
    using c by (rule node_cong)
  show "pte_of m' pt va = pte_of m pt va"
    using n [of "[PX 2 va, PX 1 va]"] l [OF tablesI, of "[PX 2 va, PX 1 va]" _ "PX 0 va"]
    by (auto simp: pte_of_def simp del: node.simps split: option.splits)
qed

subsection \<open>Storing a leaf entry\<close>

lemma leaf_store:
  fixes w :: u64
  assumes wf: "pt_wf m pt" and va: "node m pt [PX 2 va, PX 1 va] = Some p"
  defines "m' \<equiv> store64 m (pte_at p (PX 0 va)) w"
  shows "pt_wf m' pt" and "tables m' pt = tables m pt"
    and "good_path path \<Longrightarrow> node m' pt path = node m pt path"
    and "pte_of m' pt va = w"
    and "va' < MAXVA \<Longrightarrow> va < MAXVA \<Longrightarrow> pgno va' \<noteq> pgno va \<Longrightarrow> pte_of m' pt va' = pte_of m pt va'"
    and "pgno x \<noteq> pgno p \<Longrightarrow> m' x = m x"
proof -
  have p: "p \<in> tables m pt" using va by (rule tablesI [rotated]) simp
  have l: "load64 m' (pte_at q i) = (if q = p \<and> i = PX 0 va then w else load64 m (pte_at q i))"
    if "q \<in> tables m pt" "i < 512" for q i
    using that p pt_wfD(1) [OF wf] by (auto simp: m'_def load64_pte_store)
  have c: "load64 m' (pte_at q i) = load64 m (pte_at q i)"
    if "good_path (xs @ [i])" "node m pt xs = Some q" for xs i q
  proof -
    have "q \<noteq> p"
    proof
      assume "q = p"
      with that va pt_wfD(3) [OF wf, of xs "[PX 2 va, PX 1 va]" p] good_path_snoc
      have "xs = [PX 2 va, PX 1 va]" by auto
      with that show False by (simp add: good_path_def)
    qed
    with that l good_path_snoc tablesI show ?thesis by metis
  qed
  show "pt_wf m' pt" using wf c by (rule pt_wf_cong)
  show "tables m' pt = tables m pt" using wf c by (rule pt_wf_cong)
  show n: "good_path path \<Longrightarrow> node m' pt path = node m pt path" for path
    using c by (rule node_cong)
  show "pte_of m' pt va = w"
    using va l [OF p, of "PX 0 va"] n [of "[PX 2 va, PX 1 va]"] by (simp add: pte_of_def del: node.simps)
  show "pte_of m' pt va' = pte_of m pt va'" if "va' < MAXVA" "va < MAXVA" "pgno va' \<noteq> pgno va"
  proof (cases "node m pt [PX 2 va', PX 1 va']")
    case None
    with n [of "[PX 2 va', PX 1 va']"] show ?thesis by (simp add: pte_of_def del: node.simps)
  next
    case (Some q)
    have "\<not> (q = p \<and> PX 0 va' = PX 0 va)"
    proof
      assume *: "q = p \<and> PX 0 va' = PX 0 va"
      with Some va pt_wfD(3) [OF wf, of "[PX 2 va', PX 1 va']" "[PX 2 va, PX 1 va]" p]
      have "PX 2 va' = PX 2 va" "PX 1 va' = PX 1 va" by simp_all
      with * that PX_inj [of va' va] show False by simp
    qed
    with Some n [of "[PX 2 va', PX 1 va']"] l [of q "PX 0 va'"] tablesI [OF _ Some]
    show ?thesis by (simp add: pte_of_def del: node.simps)
  qed
  show "m' x = m x" if "pgno x \<noteq> pgno p"
    using store64_frame [of p x "PX 0 va" m w] that p pt_wfD(1) [OF wf]
    by (simp add: m'_def pte_at_def)
qed

subsection \<open>Linking a fresh table\<close>

lemma link_table:
  assumes wf: "pt_wf m pt" and path: "good_path (path @ [i])" "node m pt path = Some p" "entry m p i = None"
    and q: "page_aligned q" "q \<noteq> 0" "q \<notin> tables m pt"
    and old: "\<And>t j. t \<in> tables m pt \<Longrightarrow> j < 512 \<Longrightarrow>
      load64 m' (pte_at t j) = (if t = p \<and> j = i then PA2PTE q OR PTE_V else load64 m (pte_at t j))"
    and new: "\<And>j. j < 512 \<Longrightarrow> load64 m' (pte_at q j) = 0"
  shows "good_path xs \<Longrightarrow> node m' pt xs = (if xs = path @ [i] then Some q else node m pt xs)" (is "_ \<Longrightarrow> ?n xs")
    and "pt_wf m' pt" and "tables m' pt = insert q (tables m pt)" and "pte_of m' pt va = pte_of m pt va"
proof -
  note gp = good_path_snoc [OF path(1)]
  have p: "p \<in> tables m pt" using gp path(2) tablesI by blast
  have eq: "entry m' q j = None" if "j < 512" for j using new [OF that] by (simp add: entry_def)
  have et: "entry m' t j = (if t = p \<and> j = i then Some q else entry m t j)" if "t \<in> tables m pt" "j < 512" for t j
    using old [OF that] PTE2PA_PA2PTE [of q 1] PA2PTE_OR_AND [of 1 1 q] q(1) by (simp add: entry_def Let_def)
  have N: "?n xs" if "good_path xs" for xs
    using that
  proof (induction xs rule: rev_induct)
    case (snoc j xs)
    note g = good_path_snoc [OF snoc.prems]
    from snoc.IH g have IH: "?n xs" by blast
    show ?case
    proof (cases "xs = path @ [i]")
      case True
      have "node m pt ((path @ [i]) @ [j]) = None"
        using path unfolding node_snoc [of m pt "path @ [i]"] by (simp add: node_snoc)
      with True IH g eq [of j] show ?thesis
        using node_snoc [of m' pt xs j] by simp
    next
      case False
      show ?thesis
      proof (cases "node m pt xs")
        case None
        with False IH path show ?thesis by (auto simp: node_snoc)
      next
        case (Some t)
        then have "t \<in> tables m pt" using g tablesI by blast
        moreover have "t = p \<longleftrightarrow> xs = path"
          using pt_wfD(3) [OF wf, of xs path p] Some path(2) g gp by auto
        ultimately show ?thesis using False IH Some g et by (auto simp: node_snoc)
      qed
    qed
  qed simp
  then show "good_path xs \<Longrightarrow> ?n xs" for xs .
  have nn: "node m pt (path @ [i]) = None" using path by (simp add: node_snoc)
  show T: "tables m' pt = insert q (tables m pt)"
    using N path(1) nn by (auto simp: tables_def split: if_splits) (metis option.distinct(1))
  have fresh: "node m pt xs \<noteq> Some q" if "good_path xs" for xs
    using q(3) that tablesI by blast
  show "pt_wf m' pt"
  proof (rule pt_wfI)
    show "page_aligned t \<and> t \<noteq> 0" if "t \<in> tables m' pt" for t
      using that q T pt_wfD(1,2) [OF wf] by auto
    show "xs = ys" if "good_path xs" "good_path ys" "node m' pt xs = Some t" "node m' pt ys = Some t" for xs ys t
      using that N [OF that(1)] N [OF that(2)] fresh [OF that(1)] fresh [OF that(2)] pt_wfD(3) [OF wf that(1,2)]
      by (auto split: if_splits)
    show "load64 m' (pte_at t j) AND (PTE_R OR PTE_W OR PTE_X) = 0"
      if *: "good_path (xs @ [j])" "node m' pt xs = Some t" "load64 m' (pte_at t j) AND PTE_V \<noteq> 0" for xs j t
    proof (cases "xs = path @ [i]")
      case True
      with * good_path_snoc [OF *(1)] N new show ?thesis by auto
    next
      case False
      with * good_path_snoc [OF *(1)] N have t: "node m pt xs = Some t" "j < 512" by auto
      then have "t \<in> tables m pt" using good_path_snoc [OF *(1)] tablesI by blast
      with t * old [of t j] pt_wfD(4) [OF wf *(1) t(1)] PA2PTE_OR_AND [of 1 14 q]
      show ?thesis by (auto split: if_splits)
    qed
  qed
  let ?xs = "[PX 2 va, PX 1 va]"
  show "pte_of m' pt va = pte_of m pt va"
  proof (cases "?xs = path @ [i]")
    case True
    then have "node m pt ?xs = None" "node m' pt ?xs = Some q" using nn N [of ?xs] by auto
    with new show ?thesis by (simp add: pte_of_def del: node.simps)
  next
    case False
    then have eqn: "node m' pt ?xs = node m pt ?xs" using N [of ?xs] by (metis good_path_PX(3))
    show ?thesis
    proof (cases "node m pt ?xs")
      case None
      with eqn show ?thesis by (simp add: pte_of_def del: node.simps)
    next
      case (Some t)
      have "t \<noteq> p"
        using pt_wfD(3) [OF wf, of ?xs path p] Some path gp by (auto simp: good_path_def)
      with eqn Some old [OF tablesI [OF _ Some], of "PX 0 va"] show ?thesis
        by (simp add: pte_of_def del: node.simps)
    qed
  qed
qed

section \<open>Walking\<close>

definition vm_inv :: "u64 list \<Rightarrow> u64 \<Rightarrow> 'a kmem_scheme \<Rightarrow> bool" where
  "vm_inv ps pt s \<longleftrightarrow> free_pages ps s \<and> pt_wf (ram s) pt \<and> tables (ram s) pt \<inter> set ps = {}"

text \<open>
  What an operation on page table \<open>pt\<close> may do to the state: \<open>used\<close> pages leave the free list,
  memory changes in the pages \<open>touched\<close> at most, and nothing else does.
\<close>

definition same_rest :: "'a kmem_scheme \<Rightarrow> 'a kmem_scheme \<Rightarrow> bool" where
  "same_rest s s' \<longleftrightarrow> held s' = held s \<and> kend s' = kend s \<and> kmem.more s' = kmem.more s"

definition touches :: "u64 set \<Rightarrow> 'a kmem_scheme \<Rightarrow> 'a kmem_scheme \<Rightarrow> bool" where
  "touches P s s' \<longleftrightarrow> same_rest s s' \<and> (\<forall>x. pgno x \<notin> pgno ` P \<longrightarrow> ram s' x = ram s x)"

definition pt_grows :: "u64 \<Rightarrow> u64 list \<Rightarrow> 'a kmem_scheme \<Rightarrow> u64 list \<Rightarrow> 'a kmem_scheme \<Rightarrow> bool" where
  "pt_grows pt ps s ps' s' \<longleftrightarrow> (\<exists>qs. ps = qs @ ps' \<and> vm_inv ps' pt s' \<and>
     tables (ram s') pt = tables (ram s) pt \<union> set qs \<and>
     (\<forall>va. pte_of (ram s') pt va = pte_of (ram s) pt va) \<and> touches (tables (ram s) pt \<union> set qs) s s')"

lemma touches_refl [simp]: "touches P s s"
  by (simp add: touches_def same_rest_def)

lemma touches_trans: "touches P s t \<Longrightarrow> touches Q t u \<Longrightarrow> touches (P \<union> Q) s u"
  by (auto simp: touches_def same_rest_def image_Un)

lemma touches_mono: "touches P s t \<Longrightarrow> P \<subseteq> Q \<Longrightarrow> touches Q s t"
  unfolding touches_def by blast

lemma touches_ram: "(\<And>x. pgno x \<notin> pgno ` P \<Longrightarrow> m x = ram s x) \<Longrightarrow> touches P s (s\<lparr>ram := m\<rparr>)"
  by (cases s) (simp add: touches_def same_rest_def)

lemma pt_grows_refl: "vm_inv ps pt s \<Longrightarrow> pt_grows pt ps s ps s"
  by (auto simp: pt_grows_def intro!: exI [of _ "[]"])

lemma pt_grows_trans:
  assumes "pt_grows pt ps s ps1 s1" "pt_grows pt ps1 s1 ps2 s2"
  shows "pt_grows pt ps s ps2 s2"
proof -
  from assms(1) obtain qs where q: "ps = qs @ ps1" "tables (ram s1) pt = tables (ram s) pt \<union> set qs"
    "\<And>va. pte_of (ram s1) pt va = pte_of (ram s) pt va" "touches (tables (ram s) pt \<union> set qs) s s1"
    unfolding pt_grows_def by blast
  from assms(2) obtain rs where r: "ps1 = rs @ ps2" "tables (ram s2) pt = tables (ram s1) pt \<union> set rs"
    "\<And>va. pte_of (ram s2) pt va = pte_of (ram s1) pt va" "touches (tables (ram s1) pt \<union> set rs) s1 s2"
    "vm_inv ps2 pt s2"
    unfolding pt_grows_def by blast
  have "touches (tables (ram s) pt \<union> set (qs @ rs)) s s2"
    using touches_trans [OF q(4) r(4)] q(2) by (simp add: Un_ac)
  with q r show ?thesis unfolding pt_grows_def by (intro exI [of _ "qs @ rs"]) auto
qed

lemma free_pages_ram:
  assumes "free_pages ps s" "\<And>x p. p \<in> set ps \<Longrightarrow> pgno x = pgno p \<Longrightarrow> m x = ram s x"
  shows "free_pages ps (s\<lparr>ram := m\<rparr>)"
proof -
  have al: "page_aligned p" if "p \<in> set ps" for p
    using assms(1) that by (auto simp: free_pages_def kmem_inv_def allocatable_def)
  have "load64 m p = load64 (ram s) p" if "p \<in> set ps" for p
    using load64_pte_frame [of p 0 m "ram s"] al [OF that] assms(2) [OF that] by (simp add: pte_at_def)
  with assms(1) show ?thesis
    by (auto simp: free_pages_def kmem_inv_def intro: free_list_frame)
qed

lemma walk_step_alloc:
  fixes s :: "'a kmem_scheme"
  assumes inv: "vm_inv (q # qs) pt s" and path: "good_path (path @ [PX level va])"
    "node (ram s) pt path = Some p" "entry (ram s) p (PX level va) = None"
  shows "\<exists>s'. walk_step level va True p s = Inr (Some q, s') \<and> pt_grows pt (q # qs) s qs s' \<and>
    node (ram s') pt (path @ [PX level va]) = Some q"
proof -
  let ?i = "PX level va"
  from inv have fp: "free_pages (q # qs) s" and wf: "pt_wf (ram s) pt"
    and dis: "q \<notin> tables (ram s) pt" "tables (ram s) pt \<inter> set qs = {}" by (auto simp: vm_inv_def)
  from kalloc_spec [of "q # qs" s] fp obtain s1 where s1: "kalloc s = Inr (q, s1)" "free_pages qs s1"
    "q \<notin> set qs" "allocatable (kend s) q" "same_rest s s1" "\<And>x. pgno x \<noteq> pgno q \<Longrightarrow> ram s1 x = ram s x"
    by (auto simp: free_pages_def same_rest_def)
  define m where "m = store64 (memset (ram s1) q 0 4096) (pte_at p ?i) (PA2PTE q OR PTE_V)"
  have q: "page_aligned q" "q \<noteq> 0" using s1(4) by (auto simp: allocatable_def)
  have p: "p \<in> tables (ram s) pt" using good_path_snoc [OF path(1)] path(2) tablesI by blast
  then have pal: "page_aligned p" and pq: "p \<noteq> q" using pt_wfD(1) [OF wf] dis by auto
  have step: "walk_step level va True p s = Inr (Some q, s1\<lparr>ram := m\<rparr>)"
    using path(3) s1(1) q(2) by (simp add: walk_step_def entry_def Let_def m_def split: if_splits)
  have frame: "m x = ram s x" if "pgno x \<noteq> pgno p" "pgno x \<noteq> pgno q" for x
    using that s1(6) store64_frame [OF pal that(1), of ?i] memset_frame [OF q(1) that(2)]
    by (simp add: m_def pte_at_def)
  have old: "load64 m (pte_at t j) = (if t = p \<and> j = ?i then PA2PTE q OR PTE_V else load64 (ram s) (pte_at t j))"
    if t: "t \<in> tables (ram s) pt" "j < 512" for t j
  proof -
    have tal: "page_aligned t" and tq: "t \<noteq> q" using t dis pt_wfD(1) [OF wf] by auto
    then have "pgno t \<noteq> pgno q" using page_eqI q(1) by blast
    then have "load64 (memset (ram s1) q 0 4096) (pte_at t j) = load64 (ram s) (pte_at t j)"
      using tal t(2) q(1) s1(6) by (intro load64_pte_frame) (auto simp: memset_frame)
    then show ?thesis using tal pal t(2) by (simp add: m_def load64_pte_store)
  qed
  have new: "load64 m (pte_at q j) = 0" if "j < 512" for j
    using that q pal pq by (simp add: m_def load64_pte_store load64_pte_memset)
  note L = link_table [OF wf path q dis(1) old new]
  have nf: "pgno x \<noteq> pgno p \<and> pgno x \<noteq> pgno q" if "f \<in> set qs" "pgno x = pgno f" for x f
  proof -
    have "page_aligned f" using that(1) s1(2) by (auto simp: free_pages_def kmem_inv_def allocatable_def)
    moreover have "f \<noteq> p" "f \<noteq> q" using that(1) p dis(2) s1(3) by auto
    ultimately show ?thesis using that(2) page_eqI pal q(1) by metis
  qed
  have "free_pages qs (s1\<lparr>ram := m\<rparr>)"
    using s1(2)
  proof (rule free_pages_ram)
    show "m x = ram s1 x" if "f \<in> set qs" "pgno x = pgno f" for x f
      using nf [OF that] frame s1(6) by simp
  qed
  then have "vm_inv qs pt (s1\<lparr>ram := m\<rparr>)"
    using L(2,3) dis s1(3) by (auto simp: vm_inv_def)
  moreover have "touches (tables (ram s) pt \<union> {q}) s (s1\<lparr>ram := m\<rparr>)"
    using s1(5) p frame by (cases s1) (auto simp: touches_def same_rest_def)
  ultimately have "pt_grows pt (q # qs) s qs (s1\<lparr>ram := m\<rparr>)"
    using L(3,4) by (auto simp: pt_grows_def intro!: exI [of _ "[q]"])
  moreover have "node m pt (path @ [?i]) = Some q" using L(1) path(1) by simp
  ultimately show ?thesis using step by (intro exI [of _ "s1\<lparr>ram := m\<rparr>"]) simp
qed

lemma walk_step_spec:
  assumes inv: "vm_inv ps pt s" and path: "good_path (path @ [PX level va])" "node (ram s) pt path = Some p"
  shows "\<exists>r ps' s'. walk_step level va True p s = Inr (r, s') \<and> pt_grows pt ps s ps' s' \<and>
    length ps \<le> Suc (length ps') \<and>
    (case r of None \<Rightarrow> ps = [] | Some q \<Rightarrow> node (ram s') pt (path @ [PX level va]) = Some q)"
proof (cases "entry (ram s) p (PX level va)")
  case (Some q)
  then have "walk_step level va True p s = Inr (Some q, s)"
    by (simp add: walk_step_def entry_def Let_def split: if_splits)
  moreover have "node (ram s) pt (path @ [PX level va]) = Some q" using Some path(2) by (simp add: node_snoc)
  ultimately show ?thesis using pt_grows_refl [OF inv] by (intro exI [of _ "Some q"] exI [of _ ps]) simp
next
  case None
  show ?thesis
  proof (cases ps)
    case Nil
    then have "kalloc s = Inr (0, s)"
      using km.alloc_none [of s] inv by (simp add: vm_inv_def)
    then have "walk_step level va True p s = Inr (None, s)"
      using None by (simp add: walk_step_def entry_def Let_def split: if_splits)
    then show ?thesis using pt_grows_refl [OF inv] Nil by (intro exI [of _ None] exI [of _ ps]) simp
  next
    case (Cons q qs)
    then show ?thesis using walk_step_alloc [OF _ path None] inv by fastforce
  qed
qed

text \<open>
  \<open>walk\<close> with \<open>alloc\<close> set: it returns the address of the PTE, or 0 after using up the free
  list; in both cases the page table translates exactly as before.
\<close>

lemma walk_alloc:
  assumes inv: "vm_inv ps pt s" and va: "va < MAXVA"
  shows "\<exists>r ps' s'. walk pt va True s = Inr (r, s') \<and> pt_grows pt ps s ps' s' \<and> length ps \<le> length ps' + 2 \<and>
    (if r = 0 then ps' = [] \<and> length ps < 2 else
       \<exists>p. node (ram s') pt [PX 2 va, PX 1 va] = Some p \<and> r = pte_at p (PX 0 va))"
proof -
  have w: "walk pt va True s = bnd (walk_step 2 va True pt s) (\<lambda>(next, s). case next of None \<Rightarrow> Inr (0, s)
    | Some p1 \<Rightarrow> bnd (walk_step 1 va True p1 s) (\<lambda>(next, s). case next of None \<Rightarrow> Inr (0, s)
      | Some p0 \<Rightarrow> Inr (pte_at p0 (PX 0 va), s)))"
    using va by (auto simp: walk_def numeral_2_eq_2 fun_eq_iff intro!: arg_cong2 [where f = bnd] split: option.splits)
  from walk_step_spec [OF inv, of "[]" 2 va pt, unfolded append.simps] obtain r1 ps1 s1 where
    1: "walk_step 2 va True pt s = Inr (r1, s1)" "pt_grows pt ps s ps1 s1"
      "length ps \<le> Suc (length ps1)" "case r1 of None \<Rightarrow> ps = [] | Some q \<Rightarrow> node (ram s1) pt [PX 2 va] = Some q"
    by (auto simp: good_path_def)
  show ?thesis
  proof (cases r1)
    case None
    with 1 w show ?thesis by (auto simp: pt_grows_def)
  next
    case (Some p1)
    have "vm_inv ps1 pt s1" using 1(2) by (auto simp: pt_grows_def)
    with walk_step_spec [of ps1 pt s1 "[PX 2 va]" 1 va p1, unfolded append.simps] 1(4) Some obtain r2 ps2 s2 where
      2: "walk_step 1 va True p1 s1 = Inr (r2, s2)" "pt_grows pt ps1 s1 ps2 s2"
        "length ps1 \<le> Suc (length ps2)" "case r2 of None \<Rightarrow> ps1 = [] | Some q \<Rightarrow> node (ram s2) pt [PX 2 va, PX 1 va] = Some q"
      by (auto simp: good_path_def)
    note g = pt_grows_trans [OF 1(2) 2(2)]
    show ?thesis
    proof (cases r2)
      case None
      then have "ps1 = []" "ps2 = []" using 2(2,4) by (auto simp: pt_grows_def)
      with None 1(1,3) 2(1) Some w g show ?thesis by auto
    next
      case (Some p0)
      with 2(4) have n: "node (ram s2) pt [PX 2 va, PX 1 va] = Some p0" by simp
      have "pt_wf (ram s2) pt" using g by (auto simp: pt_grows_def vm_inv_def)
      with n have "pte_at p0 (PX 0 va) \<noteq> 0"
        using pt_wfD(1,2) tablesI [OF good_path_PX(3) n] by (intro pte_at_nonzero) auto
      with n Some 1(1,3) 2(1,3) \<open>r1 = Some p1\<close> w g show ?thesis
        by (intro exI [of _ "pte_at p0 (PX 0 va)"] exI [of _ ps2] exI [of _ s2]) (simp del: node.simps)
    qed
  qed
qed

lemma walk_lookup:
  assumes "va < MAXVA"
  shows "walk pt va False s = Inr (case node (ram s) pt [PX 2 va, PX 1 va] of
     None \<Rightarrow> 0 | Some p \<Rightarrow> pte_at p (PX 0 va), s)"
  using assms by (auto simp: walk_def walk_step_def entry_def Let_def numeral_2_eq_2 split: option.splits)

lemma walkaddr_eq:
  assumes wf: "pt_wf (ram s) pt"
  shows "walkaddr pt va s = Inr (if va < MAXVA \<and> pte_of (ram s) pt va AND PTE_V \<noteq> 0 \<and>
     pte_of (ram s) pt va AND PTE_U \<noteq> 0 then PTE2PA (pte_of (ram s) pt va) else 0)"
proof (cases "va < MAXVA \<and> node (ram s) pt [PX 2 va, PX 1 va] \<noteq> None")
  case True
  then obtain p where p: "node (ram s) pt [PX 2 va, PX 1 va] = Some p" by auto
  then have "pte_at p (PX 0 va) \<noteq> 0"
    using pt_wfD(1,2) [OF wf] tablesI [OF good_path_PX(3) p] by (intro pte_at_nonzero) auto
  with p True show ?thesis by (auto simp: walkaddr_def walk_lookup pte_of_def simp del: node.simps)
next
  case False
  then show ?thesis by (auto simp: walkaddr_def walk_lookup pte_of_def not_le simp del: node.simps)
qed

section \<open>Mapping and unmapping\<close>

text \<open>
  The effect of an operation on the translation of \<open>pt\<close>: afterwards address \<open>va\<close> has PTE
  \<open>f va\<close>. The free list may lose pages to new tables.
\<close>

definition pt_becomes ::
  "u64 \<Rightarrow> u64 list \<Rightarrow> 'a kmem_scheme \<Rightarrow> u64 list \<Rightarrow> 'a kmem_scheme \<Rightarrow> (u64 \<Rightarrow> u64) \<Rightarrow> bool" where
  "pt_becomes pt ps s ps' s' f \<longleftrightarrow> (\<exists>qs. ps = qs @ ps' \<and> vm_inv ps' pt s' \<and>
     tables (ram s') pt = tables (ram s) pt \<union> set qs \<and> touches (tables (ram s) pt \<union> set qs) s s' \<and>
     (\<forall>va < MAXVA. pte_of (ram s') pt va = f va))"

definition page_idx :: "u64 \<Rightarrow> nat" where
  "page_idx va = unat va div 4096"

text \<open>The translation after mapping \<open>n\<close> pages at \<open>a\<close> to the physical pages from \<open>pa\<close> on.\<close>

definition map_range :: "(u64 \<Rightarrow> u64) \<Rightarrow> u64 \<Rightarrow> nat \<Rightarrow> u64 \<Rightarrow> u64 \<Rightarrow> u64 \<Rightarrow> u64" where
  "map_range f a n pa perm = (\<lambda>va.
     if page_idx a \<le> page_idx va \<and> page_idx va < page_idx a + n
     then PA2PTE (pa + of_nat (4096 * (page_idx va - page_idx a))) OR perm OR PTE_V
     else f va)"

definition unmap_range :: "(u64 \<Rightarrow> u64) \<Rightarrow> u64 \<Rightarrow> nat \<Rightarrow> u64 \<Rightarrow> u64" where
  "unmap_range f a n = (\<lambda>va. if page_idx a \<le> page_idx va \<and> page_idx va < page_idx a + n then 0 else f va)"

lemma map_range_0 [simp]: "map_range f a 0 pa perm = f" "unmap_range f a 0 = f"
  by (auto simp: map_range_def unmap_range_def fun_eq_iff)

lemma map_range_Suc:
  assumes "page_idx b = Suc (page_idx a)"
  shows "map_range (map_range f a 1 pa perm) b j (pa + PGSIZE) perm = map_range f a (Suc j) pa perm"
proof
  fix v
  show "map_range (map_range f a 1 pa perm) b j (pa + PGSIZE) perm v = map_range f a (Suc j) pa perm v"
  proof (cases "page_idx a \<le> page_idx v")
    case True
    then obtain k where "page_idx v = page_idx a + k" using le_Suc_ex by blast
    then show ?thesis using assms by (cases k) (auto simp: map_range_def algebra_simps)
  qed (use assms in \<open>auto simp: map_range_def\<close>)
qed

lemma unmap_range_Suc:
  "page_idx b = Suc (page_idx a) \<Longrightarrow> unmap_range (unmap_range f a 1) b j = unmap_range f a (Suc j)"
  by (auto simp: unmap_range_def fun_eq_iff)

lemma page_step_ne:
  assumes "unat a + 4096 * Suc n < 2 ^ 38"
  shows "a + of_nat (4096 * Suc n) \<noteq> (a :: u64)"
proof
  assume "a + of_nat (4096 * Suc n) = a"
  then have "of_nat (4096 * Suc n) = (0 :: u64)" by (simp only: add_cancel_left_right)
  then have "2 ^ 64 dvd 4096 * Suc n" by (simp only: word_of_nat_eq_0_iff) simp
  then have "2 ^ 64 \<le> 4096 * Suc n" by (rule dvd_imp_le) simp
  with assms show False by simp
qed

lemma page_idx_eq_iff: "page_idx a = page_idx b \<longleftrightarrow> pgno a = pgno b"
  by (simp add: page_idx_def word_unat_eq_iff unat_pgno)

lemma page_idx_next: "a < MAXVA \<Longrightarrow> page_idx (a + PGSIZE) = Suc (page_idx a)"
  by (simp add: page_idx_def unat_below_MAXVA)

lemma PX_page: "PX l va = page_idx va div 2 ^ (9 * l) mod 512"
proof -
  have "unat va div 2 ^ (12 + 9 * l) = page_idx va div 2 ^ (9 * l)"
    by (simp add: page_idx_def power_add flip: div_mult2_eq)
  then show ?thesis by (simp add: PX_eq)
qed

lemma pte_of_page: "page_idx a = page_idx b \<Longrightarrow> pte_of m pt a = pte_of m pt b"
  using PX_page [of _ a] PX_page [of _ b] by (simp add: pte_of_def cong: option.case_cong)

lemma pt_becomes_grows: "pt_grows pt ps s ps' s' \<Longrightarrow> pt_becomes pt ps s ps' s' (pte_of (ram s) pt)"
  by (auto simp: pt_grows_def pt_becomes_def)

lemma pt_becomes_trans:
  assumes "pt_becomes pt ps s ps1 s1 f" "pt_becomes pt ps1 s1 ps2 s2 g"
  shows "pt_becomes pt ps s ps2 s2 g"
proof -
  from assms(1) obtain qs where q: "ps = qs @ ps1" "tables (ram s1) pt = tables (ram s) pt \<union> set qs"
    "touches (tables (ram s) pt \<union> set qs) s s1"
    unfolding pt_becomes_def by blast
  from assms(2) obtain rs where r: "ps1 = rs @ ps2" "tables (ram s2) pt = tables (ram s1) pt \<union> set rs"
    "touches (tables (ram s1) pt \<union> set rs) s1 s2" "vm_inv ps2 pt s2"
    "\<forall>va < MAXVA. pte_of (ram s2) pt va = g va"
    unfolding pt_becomes_def by blast
  have "touches (tables (ram s) pt \<union> set (qs @ rs)) s s2"
    using touches_trans [OF q(3) r(3)] q(2) by (simp add: Un_ac)
  with q r show ?thesis unfolding pt_becomes_def by (intro exI [of _ "qs @ rs"]) auto
qed

lemma pt_becomes_cong:
  "pt_becomes pt ps s ps' s' f \<Longrightarrow> (\<And>va. va < MAXVA \<Longrightarrow> f va = g va) \<Longrightarrow> pt_becomes pt ps s ps' s' g"
  by (auto simp: pt_becomes_def)

lemma vm_inv_table_free:
  assumes "vm_inv ps pt s" "p \<in> tables (ram s) pt" "q \<in> set ps"
  shows "pgno p \<noteq> pgno q"
proof -
  have "page_aligned p" using assms pt_wfD(1) by (auto simp: vm_inv_def)
  moreover have "page_aligned q"
    using assms(1,3) by (auto simp: vm_inv_def free_pages_def kmem_inv_def allocatable_def)
  moreover have "p \<noteq> q" using assms by (auto simp: vm_inv_def)
  ultimately show ?thesis using page_eqI by blast
qed

lemma store_leaf:
  assumes inv: "vm_inv ps pt s" and va: "va < MAXVA" "node (ram s) pt [PX 2 va, PX 1 va] = Some p"
  shows "pt_becomes pt ps s ps (s\<lparr>ram := store64 (ram s) (pte_at p (PX 0 va)) w\<rparr>)
    (\<lambda>v. if page_idx v = page_idx va then w else pte_of (ram s) pt v)"
proof -
  have wf: "pt_wf (ram s) pt" and fp: "free_pages ps s" using inv by (auto simp: vm_inv_def)
  have p: "p \<in> tables (ram s) pt" using va(2) by (rule tablesI [rotated]) simp
  note L = leaf_store [OF wf va(2), where w = w]
  let ?m = "store64 (ram s) (pte_at p (PX 0 va)) w"
  have "free_pages ps (s\<lparr>ram := ?m\<rparr>)"
    using fp
  proof (rule free_pages_ram)
    show "?m x = ram s x" if "q \<in> set ps" "pgno x = pgno q" for x q
      using L(6) vm_inv_table_free [OF inv p that(1)] that(2) by auto
  qed
  then have "vm_inv ps pt (s\<lparr>ram := ?m\<rparr>)"
    using L(1,2) inv by (auto simp: vm_inv_def)
  moreover have "touches (tables (ram s) pt) s (s\<lparr>ram := ?m\<rparr>)"
    using L(6) p by (intro touches_ram) auto
  moreover have "pte_of ?m pt v = (if page_idx v = page_idx va then w else pte_of (ram s) pt v)"
    if "v < MAXVA" for v
    using L(4,5) va(1) that by (auto simp: page_idx_eq_iff dest: pte_of_page [of v va])
      (metis page_idx_eq_iff pte_of_page)
  ultimately show ?thesis using L(2) by (auto simp: pt_becomes_def intro!: exI [of _ "[]"])
qed

lemma pt_becomes_inv: "pt_becomes pt ps s ps' s' f \<Longrightarrow> vm_inv ps' pt s'"
  by (auto simp: pt_becomes_def)

text \<open>One round of \<open>mappages\<close>.\<close>

lemma map_one:
  assumes inv: "vm_inv ps pt s" and a: "a < MAXVA" "pte_of (ram s) pt a AND PTE_V = 0"
  shows "(\<exists>s'. walk pt a True s = Inr (0, s') \<and> length ps < 2 \<and> pt_becomes pt ps s [] s' (pte_of (ram s) pt)) \<or>
    (\<exists>r s' ps'. walk pt a True s = Inr (r, s') \<and> r \<noteq> 0 \<and> load64 (ram s') r AND PTE_V = 0 \<and>
      length ps \<le> length ps' + 2 \<and> pt_becomes pt ps s ps' (s'\<lparr>ram := store64 (ram s') r (PA2PTE pa OR perm OR PTE_V)\<rparr>)
        (map_range (pte_of (ram s) pt) a 1 pa perm))"
proof -
  from walk_alloc [OF inv a(1)] obtain r ps' s' where
    w: "walk pt a True s = Inr (r, s')" "pt_grows pt ps s ps' s'" "length ps \<le> length ps' + 2"
      "if r = 0 then ps' = [] \<and> length ps < 2 else \<exists>p. node (ram s') pt [PX 2 a, PX 1 a] = Some p \<and> r = pte_at p (PX 0 a)"
    by blast
  note g = pt_becomes_grows [OF w(2)]
  show ?thesis
  proof (cases "r = 0")
    case True
    with w g show ?thesis by auto
  next
    case False
    with w(4) obtain p where p: "node (ram s') pt [PX 2 a, PX 1 a] = Some p" "r = pte_at p (PX 0 a)" by auto
    have same: "pte_of (ram s') pt v = pte_of (ram s) pt v" for v
      using w(2) by (auto simp: pt_grows_def)
    have "load64 (ram s') r = pte_of (ram s) pt a"
      using p same [of a] by (simp add: pte_of_def del: node.simps)
    moreover have "pt_becomes pt ps s ps' (s'\<lparr>ram := store64 (ram s') r (PA2PTE pa OR perm OR PTE_V)\<rparr>)
        (map_range (pte_of (ram s) pt) a 1 pa perm)"
      using pt_becomes_trans [OF g store_leaf [OF pt_becomes_inv [OF g] a(1) p(1)]] unfolding p(2)
      by (rule pt_becomes_cong) (auto simp: map_range_def same)
    ultimately show ?thesis using w(1,3) a(2) False by auto
  qed
qed

lemma mappages_from_spec:
  assumes "vm_inv ps pt s" "page_aligned a" "unat a + 4096 * n < 2 ^ 38"
    and "\<And>v. v < MAXVA \<Longrightarrow> page_idx a \<le> page_idx v \<Longrightarrow> page_idx v \<le> page_idx a + n \<Longrightarrow>
      pte_of (ram s) pt v AND PTE_V = 0"
  shows "\<exists>r j ps' s'. mappages_from pt a (a + of_nat (4096 * n)) pa perm s = Inr (r, s') \<and>
    pt_becomes pt ps s ps' s' (map_range (pte_of (ram s) pt) a j pa perm) \<and>
    (r = 0 \<and> j = Suc n \<or> r = -1 \<and> j \<le> n \<and> ps' = [] \<and> length ps < 2 * Suc n)"
  using assms
proof (induction n arbitrary: a pa ps s)
  case 0
  then have a: "a < MAXVA" by (simp add: word_less_nat_alt)
  from map_one [OF 0(1) a 0(4) [OF a order.refl le_add1], of pa perm] show ?case
  proof (elim disjE exE conjE)
    fix s' assume "walk pt a True s = Inr (0, s')" "length ps < 2" "pt_becomes pt ps s [] s' (pte_of (ram s) pt)"
    then show ?thesis
      by (subst mappages_from.simps) (auto intro!: exI [of _ 0])
  qed (subst mappages_from.simps, auto simp: Let_def)
next
  case (Suc n)
  then have a: "a < MAXVA" by (simp add: word_less_nat_alt)
  note ne = page_step_ne [OF Suc.prems(3)]
  from map_one [OF Suc.prems(1) a Suc.prems(4) [OF a order.refl le_add1], of pa perm] show ?case
  proof (elim disjE exE conjE)
    fix s' assume "walk pt a True s = Inr (0, s')" "length ps < 2" "pt_becomes pt ps s [] s' (pte_of (ram s) pt)"
    then show ?thesis
      by (subst mappages_from.simps) (auto intro!: exI [of _ 0])
  next
    fix r s' ps' assume w: "walk pt a True s = Inr (r, s')" "r \<noteq> 0" "load64 (ram s') r AND PTE_V = 0"
      and l: "length ps \<le> length ps' + 2" and b: "pt_becomes pt ps s ps' (s'\<lparr>ram := store64 (ram s') r (PA2PTE pa OR perm OR PTE_V)\<rparr>)
        (map_range (pte_of (ram s) pt) a 1 pa perm)" (is "pt_becomes _ _ _ _ ?s1 _")
    have step: "mappages_from pt a (a + of_nat (4096 * Suc n)) pa perm s =
      mappages_from pt (a + PGSIZE) (a + PGSIZE + of_nat (4096 * n)) (pa + PGSIZE) perm ?s1"
      using w ne by (subst mappages_from.simps) (simp add: Let_def algebra_simps)
    have u: "unat (a + PGSIZE) = unat a + 4096" using unat_below_MAXVA [OF a] .
    have p1: "pte_of (ram ?s1) pt v = map_range (pte_of (ram s) pt) a 1 pa perm v" if "v < MAXVA" for v
      using b that by (auto simp: pt_becomes_def)
    have "\<exists>r j ps'' s''. mappages_from pt (a + PGSIZE) (a + PGSIZE + of_nat (4096 * n)) (pa + PGSIZE) perm ?s1 = Inr (r, s'') \<and>
      pt_becomes pt ps' ?s1 ps'' s'' (map_range (pte_of (ram ?s1) pt) (a + PGSIZE) j (pa + PGSIZE) perm) \<and>
      (r = 0 \<and> j = Suc n \<or> r = -1 \<and> j \<le> n \<and> ps'' = [] \<and> length ps' < 2 * Suc n)"
    proof (rule Suc.IH [OF pt_becomes_inv [OF b]])
      show "page_aligned (a + PGSIZE)" using Suc.prems(2) u by (simp add: page_aligned_unat)
      show "unat (a + PGSIZE) + 4096 * n < 2 ^ 38" using Suc.prems(3) u by simp
      show "pte_of (ram ?s1) pt v AND PTE_V = 0" if "v < MAXVA" "page_idx (a + PGSIZE) \<le> page_idx v"
        "page_idx v \<le> page_idx (a + PGSIZE) + n" for v
        using that p1 [of v] Suc.prems(4) [of v] page_idx_next [OF a] by (simp add: map_range_def)
    qed
    then obtain r j ps'' s'' where
      r: "mappages_from pt (a + PGSIZE) (a + PGSIZE + of_nat (4096 * n)) (pa + PGSIZE) perm ?s1 = Inr (r, s'')"
        "pt_becomes pt ps' ?s1 ps'' s'' (map_range (pte_of (ram ?s1) pt) (a + PGSIZE) j (pa + PGSIZE) perm)"
        "r = 0 \<and> j = Suc n \<or> r = -1 \<and> j \<le> n \<and> ps'' = [] \<and> length ps' < 2 * Suc n"
      by blast
    have "map_range (pte_of (ram ?s1) pt) (a + PGSIZE) j (pa + PGSIZE) perm v =
        map_range (pte_of (ram s) pt) a (Suc j) pa perm v" if "v < MAXVA" for v
    proof -
      have "map_range (pte_of (ram ?s1) pt) (a + PGSIZE) j (pa + PGSIZE) perm v =
          map_range (map_range (pte_of (ram s) pt) a 1 pa perm) (a + PGSIZE) j (pa + PGSIZE) perm v"
        unfolding map_range_def [of _ "a + PGSIZE"] p1 [OF that] ..
      then show ?thesis unfolding map_range_Suc [OF page_idx_next [OF a]] .
    qed
    with pt_becomes_trans [OF b r(2)] have "pt_becomes pt ps s ps'' s'' (map_range (pte_of (ram s) pt) a (Suc j) pa perm)"
      by (rule pt_becomes_cong)
    with r(1,3) step l show ?thesis by (intro exI [of _ r] exI [of _ "Suc j"]) auto
  qed
qed

text \<open>
  Unmapping: the physical pages of a range, and what must hold of them before they may be
  freed.
\<close>

definition phys :: "(u64 \<Rightarrow> u64) \<Rightarrow> u64 \<Rightarrow> nat \<Rightarrow> u64 list" where
  "phys f a n = map (\<lambda>k. PTE2PA (f (a + of_nat (4096 * k)))) [0..<n]"

definition freeable :: "u64 list \<Rightarrow> u64 list \<Rightarrow> u64 \<Rightarrow> 'a kmem_scheme \<Rightarrow> bool" where
  "freeable pas ps pt s \<longleftrightarrow> distinct pas \<and> (\<forall>p\<in>set pas. allocatable (kend s) p \<and> p \<notin> set ps \<and>
     p \<notin> tables (ram s) pt)"

definition pt_shrinks ::
  "u64 \<Rightarrow> u64 list \<Rightarrow> 'a kmem_scheme \<Rightarrow> u64 list \<Rightarrow> 'a kmem_scheme \<Rightarrow> (u64 \<Rightarrow> u64) \<Rightarrow> bool" where
  "pt_shrinks pt ps s pas s' f \<longleftrightarrow> vm_inv (rev pas @ ps) pt s' \<and> tables (ram s') pt = tables (ram s) pt \<and>
     touches (tables (ram s) pt \<union> set pas) s s' \<and> (\<forall>va < MAXVA. pte_of (ram s') pt va = f va)"

lemma pt_shrinks_trans:
  assumes "pt_shrinks pt ps s pas s1 f" "pt_shrinks pt (rev pas @ ps) s1 qas s2 g"
  shows "pt_shrinks pt ps s (pas @ qas) s2 g"
proof -
  have "touches ((tables (ram s) pt \<union> set pas) \<union> (tables (ram s1) pt \<union> set qas)) s s2"
    using assms by (auto simp: pt_shrinks_def intro: touches_trans)
  then have "touches (tables (ram s) pt \<union> set (pas @ qas)) s s2"
    by (rule touches_mono) (use assms in \<open>auto simp: pt_shrinks_def\<close>)
  with assms show ?thesis by (simp add: pt_shrinks_def)
qed

lemma pt_shrinks_cong:
  "pt_shrinks pt ps s pas s' f \<Longrightarrow> (\<And>va. va < MAXVA \<Longrightarrow> f va = g va) \<Longrightarrow> pt_shrinks pt ps s pas s' g"
  by (auto simp: pt_shrinks_def)

lemma kfree_user:
  assumes inv: "vm_inv ps pt s" and q: "freeable [q] ps pt s"
  shows "\<exists>s'. kfree q s = Inr s' \<and> pt_shrinks pt ps s [q] s' (pte_of (ram s) pt) \<and>
    (\<forall>path. good_path path \<longrightarrow> node (ram s') pt path = node (ram s) pt path)"
proof -
  from q have al: "allocatable (kend s) q" "q \<notin> set ps" "q \<notin> tables (ram s) pt" by (auto simp: freeable_def)
  from kfree_spec [OF _ _ al(1,2)] inv obtain s' where s': "kfree q s = Inr s'" "kmem_inv (q # ps) s'"
    "same_rest s s'" "\<And>x. pgno x \<noteq> pgno q \<Longrightarrow> ram s' x = ram s x"
    by (auto simp: vm_inv_def free_pages_def same_rest_def)
  have wf: "pt_wf (ram s) pt" using inv by (simp add: vm_inv_def)
  have fr: "ram s' x = ram s x" if "p \<in> tables (ram s) pt" "pgno x = pgno p" for x p
  proof -
    have "page_aligned p" "page_aligned q" "p \<noteq> q"
      using that(1) al pt_wfD(1) [OF wf] by (auto simp: allocatable_def)
    then show ?thesis using s'(4) that(2) page_eqI by metis
  qed
  note F = pt_frame [OF wf fr]
  have "free_pages (q # ps) s'" using s'(2,3) inv by (simp add: free_pages_def same_rest_def vm_inv_def)
  then have "vm_inv (q # ps) pt s'"
    using F(1,2) al(3) inv by (auto simp: vm_inv_def)
  with s' F(2-4) show ?thesis by (auto simp: pt_shrinks_def touches_def)
qed

lemma unmap_one:
  assumes inv: "vm_inv ps pt s" and a: "a < MAXVA" and v: "pte_of (ram s) pt a AND PTE_V \<noteq> 0"
    and q: "do_free \<Longrightarrow> freeable [PTE2PA (pte_of (ram s) pt a)] ps pt s"
  defines "pas \<equiv> if do_free then [PTE2PA (pte_of (ram s) pt a)] else []"
  shows "\<exists>r s'. walk pt a False s = Inr (r, s) \<and> r \<noteq> 0 \<and> load64 (ram s) r = pte_of (ram s) pt a \<and>
    (if do_free then kfree (PTE2PA (pte_of (ram s) pt a)) s else Inr s) = Inr s' \<and>
    pt_shrinks pt ps s pas (s'\<lparr>ram := store64 (ram s') r 0\<rparr>) (unmap_range (pte_of (ram s) pt) a 1)"
proof -
  have wf: "pt_wf (ram s) pt" using inv by (simp add: vm_inv_def)
  obtain p where p: "node (ram s) pt [PX 2 a, PX 1 a] = Some p"
    using v by (auto simp: pte_of_def simp del: node.simps split: option.splits)
  then have "pte_at p (PX 0 a) \<noteq> 0"
    using pt_wfD(1,2) [OF wf] tablesI [OF good_path_PX(3) p] by (intro pte_at_nonzero) auto
  have "\<exists>s'. (if do_free then kfree (PTE2PA (pte_of (ram s) pt a)) s else Inr s) = Inr s' \<and>
      pt_shrinks pt ps s pas s' (pte_of (ram s) pt) \<and>
      (\<forall>path. good_path path \<longrightarrow> node (ram s') pt path = node (ram s) pt path)"
    using kfree_user [OF inv] q inv by (auto simp: pas_def pt_shrinks_def)
  then obtain s' where s': "(if do_free then kfree (PTE2PA (pte_of (ram s) pt a)) s else Inr s) = Inr s'"
    "pt_shrinks pt ps s pas s' (pte_of (ram s) pt)" and n': "node (ram s') pt [PX 2 a, PX 1 a] = Some p"
    using p good_path_PX(3) by metis
  have inv': "vm_inv (rev pas @ ps) pt s'" using s'(2) by (simp add: pt_shrinks_def)
  have "pt_shrinks pt (rev pas @ ps) s' [] (s'\<lparr>ram := store64 (ram s') (pte_at p (PX 0 a)) 0\<rparr>)
      (\<lambda>v. if page_idx v = page_idx a then 0 else pte_of (ram s') pt v)"
    using store_leaf [OF inv' a n', of 0] by (auto simp: pt_becomes_def pt_shrinks_def)
  then have "pt_shrinks pt ps s pas (s'\<lparr>ram := store64 (ram s') (pte_at p (PX 0 a)) 0\<rparr>)
      (unmap_range (pte_of (ram s) pt) a 1)"
    using s'(2) by (auto dest!: pt_shrinks_trans [OF s'(2)] elim!: pt_shrinks_cong simp: unmap_range_def)
      (simp add: pt_shrinks_def)
  with p s' \<open>pte_at p (PX 0 a) \<noteq> 0\<close> a show ?thesis
    by (auto simp: walk_lookup pte_of_def simp del: node.simps)
qed

lemma page_at_idx:
  assumes "page_aligned a" "unat a + 4096 * k < 2 ^ 38"
  shows "page_idx (a + of_nat (4096 * k)) = page_idx a + k" and "a + of_nat (4096 * k) < MAXVA"
proof -
  have "unat (a + of_nat (4096 * k)) = unat a + 4096 * k"
    using assms(2) by (intro unat_run [of a "4096 * k" "4096 * k"]) simp_all
  with assms show "page_idx (a + of_nat (4096 * k)) = page_idx a + k" "a + of_nat (4096 * k) < MAXVA"
    by (simp_all add: page_idx_def word_less_nat_alt del: of_nat_mult)
qed

lemma phys_Suc: "phys f a (Suc n) = PTE2PA (f a) # phys f (a + PGSIZE) n"
  by (simp add: phys_def upt_conv_Cons map_Suc_upt [symmetric] algebra_simps del: upt_Suc)

lemma phys_cong:
  "(\<And>k. k < n \<Longrightarrow> f (a + of_nat (4096 * k)) = g (a + of_nat (4096 * k))) \<Longrightarrow> phys f a n = phys g a n"
  by (simp add: phys_def)

lemma freeable_Cons:
  "freeable (p # pas) ps pt s \<longleftrightarrow> freeable [p] ps pt s \<and> freeable pas (p # ps) pt s"
  by (auto simp: freeable_def)

lemma freeable_shrinks:
  "pt_shrinks pt ps s qas s' f \<Longrightarrow> freeable pas (rev qas @ ps) pt s \<Longrightarrow> freeable pas (rev qas @ ps) pt s'"
  by (auto simp: freeable_def pt_shrinks_def touches_def same_rest_def)

lemma uvmunmap_from_spec:
  assumes "vm_inv ps pt s" "page_aligned a" "unat a + 4096 * n < 2 ^ 38"
    and "\<And>v. v < MAXVA \<Longrightarrow> page_idx a \<le> page_idx v \<Longrightarrow> page_idx v \<le> page_idx a + n \<Longrightarrow>
      pte_of (ram s) pt v AND PTE_V \<noteq> 0 \<and> PTE_FLAGS (pte_of (ram s) pt v) \<noteq> PTE_V"
    and "do_free \<Longrightarrow> freeable (phys (pte_of (ram s) pt) a (Suc n)) ps pt s"
  shows "\<exists>s'. uvmunmap_from pt a (a + of_nat (4096 * n)) do_free s = Inr s' \<and>
    pt_shrinks pt ps s (if do_free then phys (pte_of (ram s) pt) a (Suc n) else []) s'
      (unmap_range (pte_of (ram s) pt) a (Suc n))"
  using assms
proof (induction n arbitrary: a ps s)
  case 0
  then have a: "a < MAXVA" by (simp add: word_less_nat_alt)
  have v: "pte_of (ram s) pt a AND PTE_V \<noteq> 0" "PTE_FLAGS (pte_of (ram s) pt a) \<noteq> PTE_V"
    using 0(4) [OF a] by simp_all
  from unmap_one [OF 0(1) a v(1), of do_free] 0(5) show ?case
    by (subst uvmunmap_from.simps) (use v in \<open>auto simp: phys_def Let_def\<close>)
next
  case (Suc n)
  let ?f = "pte_of (ram s) pt"
  let ?pas = "if do_free then [PTE2PA (?f a)] else []"
  from Suc have a: "a < MAXVA" by (simp add: word_less_nat_alt)
  have v: "?f a AND PTE_V \<noteq> 0" "PTE_FLAGS (?f a) \<noteq> PTE_V"
    using Suc.prems(4) [OF a] by simp_all
  have fr: "do_free \<Longrightarrow> freeable [PTE2PA (?f a)] ps pt s"
    "do_free \<Longrightarrow> freeable (phys ?f (a + PGSIZE) (Suc n)) (PTE2PA (?f a) # ps) pt s"
    using Suc.prems(5) freeable_Cons [of "PTE2PA (?f a)" "phys ?f (a + PGSIZE) (Suc n)" ps pt s]
    by (simp_all add: phys_Suc [of ?f a "Suc n"])
  from unmap_one [OF Suc.prems(1) a v(1) fr(1)] obtain r s1 where
    w: "walk pt a False s = Inr (r, s)" "r \<noteq> 0" "load64 (ram s) r = ?f a"
      "(if do_free then kfree (PTE2PA (?f a)) s else Inr s) = Inr s1"
    and b: "pt_shrinks pt ps s ?pas (s1\<lparr>ram := store64 (ram s1) r 0\<rparr>) (unmap_range ?f a 1)"
      (is "pt_shrinks _ _ _ _ ?s1 _")
    by blast
  have step: "uvmunmap_from pt a (a + of_nat (4096 * Suc n)) do_free s =
    uvmunmap_from pt (a + PGSIZE) (a + PGSIZE + of_nat (4096 * n)) do_free ?s1"
    using w v page_step_ne [OF Suc.prems(3)]
    by (subst uvmunmap_from.simps) (simp add: Let_def algebra_simps split: if_splits)
  have u: "unat (a + PGSIZE) = unat a + 4096" using unat_below_MAXVA [OF a] .
  have al: "page_aligned (a + PGSIZE)" "unat (a + PGSIZE) + 4096 * n < 2 ^ 38"
    using Suc.prems(2,3) u by (simp_all add: page_aligned_unat)
  have p1: "pte_of (ram ?s1) pt v = (if page_idx v = page_idx a then 0 else ?f v)" if "v < MAXVA" for v
    using b that by (auto simp: pt_shrinks_def unmap_range_def)
  have ph: "phys (pte_of (ram ?s1) pt) (a + PGSIZE) (Suc n) = phys ?f (a + PGSIZE) (Suc n)"
  proof (rule phys_cong)
    fix k assume "k < Suc n"
    then have "unat (a + PGSIZE) + 4096 * k < 2 ^ 38" using al(2) by simp
    from page_at_idx [OF al(1) this] p1 page_idx_next [OF a]
    show "pte_of (ram ?s1) pt (a + PGSIZE + of_nat (4096 * k)) = ?f (a + PGSIZE + of_nat (4096 * k))"
      by simp
  qed
  have "\<exists>s'. uvmunmap_from pt (a + PGSIZE) (a + PGSIZE + of_nat (4096 * n)) do_free ?s1 = Inr s' \<and>
    pt_shrinks pt (rev ?pas @ ps) ?s1 (if do_free then phys (pte_of (ram ?s1) pt) (a + PGSIZE) (Suc n) else []) s'
      (unmap_range (pte_of (ram ?s1) pt) (a + PGSIZE) (Suc n))"
  proof (rule Suc.IH)
    show "vm_inv (rev ?pas @ ps) pt ?s1" using b by (simp add: pt_shrinks_def)
    show "pte_of (ram ?s1) pt v AND PTE_V \<noteq> 0 \<and> PTE_FLAGS (pte_of (ram ?s1) pt v) \<noteq> PTE_V"
      if "v < MAXVA" "page_idx (a + PGSIZE) \<le> page_idx v" "page_idx v \<le> page_idx (a + PGSIZE) + n" for v
      using that p1 [of v] Suc.prems(4) [of v] page_idx_next [OF a] by simp
    show "freeable (phys (pte_of (ram ?s1) pt) (a + PGSIZE) (Suc n)) (rev ?pas @ ps) pt ?s1" if do_free
      unfolding ph using fr(2) [OF that] that by (intro freeable_shrinks [OF b]) simp
  qed (fact al)+
  then obtain s' where s': "uvmunmap_from pt (a + PGSIZE) (a + PGSIZE + of_nat (4096 * n)) do_free ?s1 = Inr s'"
    "pt_shrinks pt (rev ?pas @ ps) ?s1 (if do_free then phys ?f (a + PGSIZE) (Suc n) else []) s'
      (unmap_range (pte_of (ram ?s1) pt) (a + PGSIZE) (Suc n))"
    unfolding ph by blast
  have pas: "?pas @ (if do_free then phys ?f (a + PGSIZE) (Suc n) else []) = (if do_free then phys ?f a (Suc (Suc n)) else [])"
    by (simp add: phys_Suc [of ?f a])
  from pt_shrinks_trans [OF b s'(2), unfolded pas]
  have "pt_shrinks pt ps s (if do_free then phys ?f a (Suc (Suc n)) else []) s' (unmap_range ?f a (Suc (Suc n)))"
    by (rule pt_shrinks_cong) (use p1 page_idx_next [OF a] in \<open>auto simp: unmap_range_def\<close>)
  with step s'(1) show ?case by auto
qed

section \<open>Whole ranges\<close>

lemma pages_span:
  assumes "0 < sz" "unat va + unat sz \<le> 2 ^ 38"
  defines "n \<equiv> page_idx (va + sz - 1) - page_idx va"
  shows "PGROUNDDOWN (va + sz - 1) = PGROUNDDOWN va + of_nat (4096 * n)"
    and "unat (PGROUNDDOWN va) + 4096 * n < 2 ^ 38" and "page_idx va \<le> page_idx (va + sz - 1)"
proof -
  have sz: "0 < unat sz" using assms(1) by (simp add: word_less_nat_alt)
  have u: "unat (va + (sz - 1)) = unat va + (unat sz - 1)"
  proof -
    have "unat (sz - 1) = unat sz - 1" using assms(1) by (simp add: unat_minus_one word_neq_0_conv)
    then show ?thesis using assms(2) by (simp add: unat_word_ariths)
  qed
  then have u: "unat (va + sz - 1) = unat va + (unat sz - 1)" by (simp only: add_diff_eq)
  show le: "page_idx va \<le> page_idx (va + sz - 1)" unfolding page_idx_def u by (simp add: div_le_mono)
  then have i: "page_idx (va + sz - 1) = page_idx va + n" by (simp add: n_def)
  have "4096 * (page_idx va + n) \<le> unat va + (unat sz - 1)"
    unfolding i [symmetric] unfolding page_idx_def u by simp
  with assms(2) sz have b: "4096 * page_idx va + 4096 * n < 2 ^ 38" by (simp add: algebra_simps)
  have p: "unat (PGROUNDDOWN va) = 4096 * page_idx va" by (simp add: unat_PGROUND page_idx_def)
  with b show b': "unat (PGROUNDDOWN va) + 4096 * n < 2 ^ 38" by simp
  have "unat (PGROUNDDOWN va + of_nat (4096 * n)) = unat (PGROUNDDOWN va) + 4096 * n"
    using b' by (intro unat_run [of _ "4096 * n" "4096 * n"]) simp_all
  also have "\<dots> = unat (PGROUNDDOWN (va + sz - 1))"
    using p i unat_PGROUND [of "va + sz - 1"] by (simp add: page_idx_def [of "va + sz - 1"])
  finally show "PGROUNDDOWN (va + sz - 1) = PGROUNDDOWN va + of_nat (4096 * n)"
    by (simp add: word_unat_eq_iff del: of_nat_mult)
qed

lemma page_aligned_add: "page_aligned a \<Longrightarrow> page_aligned (a + of_nat (4096 * k))"
proof -
  have d: "(4096 :: nat) dvd 2 ^ 64" using le_imp_power_dvd [of 12 64 "2 :: nat"] by simp
  have al: "page_aligned b \<longleftrightarrow> 4096 dvd unat b" for b :: u64 by (simp add: page_aligned_unat dvd_eq_mod_eq_0)
  have "unat (of_nat (4096 * k) :: u64) = 4096 * k mod 2 ^ 64" by (simp add: unat_of_nat del: of_nat_mult)
  then have "4096 dvd unat (of_nat (4096 * k) :: u64)" using d by (simp add: dvd_mod del: of_nat_mult)
  then show "page_aligned a \<Longrightarrow> page_aligned (a + of_nat (4096 * k))"
    unfolding al unat_word_ariths using d by (auto intro!: dvd_mod)
qed

lemma page_idx_PGROUNDDOWN [simp]: "page_idx (PGROUNDDOWN va) = page_idx va"
  by (simp add: page_idx_def unat_PGROUND)

lemma map_range_PGROUNDDOWN: "map_range f (PGROUNDDOWN a) n pa perm = map_range f a n pa perm"
  "unmap_range f (PGROUNDDOWN a) n = unmap_range f a n"
  unfolding map_range_def unmap_range_def page_idx_PGROUNDDOWN by (rule refl)+

lemma mappages_spec:
  assumes "vm_inv ps pt s" "0 < sz" "unat va + unat sz \<le> 2 ^ 38"
    and "\<And>v. v < MAXVA \<Longrightarrow> page_idx va \<le> page_idx v \<Longrightarrow> page_idx v \<le> page_idx (va + sz - 1) \<Longrightarrow>
      pte_of (ram s) pt v AND PTE_V = 0"
  defines "n \<equiv> Suc (page_idx (va + sz - 1) - page_idx va)"
  shows "\<exists>r j ps' s'. mappages pt va sz pa perm s = Inr (r, s') \<and>
    pt_becomes pt ps s ps' s' (map_range (pte_of (ram s) pt) va j pa perm) \<and>
    (r = 0 \<and> j = n \<or> r = -1 \<and> j < n \<and> ps' = [] \<and> length ps < 2 * n)"
proof -
  note S = pages_span [OF assms(2,3)]
  have "pte_of (ram s) pt v AND PTE_V = 0" if "v < MAXVA" "page_idx (PGROUNDDOWN va) \<le> page_idx v"
    "page_idx v \<le> page_idx (PGROUNDDOWN va) + (page_idx (va + sz - 1) - page_idx va)" for v
    using assms(4) that S(3) by simp
  from mappages_from_spec [OF assms(1) page_aligned_PGROUNDDOWN S(2) this, of pa perm] show ?thesis
    unfolding mappages_def S(1) map_range_PGROUNDDOWN n_def less_Suc_eq_le .
qed

text \<open>A zeroed page is the empty page table.\<close>

lemma pt_zero:
  assumes "page_aligned p" "p \<noteq> 0" "\<And>i. i < 512 \<Longrightarrow> load64 m (pte_at p i) = 0"
  shows "pt_wf m p" and "tables m p = {p}" and "pte_of m p va = 0"
proof -
  have n: "node m p path = (if path = [] then Some p else None)" if "good_path path" for path
    using that assms(3) by (cases path) (auto simp: good_path_def entry_def)
  then show t: "tables m p = {p}" using tables_root [of p m] by (auto simp: tables_def split: if_splits)
  show "pt_wf m p"
    by (rule pt_wfI) (use t n assms in \<open>auto split: if_splits dest!: good_path_snoc\<close>)
  show "pte_of m p va = 0" using n [of "[PX 2 va, PX 1 va]"] by (simp add: pte_of_def del: node.simps)
qed

section \<open>Properties\<close>

text \<open>
  C8. \<open>mappages\<close> on a well-formed page table whose range is not mapped yet returns (no panic,
  no run-away loop). With 0 it has mapped exactly the pages that \<open>[va, va + sz)\<close> meets, the
  k-th to \<open>pa + 4096 k\<close> with the permissions, and every other address translates as before; -1
  is returned only with the free list used up, and never when two free pages per page of the
  range were there. The tables stay a tree of distinct non-free pages, and memory other than the
  tables and the pages taken from the free list is untouched. \<open>walkaddr\<close> finds a user mapping.
\<close>

theorem mappages_translates:
  assumes "vm_inv ps pt s" "0 < sz" "unat va + unat sz \<le> 2 ^ 38" "perm AND 0x3FF = perm"
    and "\<And>v. v < MAXVA \<Longrightarrow> page_idx va \<le> page_idx v \<Longrightarrow> page_idx v \<le> page_idx (va + sz - 1) \<Longrightarrow>
      pte_of (ram s) pt v AND PTE_V = 0"
  defines "n \<equiv> Suc (page_idx (va + sz - 1) - page_idx va)"
  shows "\<exists>r qs ps' s'. mappages pt va sz pa perm s = Inr (r, s') \<and> vm_inv ps' pt s' \<and> ps = qs @ ps' \<and>
    touches (tables (ram s) pt \<union> set qs) s s' \<and>
    (r = 0 \<and> (\<forall>v < MAXVA. pte_of (ram s') pt v = map_range (pte_of (ram s) pt) va n pa perm v) \<and>
       (page_aligned pa \<and> perm AND PTE_U \<noteq> 0 \<longrightarrow> (\<forall>v < MAXVA. page_idx va \<le> page_idx v \<and>
          page_idx v \<le> page_idx (va + sz - 1) \<longrightarrow>
          walkaddr pt v s' = Inr (pa + of_nat (4096 * (page_idx v - page_idx va))))) \<or>
     r = -1 \<and> ps' = [] \<and> length ps < 2 * n)"
proof -
  from mappages_spec [OF assms(1-3,5), of pa perm, folded n_def] obtain r j ps' s' where
    m: "mappages pt va sz pa perm s = Inr (r, s')"
    and b: "pt_becomes pt ps s ps' s' (map_range (pte_of (ram s) pt) va j pa perm)"
    and r: "r = 0 \<and> j = n \<or> r = -1 \<and> j < n \<and> ps' = [] \<and> length ps < 2 * n"
    by blast
  from b obtain qs where q: "vm_inv ps' pt s'" "ps = qs @ ps'" "touches (tables (ram s) pt \<union> set qs) s s'"
    and pte: "\<And>v. v < MAXVA \<Longrightarrow> pte_of (ram s') pt v = map_range (pte_of (ram s) pt) va j pa perm v"
    by (auto simp: pt_becomes_def)
  have wa: "walkaddr pt v s' = Inr (pa + of_nat (4096 * (page_idx v - page_idx va)))"
    if "r = 0" "page_aligned pa" "perm AND PTE_U \<noteq> 0" "v < MAXVA" "page_idx va \<le> page_idx v"
      "page_idx v \<le> page_idx (va + sz - 1)" for v
  proof -
    let ?pa = "pa + of_nat (4096 * (page_idx v - page_idx va))"
    have e: "pte_of (ram s') pt v = PA2PTE ?pa OR (perm OR PTE_V)"
      using that r pte [OF that(4)] by (auto simp: map_range_def n_def ac_simps)
    have f: "(perm OR PTE_V) AND 0x3FF = perm OR PTE_V"
      using assms(4) by (simp add: and.assoc bit.conj_disj_distrib2)
    have pal: "page_aligned ?pa"
      using that(2) by (rule page_aligned_add)
    have "pte_of (ram s') pt v AND PTE_V \<noteq> 0" "pte_of (ram s') pt v AND PTE_U \<noteq> 0"
      unfolding e using PA2PTE_OR_AND [OF f, of PTE_V ?pa] PA2PTE_OR_AND [OF f, of PTE_U ?pa] that(3)
      by (auto simp: bit.conj_disj_distrib2)
    then show ?thesis
      using q(1) that(4) PTE2PA_PA2PTE [OF pal f] walkaddr_eq [of s' pt v] by (simp add: vm_inv_def e)
  qed
  show ?thesis
    by (rule exI [of _ r], rule exI [of _ qs], rule exI [of _ ps'], rule exI [of _ s'])
      (use m q r pte wa in auto)
qed

text \<open>An empty page table at 0x80030000 and two free pages.\<close>

definition vm_example :: kmem where
  "vm_example = \<lparr>held = {}, ram = store64 (\<lambda>_. 0) 0x80031000 0x80032000, freelist = 0x80031000,
     kend = 0x80021000\<rparr>"

lemma load64_zero: "load64 (\<lambda>_. 0) a = 0"
  by (simp add: load64_def load_bytes_def numeral_eq_Suc)

lemma vm_example_pte: "i < 512 \<Longrightarrow> load64 (ram vm_example) (pte_at 0x80030000 i) = 0"
  using load64_pte_store [of "0x80030000" "0x80031000" i 0 "\<lambda>_. 0" "0x80032000"]
  by (simp add: vm_example_def page_aligned_def load64_zero pte_at_def)

lemma vm_example_table:
  shows "pt_wf (ram vm_example) 0x80030000" and "tables (ram vm_example) 0x80030000 = {0x80030000}"
    and "pte_of (ram vm_example) 0x80030000 va = 0"
  using pt_zero [OF _ _ vm_example_pte] by (simp_all add: page_aligned_def)

lemma vm_example_inv: "vm_inv [0x80031000, 0x80032000] 0x80030000 vm_example"
proof -
  have "load64 (store64 (\<lambda>_. 0) 0x80031000 0x80032000) 0x80032000 = 0"
    using load64_pte_store [of "0x80032000" "0x80031000" 0 0 "\<lambda>_. 0" "0x80032000"]
    by (simp add: page_aligned_def load64_zero pte_at_def)
  then have "free_pages [0x80031000, 0x80032000] vm_example"
    by (simp add: vm_example_def free_pages_def kmem_inv_def allocatable_def page_aligned_def)
  then show ?thesis using vm_example_table by (simp add: vm_inv_def)
qed

theorem mappages_translates_witness:
  "\<exists>s'. mappages 0x80030000 0x5000 0x1000 0x80033000 (PTE_R OR PTE_U) vm_example = Inr (0, s') \<and>
     walkaddr 0x80030000 0x5008 s' = Inr 0x80033000 \<and> pte_of (ram s') 0x80030000 0x6000 = 0"
proof -
  have "\<And>v. v < MAXVA \<Longrightarrow> page_idx 0x5000 \<le> page_idx v \<Longrightarrow> page_idx v \<le> page_idx (0x5000 + 0x1000 - 1) \<Longrightarrow>
      pte_of (ram vm_example) 0x80030000 v AND PTE_V = 0"
    using vm_example_table(3) by simp
  with mappages_translates [where va = "0x5000" and sz = "0x1000" and perm = "PTE_R OR PTE_U" and pa = "0x80033000",
      OF vm_example_inv]
  obtain r qs ps' s' where m: "mappages 0x80030000 0x5000 0x1000 0x80033000 (PTE_R OR PTE_U) vm_example = Inr (r, s')"
    and r: "r = 0 \<and> (\<forall>v < MAXVA. pte_of (ram s') 0x80030000 v =
        map_range (pte_of (ram vm_example) 0x80030000) 0x5000 1 0x80033000 (PTE_R OR PTE_U) v) \<and>
      (\<forall>v < MAXVA. page_idx v = 5 \<longrightarrow> walkaddr 0x80030000 v s' = Inr 0x80033000)"
    by (auto simp: page_idx_def page_aligned_def)
  from r have "walkaddr 0x80030000 0x5008 s' = Inr 0x80033000" by (simp add: page_idx_def)
  moreover from r have "pte_of (ram s') 0x80030000 0x6000 = 0"
    using vm_example_table(3) by (simp add: map_range_def page_idx_def)
  ultimately show ?thesis using m r by auto
qed

text \<open>
  C9. \<open>uvmunmap\<close> of a range whose pages are all mapped by leaf entries returns. Afterwards
  exactly the pages of the range have no translation, all others translate as before, the tables
  are the same pages, and with \<open>do_free\<close> the physical pages of the range are on the free list
  (the last one first) - provided each of them was an allocatable page that was neither free nor a
  table, and no page occurs twice. Only the tables and the freed pages are written.
\<close>

theorem uvmunmap_frees:
  fixes do_free :: bool
  assumes "vm_inv ps pt s" "0 < sz" "unat va + unat sz \<le> 2 ^ 38"
    and "\<And>v. v < MAXVA \<Longrightarrow> page_idx va \<le> page_idx v \<Longrightarrow> page_idx v \<le> page_idx (va + sz - 1) \<Longrightarrow>
      pte_of (ram s) pt v AND PTE_V \<noteq> 0 \<and> PTE_FLAGS (pte_of (ram s) pt v) \<noteq> PTE_V"
  defines "n \<equiv> Suc (page_idx (va + sz - 1) - page_idx va)"
  defines "pas \<equiv> if do_free then phys (pte_of (ram s) pt) (PGROUNDDOWN va) n else []"
  assumes "freeable pas ps pt s"
  shows "\<exists>s'. uvmunmap pt va sz do_free s = Inr s' \<and> vm_inv (rev pas @ ps) pt s' \<and>
    tables (ram s') pt = tables (ram s) pt \<and> touches (tables (ram s) pt \<union> set pas) s s' \<and>
    (\<forall>v < MAXVA. pte_of (ram s') pt v = unmap_range (pte_of (ram s) pt) va n v)"
proof -
  note S = pages_span [OF assms(2,3)]
  have "pte_of (ram s) pt v AND PTE_V \<noteq> 0 \<and> PTE_FLAGS (pte_of (ram s) pt v) \<noteq> PTE_V"
    if "v < MAXVA" "page_idx (PGROUNDDOWN va) \<le> page_idx v"
      "page_idx v \<le> page_idx (PGROUNDDOWN va) + (page_idx (va + sz - 1) - page_idx va)" for v
    using assms(4) that S(3) by simp
  from uvmunmap_from_spec [OF assms(1) page_aligned_PGROUNDDOWN S(2) this, of do_free]
  have "\<exists>s'. uvmunmap pt va sz do_free s = Inr s' \<and>
      pt_shrinks pt ps s pas s' (unmap_range (pte_of (ram s) pt) va n)"
    using assms(7) unfolding uvmunmap_def S(1) map_range_PGROUNDDOWN pas_def n_def by fastforce
  then show ?thesis unfolding pt_shrinks_def by blast
qed

theorem uvmunmap_frees_witness:
  "\<exists>(s :: kmem) ps s'. vm_inv ps 0x80030000 s \<and> uvmunmap 0x80030000 0x5000 0x1000 True s = Inr s' \<and>
     vm_inv (0x80033000 # ps) 0x80030000 s' \<and> pte_of (ram s') 0x80030000 0x5000 = 0"
proof -
  let ?pt = "0x80030000 :: u64" and ?f = "pte_of (ram vm_example) 0x80030000"
  have "\<And>v. v < MAXVA \<Longrightarrow> page_idx 0x5000 \<le> page_idx v \<Longrightarrow> page_idx v \<le> page_idx (0x5000 + 0x1000 - 1) \<Longrightarrow>
      ?f v AND PTE_V = 0" using vm_example_table(3) by simp
  with mappages_spec [where va = "0x5000" and sz = "0x1000" and perm = "PTE_R OR PTE_U" and pa = "0x80033000",
      OF vm_example_inv] obtain ps s where
    b: "pt_becomes ?pt [0x80031000, 0x80032000] vm_example ps s (map_range ?f 0x5000 1 0x80033000 (PTE_R OR PTE_U))"
    by (auto simp: page_idx_def)
  then obtain qs where inv: "vm_inv ps ?pt s" and qs: "[0x80031000, 0x80032000] = qs @ ps"
    "tables (ram s) ?pt = {?pt} \<union> set qs" "touches ({?pt} \<union> set qs) vm_example s"
    and pte: "\<And>v. v < MAXVA \<Longrightarrow> pte_of (ram s) ?pt v = map_range ?f 0x5000 1 0x80033000 (PTE_R OR PTE_U) v"
    unfolding pt_becomes_def vm_example_table(2) by blast
  have e: "pte_of (ram s) ?pt v = 0x2000CC13" if "v < MAXVA" "page_idx v = 5" for v
    using pte [OF that(1)] that(2) by (simp add: map_range_def page_idx_def [of "0x5000"] PA2PTE_def)
  have "set qs \<union> set ps = {0x80031000, 0x80032000}" using qs(1) by (metis list.simps(15) set_append empty_set)
  then have "set ps \<subseteq> {0x80031000, 0x80032000}" "set qs \<subseteq> {0x80031000, 0x80032000}" by blast+
  then have "0x80033000 \<notin> set ps" "0x80033000 \<notin> set qs" by auto
  moreover have "kend s = 0x80021000" using qs(3) by (simp add: touches_def same_rest_def vm_example_def)
  ultimately have "freeable [0x80033000] ps ?pt s"
    using qs(2) by (simp add: freeable_def allocatable_def page_aligned_def)
  moreover have "phys (pte_of (ram s) ?pt) 0x5000 1 = [0x80033000]"
    using e [of "0x5000"] by (simp add: phys_def PTE2PA_def page_idx_def)
  ultimately obtain s' where "uvmunmap ?pt 0x5000 0x1000 True s = Inr s'" "vm_inv (0x80033000 # ps) ?pt s'"
      and u: "(\<forall>v < MAXVA. pte_of (ram s') ?pt v = unmap_range (pte_of (ram s) ?pt) 0x5000 1 v)"
    using uvmunmap_frees [OF inv, of "0x1000" "0x5000" True] e
    by (auto simp: page_idx_def [of "0x5000"] page_idx_def [of "0x5FFF"] PTE_FLAGS_def PGROUNDDOWN_def)
  moreover have "pte_of (ram s') ?pt 0x5000 = 0" using u by (simp add: unmap_range_def)
  ultimately show ?thesis using inv by blast
qed

end
