(* ===== verification/Vm.thy ===== *)
theory Vm
  imports Pagetable
begin

unbundle bit_operations_syntax

text \<open>
  User address spaces, the rest of kernel/vm.c: allocating, copying and freeing user memory,
  and \<open>copyout\<close>, \<open>copyin\<close> and \<open>copyinstr\<close>, which move bytes across the user boundary; the
  kernel's own direct map.
\<close>

section \<open>User address spaces\<close>

definition uvmcreate :: "'a kmem_scheme \<Rightarrow> (u64 \<times> 'a kmem_scheme) result" where
  "uvmcreate s = bnd (kalloc s) (\<lambda>(pagetable, s).
     if pagetable = 0 then Inl (Panic ''uvmcreate: out of memory'')
     else Inr (pagetable, s\<lparr>ram := memset (ram s) pagetable 0 4096\<rparr>))"

definition uvminit :: "u64 \<Rightarrow> u8 list \<Rightarrow> 'a kmem_scheme \<Rightarrow> 'a kmem_scheme result" where
  "uvminit pagetable src s =
     (if length src \<ge> 4096 then Inl (Panic ''inituvm: more than a page'')
      else bnd (kalloc s) (\<lambda>(mem, s).
        let s = s\<lparr>ram := memset (ram s) mem 0 4096\<rparr> in
        bnd (mappages pagetable 0 PGSIZE mem (PTE_W OR PTE_R OR PTE_X OR PTE_U) s) (\<lambda>(_, s).
          Inr (s\<lparr>ram := store_bytes (ram s) mem src\<rparr>))))"

definition uvmdealloc ::
  "u64 \<Rightarrow> u64 \<Rightarrow> u64 \<Rightarrow> 'a kmem_scheme \<Rightarrow> (u64 \<times> 'a kmem_scheme) result" where
  "uvmdealloc pagetable oldsz newsz s =
     (if newsz \<ge> oldsz then Inr (oldsz, s)
      else let newup = PGROUNDUP newsz in
        bnd (if newup < PGROUNDUP oldsz then uvmunmap pagetable newup (oldsz - newup) True s
             else Inr s) (\<lambda>s. Inr (newsz, s)))"

lemma mappages_MAXVA:
  "mappages pagetable a sz pa perm s = Inr r \<Longrightarrow> PGROUNDDOWN a < MAXVA"
  unfolding mappages_def by (subst (asm) mappages_from.simps) (auto simp: bnd_Inr_iff dest: walk_MAXVA)

lemma PGROUNDDOWN_below:
  assumes "PGROUNDDOWN a < MAXVA"
  shows "unat (a + PGSIZE) = unat a + 4096" and "unat a < 2 ^ 38 + 4096"
proof -
  have "unat a div 4096 * 4096 < 2 ^ 38" using assms by (simp add: word_less_nat_alt unat_PGROUND)
  with div_mult_mod_eq [of "unat a" 4096] mod_less_divisor [of 4096 "unat a"]
  show *: "unat a < 2 ^ 38 + 4096" by linarith
  then show "unat (a + PGSIZE) = unat a + 4096"
    by (intro unat_run [of a 4096 4096, simplified]) simp
qed

function uvmalloc_from ::
  "u64 \<Rightarrow> u64 \<Rightarrow> u64 \<Rightarrow> u64 \<Rightarrow> 'a kmem_scheme \<Rightarrow> (u64 \<times> 'a kmem_scheme) result" where
  "uvmalloc_from pagetable a oldsz newsz s =
     (if a < newsz then
        bnd (kalloc s) (\<lambda>(mem, s).
          if mem = 0 then bnd (uvmdealloc pagetable a oldsz s) (\<lambda>(_, s). Inr (0, s))
          else let s = s\<lparr>ram := memset (ram s) mem 0 4096\<rparr> in
            bnd (mappages pagetable a PGSIZE mem (PTE_W OR PTE_X OR PTE_R OR PTE_U) s) (\<lambda>(r, s).
              if r \<noteq> 0
              then bnd (kfree mem s) (\<lambda>s.
                     bnd (uvmdealloc pagetable a oldsz s) (\<lambda>(_, s). Inr (0, s)))
              else uvmalloc_from pagetable (a + PGSIZE) oldsz newsz s))
      else Inr (newsz, s))"
  by pat_completeness auto
termination
proof (relation "measure (\<lambda>(_, a, _). 2 ^ 39 - unat a)", goal_cases)
  case (2 pagetable a oldsz newsz s x mem s1 s2 y r s3)
  then have "PGROUNDDOWN a < MAXVA" by (auto dest: mappages_MAXVA)
  then show ?case using PGROUNDDOWN_below [of a] by simp
qed simp

declare uvmalloc_from.simps [simp del]

definition uvmalloc ::
  "u64 \<Rightarrow> u64 \<Rightarrow> u64 \<Rightarrow> 'a kmem_scheme \<Rightarrow> (u64 \<times> 'a kmem_scheme) result" where
  "uvmalloc pagetable oldsz newsz s =
     (if newsz < oldsz then Inr (oldsz, s)
      else let oldsz = PGROUNDUP oldsz in uvmalloc_from pagetable oldsz oldsz newsz s)"

text \<open>
  \<open>freewalk\<close> follows the table pointers in memory, so in an arbitrary memory its recursion
  need not end; \<open>depth\<close> bounds it. Three levels are enough for a page table of \<open>walk\<close>.
\<close>

fun freewalk :: "nat \<Rightarrow> u64 \<Rightarrow> 'a kmem_scheme \<Rightarrow> 'a kmem_scheme result" and
  freewalk_entries :: "nat \<Rightarrow> nat \<Rightarrow> u64 \<Rightarrow> 'a kmem_scheme \<Rightarrow> 'a kmem_scheme result" where
  "freewalk 0 pagetable s = Inl NoFuel"
| "freewalk (Suc depth) pagetable s =
     bnd (freewalk_entries depth 512 pagetable s) (\<lambda>s. kfree pagetable s)"
| "freewalk_entries depth 0 pagetable s = Inr s"
| "freewalk_entries depth (Suc n) pagetable s =
     (let i = 511 - n; a = pte_at pagetable i; pte = load64 (ram s) a in
      if pte AND PTE_V \<noteq> 0 \<and> pte AND (PTE_R OR PTE_W OR PTE_X) = 0 then
        bnd (freewalk depth (PTE2PA pte) s) (\<lambda>s.
          freewalk_entries depth n pagetable (s\<lparr>ram := store64 (ram s) a 0\<rparr>))
      else if pte AND PTE_V \<noteq> 0 then Inl (Panic ''freewalk: leaf'')
      else freewalk_entries depth n pagetable s)"

definition uvmfree :: "u64 \<Rightarrow> u64 \<Rightarrow> 'a kmem_scheme \<Rightarrow> 'a kmem_scheme result" where
  "uvmfree pagetable sz s =
     bnd (uvmunmap pagetable 0 sz True s) (\<lambda>s. freewalk 3 pagetable s)"

function uvmcopy_from ::
  "u64 \<Rightarrow> u64 \<Rightarrow> u64 \<Rightarrow> u64 \<Rightarrow> 'a kmem_scheme \<Rightarrow> (int \<times> 'a kmem_scheme) result" where
  "uvmcopy_from old new i sz s =
     (if i < sz then
        bnd (walk old i False s) (\<lambda>(pte, s).
          if pte = 0 then Inl (Panic ''uvmcopy: pte should exist'')
          else if load64 (ram s) pte AND PTE_V = 0 then Inl (Panic ''uvmcopy: page not present'')
          else let pa = PTE2PA (load64 (ram s) pte); flags = PTE_FLAGS (load64 (ram s) pte) in
            bnd (kalloc s) (\<lambda>(mem, s).
              if mem = 0 then bnd (uvmunmap new 0 i True s) (\<lambda>s. Inr (-1, s))
              else let s = s\<lparr>ram := memmove (ram s) mem pa 4096\<rparr> in
                bnd (mappages new i PGSIZE mem flags s) (\<lambda>(r, s).
                  if r \<noteq> 0
                  then bnd (kfree mem s) (\<lambda>s. bnd (uvmunmap new 0 i True s) (\<lambda>s. Inr (-1, s)))
                  else uvmcopy_from old new (i + PGSIZE) sz s)))
      else Inr (0, s))"
  by pat_completeness auto
termination
proof (relation "measure (\<lambda>(_, _, i, _). 2 ^ 39 - unat i)", goal_cases)
  case (2 old new i)
  then have "i < MAXVA" by (auto dest: walk_MAXVA)
  then show ?case using unat_below_MAXVA [of i] by (simp add: word_less_nat_alt)
qed simp

declare uvmcopy_from.simps [simp del]

definition uvmcopy ::
  "u64 \<Rightarrow> u64 \<Rightarrow> u64 \<Rightarrow> 'a kmem_scheme \<Rightarrow> (int \<times> 'a kmem_scheme) result" where
  "uvmcopy old new sz s = uvmcopy_from old new 0 sz s"

definition uvmclear :: "u64 \<Rightarrow> u64 \<Rightarrow> 'a kmem_scheme \<Rightarrow> 'a kmem_scheme result" where
  "uvmclear pagetable va s =
     bnd (walk pagetable va False s) (\<lambda>(pte, s).
       if pte = 0 then Inl (Panic ''uvmclear'')
       else Inr (s\<lparr>ram := store64 (ram s) pte (load64 (ram s) pte AND NOT PTE_U)\<rparr>))"

section \<open>Moving data across the user boundary\<close>

definition chunk :: "u64 \<Rightarrow> nat \<Rightarrow> nat" where
  "chunk va len = min (unat (PGSIZE - (va - PGROUNDDOWN va))) len"

lemma unat_page_off: "unat (va - PGROUNDDOWN va) = unat va mod 4096"
proof -
  have "PGROUNDDOWN va \<le> va" by (simp add: word_le_nat_alt unat_PGROUND)
  then have "unat (va - PGROUNDDOWN va) = unat va - unat (PGROUNDDOWN va)"
    by (rule unat_sub)
  then show ?thesis by (simp add: unat_PGROUND minus_mult_div_eq_mod [symmetric])
qed

lemma unat_page_rest: "unat (PGSIZE - (va - PGROUNDDOWN va)) = 4096 - unat va mod 4096"
proof -
  have "va - PGROUNDDOWN va \<le> PGSIZE"
    using mod_less_divisor [of 4096 "unat va"] by (simp add: word_le_nat_alt unat_page_off)
  then show ?thesis by (simp add: unat_sub unat_page_off)
qed

lemma chunk_eq: "chunk va len = min (4096 - unat va mod 4096) len"
  by (simp add: chunk_def unat_page_rest)

lemma chunk_pos [simp]: "0 < chunk va len \<longleftrightarrow> 0 < len"
  using mod_less_divisor [of 4096 "unat va"] by (auto simp: chunk_eq)

lemma chunk_le [simp]: "chunk va len \<le> len" "\<not> len < chunk va len"
  by (simp_all add: chunk_eq)

text \<open>The kernel buffer is a list: \<open>src\<close> is the rest of the bytes still to be copied.\<close>

function copyout :: "u64 \<Rightarrow> u64 \<Rightarrow> u8 list \<Rightarrow> 'a kmem_scheme \<Rightarrow> (int \<times> 'a kmem_scheme) result" where
  "copyout pagetable dstva src s =
     (if length src > 0 then
        let va0 = PGROUNDDOWN dstva in
        bnd (walkaddr pagetable va0 s) (\<lambda>pa0.
          if pa0 = 0 then Inr (-1, s)
          else let n = chunk dstva (length src);
                   s = s\<lparr>ram := store_bytes (ram s) (pa0 + (dstva - va0)) (take n src)\<rparr>
               in copyout pagetable (va0 + PGSIZE) (drop n src) s)
      else Inr (0, s))"
  by pat_completeness auto
termination
  by (relation "measure (\<lambda>(_, _, src, _). length src)") auto

declare copyout.simps [simp del]

function copyin :: "u64 \<Rightarrow> u64 \<Rightarrow> nat \<Rightarrow> 'a kmem_scheme \<Rightarrow> (int \<times> u8 list) result" where
  "copyin pagetable srcva len s =
     (if len > 0 then
        let va0 = PGROUNDDOWN srcva in
        bnd (walkaddr pagetable va0 s) (\<lambda>pa0.
          if pa0 = 0 then Inr (-1, [])
          else let n = chunk srcva len;
                   dst = load_bytes (ram s) (pa0 + (srcva - va0)) n
               in bnd (copyin pagetable (va0 + PGSIZE) (len - n) s) (\<lambda>(r, rest).
                    Inr (r, dst @ rest)))
      else Inr (0, []))"
  by pat_completeness auto
termination
  by (relation "measure (\<lambda>(_, _, len, _). len)") auto

declare copyin.simps [simp del]

text \<open>
  The inner loop of \<open>copyinstr\<close>: the bytes it writes to \<open>dst\<close> from a page with \<open>n\<close> bytes
  left to look at, and whether it met the NUL (which it writes, too).
\<close>

fun copyinstr_page :: "mem \<Rightarrow> u64 \<Rightarrow> nat \<Rightarrow> u8 list \<times> bool" where
  "copyinstr_page m p 0 = ([], False)"
| "copyinstr_page m p (Suc n) =
     (if m p = 0 then ([0], True)
      else let (dst, got_null) = copyinstr_page m (p + 1) n in (m p # dst, got_null))"

function copyinstr :: "u64 \<Rightarrow> u64 \<Rightarrow> nat \<Rightarrow> 'a kmem_scheme \<Rightarrow> (int \<times> u8 list) result" where
  "copyinstr pagetable srcva mx s =
     (if mx > 0 then
        let va0 = PGROUNDDOWN srcva in
        bnd (walkaddr pagetable va0 s) (\<lambda>pa0.
          if pa0 = 0 then Inr (-1, [])
          else let n = chunk srcva mx;
                   (dst, got_null) = copyinstr_page (ram s) (pa0 + (srcva - va0)) n
               in if got_null then Inr (0, dst)
                  else bnd (copyinstr pagetable (va0 + PGSIZE) (mx - n) s) (\<lambda>(r, rest).
                    Inr (r, dst @ rest)))
      else Inr (-1, []))"
  by pat_completeness auto
termination
  by (relation "measure (\<lambda>(_, _, mx, _). mx)") auto

declare copyinstr.simps [simp del]

section \<open>The kernel's own page table\<close>

text \<open>\<open>etext\<close> and \<open>trampoline\<close> are addresses the linker script provides.\<close>

record kvm = kmem +
  kernel_pagetable :: u64
  satp :: u64
  etext :: u64
  trampoline :: u64

definition kvmmap ::
  "u64 \<Rightarrow> u64 \<Rightarrow> u64 \<Rightarrow> u64 \<Rightarrow> 'a kvm_scheme \<Rightarrow> 'a kvm_scheme result" where
  "kvmmap va pa sz perm s =
     bnd (mappages (kernel_pagetable s) va sz pa perm s) (\<lambda>(r, s).
       if r \<noteq> 0 then Inl (Panic ''kvmmap'') else Inr s)"

definition kvmpa :: "u64 \<Rightarrow> 'a kvm_scheme \<Rightarrow> u64 result" where
  "kvmpa va s =
     bnd (walk (kernel_pagetable s) va False s) (\<lambda>(pte, s).
       if pte = 0 then Inl (Panic ''kvmpa'')
       else if load64 (ram s) pte AND PTE_V = 0 then Inl (Panic ''kvmpa'')
       else Inr (PTE2PA (load64 (ram s) pte) + va mod PGSIZE))"

definition kvminit :: "'a kvm_scheme \<Rightarrow> 'a kvm_scheme result" where
  "kvminit s =
     bnd (kalloc s) (\<lambda>(pt, s).
     let s = s\<lparr>kernel_pagetable := pt, ram := memset (ram s) pt 0 4096\<rparr> in
     bnd (kvmmap 0x10000000 0x10000000 PGSIZE (PTE_R OR PTE_W) s) (\<lambda>s.
     bnd (kvmmap 0x10001000 0x10001000 PGSIZE (PTE_R OR PTE_W) s) (\<lambda>s.
     bnd (kvmmap 0x2000000 0x2000000 0x10000 (PTE_R OR PTE_W) s) (\<lambda>s.
     bnd (kvmmap 0x0c000000 0x0c000000 0x400000 (PTE_R OR PTE_W) s) (\<lambda>s.
     bnd (kvmmap KERNBASE KERNBASE (etext s - KERNBASE) (PTE_R OR PTE_X) s) (\<lambda>s.
     bnd (kvmmap (etext s) (etext s) (PHYSTOP - etext s) (PTE_R OR PTE_W) s) (\<lambda>s.
     kvmmap TRAMPOLINE (trampoline s) PGSIZE (PTE_R OR PTE_X) s)))))))"

definition kvminithart :: "'a kvm_scheme \<Rightarrow> 'a kvm_scheme" where
  "kvminithart s = s\<lparr>satp := push_bit 60 8 OR drop_bit 12 (kernel_pagetable s)\<rparr>"

section \<open>User memory\<close>

text \<open>
  The physical page that backs user address \<open>va\<close> (0: none), and the byte a user program
  reads there.
\<close>

definition uaddr :: "mem \<Rightarrow> u64 \<Rightarrow> u64 \<Rightarrow> u64" where
  "uaddr m pt va = (if va < MAXVA \<and> pte_of m pt va AND PTE_V \<noteq> 0 \<and> pte_of m pt va AND PTE_U \<noteq> 0
     then PTE2PA (pte_of m pt va) else 0)"

definition umem :: "mem \<Rightarrow> u64 \<Rightarrow> u64 \<Rightarrow> u8 option" where
  "umem m pt va = (if uaddr m pt va = 0 then None
     else Some (m (uaddr m pt va + of_nat (unat va mod 4096))))"

text \<open>User pages are not tables, and no two user pages share a physical page.\<close>

definition user_wf :: "mem \<Rightarrow> u64 \<Rightarrow> bool" where
  "user_wf m pt \<longleftrightarrow> (\<forall>va. uaddr m pt va \<notin> tables m pt) \<and>
     (\<forall>va va'. uaddr m pt va \<noteq> 0 \<longrightarrow> uaddr m pt va' = uaddr m pt va \<longrightarrow> page_idx va' = page_idx va)"

lemma user_wfD:
  assumes "user_wf m pt"
  shows "uaddr m pt va \<notin> tables m pt"
    and "uaddr m pt va \<noteq> 0 \<Longrightarrow> uaddr m pt va' = uaddr m pt va \<Longrightarrow> page_idx va' = page_idx va"
  using assms unfolding user_wf_def by blast+

lemma walkaddr_uaddr: "pt_wf (ram s) pt \<Longrightarrow> walkaddr pt va s = Inr (uaddr (ram s) pt va)"
  by (simp add: walkaddr_eq uaddr_def)

lemma page_aligned_PTE2PA [simp]: "page_aligned (PTE2PA x)"
proof -
  have "PTE2PA x = PGROUNDDOWN (PTE2PA x)"
    by (auto simp: PTE2PA_def PGROUNDDOWN_eq bit_eq_iff bit_simps)
  then show ?thesis using page_aligned_PGROUNDDOWN by metis
qed

lemma page_aligned_uaddr [simp]: "page_aligned (uaddr m pt va)"
  by (simp add: uaddr_def) (simp add: page_aligned_def)

lemma below_MAXVA_page: "va < MAXVA \<longleftrightarrow> page_idx va < 2 ^ 26"
  by (simp add: page_idx_def word_less_nat_alt div_less_iff_less_mult)

lemma uaddr_page: "page_idx a = page_idx b \<Longrightarrow> uaddr m pt a = uaddr m pt b"
  using pte_of_page [of a b m pt] by (simp add: uaddr_def below_MAXVA_page)

lemma PGROUNDDOWN_page: "page_idx a = page_idx b \<Longrightarrow> PGROUNDDOWN a = PGROUNDDOWN b"
  by (simp add: page_idx_def word_unat_eq_iff unat_PGROUND)

lemma page_off_eq: "va - PGROUNDDOWN va = of_nat (unat va mod 4096)"
  by (simp add: word_unat_eq_iff unat_page_off unat_of_nat)

lemma unat_in_page:
  assumes "unat va mod 4096 + k < 4096"
  shows "unat (va + of_nat k) = unat va + k" and "page_idx (va + of_nat k) = page_idx va"
    and "unat (va + of_nat k) mod 4096 = unat va mod 4096 + k"
proof -
  define q r where "q = unat va div 4096" and "r = unat va mod 4096"
  have "q < 2 ^ 52" using unat_lt64 [of va] by (simp add: q_def div_less_iff_less_mult)
  moreover have "unat va = q * 4096 + r" "r + k < 4096" using assms by (simp_all add: q_def r_def)
  ultimately have "unat va + k < 2 ^ 64" by simp
  then show u: "unat (va + of_nat k) = unat va + k"
    by (intro unat_run [of va k k]) simp_all
  have "unat va + k = unat va div 4096 * 4096 + (unat va mod 4096 + k)" by simp
  then have "(unat va + k) div 4096 = unat va div 4096" "(unat va + k) mod 4096 = unat va mod 4096 + k"
    using assms by (simp_all only: div_mult_self3 mod_mult_self3) simp_all
  then show "page_idx (va + of_nat k) = page_idx va" "unat (va + of_nat k) mod 4096 = unat va mod 4096 + k"
    by (simp_all add: page_idx_def u)
qed

lemma user_store:
  fixes bs :: "u8 list"
  assumes wf: "pt_wf m pt" "user_wf m pt" and va: "uaddr m pt va \<noteq> 0" and len: "unat va mod 4096 + length bs \<le> 4096"
  defines "m' \<equiv> store_bytes m (uaddr m pt va + of_nat (unat va mod 4096)) bs"
  shows "pt_wf m' pt" and "user_wf m' pt" and "tables m' pt = tables m pt" and "uaddr m' pt v = uaddr m pt v"
    and "umem m' pt v = (if unat (v - va) < length bs then Some (bs ! unat (v - va)) else umem m pt v)"
    and "pgno x \<noteq> pgno (uaddr m pt va) \<Longrightarrow> m' x = m x"
proof -
  let ?p = "uaddr m pt va" and ?o = "unat va mod 4096"
  have hit: "pgno x = pgno ?p" if "unat (x - (?p + of_nat ?o)) < length bs" for x
  proof -
    have "x = ?p + of_nat (?o + unat (x - (?p + of_nat ?o)))" by simp
    moreover have "pgno (?p + of_nat (?o + unat (x - (?p + of_nat ?o)))) = pgno ?p"
      using that len by (intro pgno_aligned_offset) auto
    ultimately show ?thesis by simp
  qed
  then show fr: "pgno x \<noteq> pgno ?p \<Longrightarrow> m' x = m x" for x
    by (auto simp: m'_def store_bytes_def)
  have pt: "m' x = m x" if "t \<in> tables m pt" "pgno x = pgno t" for x t
  proof -
    have "t \<noteq> ?p" "page_aligned t" using that pt_wfD(1) [OF wf(1)] user_wfD(1) [OF wf(2)] by blast+
    then show ?thesis using fr that(2) page_eqI page_aligned_uaddr by metis
  qed
  show "pt_wf m' pt" using wf(1) pt by (rule pt_frame)
  show tb: "tables m' pt = tables m pt" using wf(1) pt by (rule pt_frame)
  have "pte_of m' pt v = pte_of m pt v" for v using wf(1) pt by (rule pt_frame)
  then have ua: "uaddr m' pt v = uaddr m pt v" for v by (simp add: uaddr_def)
  then show "uaddr m' pt v = uaddr m pt v" .
  show "user_wf m' pt" using wf(2) unfolding user_wf_def ua tb .
  have same: "page_idx v = page_idx va \<and> unat v mod 4096 = ?o + unat (v - va)" if "unat (v - va) < length bs"
    using unat_in_page(2,3) [of va "unat (v - va)"] that len by simp
  show "umem m' pt v = (if unat (v - va) < length bs then Some (bs ! unat (v - va)) else umem m pt v)"
  proof (cases "page_idx v = page_idx va")
    case True
    then have "uaddr m pt v = ?p" by (rule uaddr_page)
    moreover have "v - va = of_nat (unat v mod 4096) - of_nat ?o"
      using PGROUNDDOWN_page [OF True] by (simp flip: page_off_eq)
    ultimately have "uaddr m pt v = ?p" "uaddr m pt v + of_nat (unat v mod 4096) - (?p + of_nat ?o) = v - va"
      by simp_all
    then show ?thesis using va
      unfolding umem_def ua unfolding m'_def store_bytes_def by simp
  next
    case False
    then have n: "\<not> unat (v - va) < length bs" using same by blast
    show ?thesis
    proof (cases "uaddr m pt v = 0")
      case True
      with n show ?thesis by (simp add: umem_def ua)
    next
      case nz: False
      have "uaddr m pt v \<noteq> ?p" using user_wfD(2) [OF wf(2) va] False by blast
      then have "pgno (uaddr m pt v + of_nat (unat v mod 4096)) \<noteq> pgno ?p"
        using pgno_aligned_offset(1) [of "uaddr m pt v" "unat v mod 4096"] page_eqI page_aligned_uaddr
        by (metis mod_less_divisor zero_less_numeral)
      with fr n nz show ?thesis by (simp add: umem_def ua)
    qed
  qed
qed

subsection \<open>Byte-by-byte reference\<close>

fun uload :: "mem \<Rightarrow> u64 \<Rightarrow> u64 \<Rightarrow> nat \<Rightarrow> u8 list option" where
  "uload m pt va 0 = Some []"
| "uload m pt va (Suc n) = (case umem m pt va of None \<Rightarrow> None
     | Some b \<Rightarrow> map_option ((#) b) (uload m pt (va + 1) n))"

text \<open>The NUL-terminated string at \<open>va\<close>, if it ends within \<open>n\<close> bytes.\<close>

fun ustring :: "mem \<Rightarrow> u64 \<Rightarrow> u64 \<Rightarrow> nat \<Rightarrow> u8 list option" where
  "ustring m pt va 0 = None"
| "ustring m pt va (Suc n) = (case umem m pt va of None \<Rightarrow> None
     | Some b \<Rightarrow> if b = 0 then Some [0] else map_option ((#) b) (ustring m pt (va + 1) n))"

lemma map_option_append [simp]:
  "map_option ((@) []) x = x" "map_option ((@) (a # bs)) x = map_option ((#) a) (map_option ((@) bs) x)"
  by (cases x; simp)+

lemma uload_append:
  "uload m pt va (n + k) = (case uload m pt va n of None \<Rightarrow> None
     | Some bs \<Rightarrow> map_option ((@) bs) (uload m pt (va + of_nat n) k))"
  by (induction n arbitrary: va)
    (auto simp: algebra_simps split: option.splits)

lemma uload_length: "uload m pt va n = Some bs \<Longrightarrow> length bs = n"
  by (induction n arbitrary: va bs) (auto split: option.splits)

lemma uload_run:
  assumes "\<And>k. k < length src \<Longrightarrow> umem m pt (va + of_nat k) = Some (src ! k)"
  shows "uload m pt va (length src) = Some src"
proof -
  have "uload m pt va n = Some (take n src)" if "n \<le> length src" for n
    using that
  proof (induction n)
    case (Suc n)
    with assms [of n] uload_append [of m pt va n 1] show ?case by (simp add: take_Suc_conv_app_nth)
  qed simp
  then show ?thesis by simp
qed

lemma uload_None_cong:
  "(\<And>v. uaddr m' pt v = uaddr m pt v) \<Longrightarrow> uload m' pt va n = None \<longleftrightarrow> uload m pt va n = None"
  by (induction n arbitrary: va) (auto simp: umem_def split: option.splits)

lemma umem_in_page:
  assumes "uaddr m pt va \<noteq> 0" "unat va mod 4096 + k < 4096"
  shows "umem m pt (va + of_nat k) = Some (m (uaddr m pt va + of_nat (unat va mod 4096) + of_nat k))"
  using unat_in_page [OF assms(2)] uaddr_page [of "va + of_nat k" va m pt] assms(1)
  by (simp add: umem_def algebra_simps)

lemma uload_page:
  assumes "uaddr m pt va \<noteq> 0" "unat va mod 4096 + n \<le> 4096"
  shows "uload m pt va n = Some (load_bytes m (uaddr m pt va + of_nat (unat va mod 4096)) n)"
  using assms(2)
proof (induction n)
  case (Suc n)
  have "umem m pt (va + of_nat n) = Some (m (uaddr m pt va + of_nat (unat va mod 4096) + of_nat n))"
    using umem_in_page [OF assms(1)] Suc.prems by simp
  then show ?case
    using Suc uload_append [of m pt va n 1] by (simp add: load_bytes_def)
qed (simp add: load_bytes_def)

lemma uload_unmapped: "uaddr m pt va = 0 \<Longrightarrow> 0 < n \<Longrightarrow> uload m pt va n = None"
  by (cases n) (simp_all add: umem_def)

lemma chunk_next:
  assumes "chunk va len < len"
  shows "PGROUNDDOWN va + PGSIZE = va + of_nat (chunk va len)"
proof -
  have le: "unat va mod 4096 \<le> 4096" by (simp add: less_imp_le)
  have "chunk va len = 4096 - unat va mod 4096" using assms by (simp add: chunk_eq min_def split: if_splits)
  with le have "of_nat (chunk va len) = PGSIZE - (va - PGROUNDDOWN va)"
    by (simp only: page_off_eq of_nat_diff) simp
  then show ?thesis by simp
qed

lemma chunk_page: "unat va mod 4096 + chunk va len \<le> 4096"
proof -
  have "m < 4096 \<Longrightarrow> m + min (4096 - m) len \<le> 4096" for m :: nat by auto
  from this [of "unat va mod 4096"] show ?thesis by (simp add: chunk_eq)
qed

lemma copyin_uload:
  assumes wf: "pt_wf (ram s) pt"
  shows "\<exists>bs. copyin pt va n s = Inr (case uload (ram s) pt va n of None \<Rightarrow> (-1, bs) | Some bs \<Rightarrow> (0, bs))"
proof (induction n arbitrary: va rule: less_induct)
  case (less n)
  let ?c = "chunk va n" and ?p = "uaddr (ram s) pt va" and ?l = "uload (ram s) pt va n"
  have w: "walkaddr pt (PGROUNDDOWN va) s = Inr ?p"
    using walkaddr_uaddr [OF wf] uaddr_page [of "PGROUNDDOWN va" va] by simp
  consider "n = 0" | "0 < n" "?p = 0" | "0 < n" "?p \<noteq> 0" by blast
  then show ?case
  proof cases
    case 1
    then show ?thesis by (simp add: copyin.simps)
  next
    case 2
    then show ?thesis using w uload_unmapped by (subst copyin.simps) (simp add: Let_def)
  next
    case 3
    let ?b = "load_bytes (ram s) (?p + (va - PGROUNDDOWN va)) ?c" and ?va = "PGROUNDDOWN va + PGSIZE"
    have c: "copyin pt va n s = bnd (copyin pt ?va (n - ?c) s) (\<lambda>(r, rest). Inr (r, ?b @ rest))"
      using 3 w by (subst copyin.simps) (simp add: Let_def)
    have u: "uload (ram s) pt va ?c = Some ?b"
      using uload_page [OF 3(2) chunk_page] by (simp add: page_off_eq)
    have l: "?l = map_option ((@) ?b) (uload (ram s) pt ?va (n - ?c))"
    proof (cases "?c < n")
      case True
      then show ?thesis
        using uload_append [of "ram s" pt va ?c "n - ?c"] u chunk_next [OF True] by simp
    next
      case False
      then have "?c = n" using chunk_le(1) [of va n] by simp
      then show ?thesis using u by simp
    qed
    have "n - ?c < n" using 3(1) by simp
    from less.IH [OF this, of ?va] c l show ?thesis by (auto split: option.splits)
  qed
qed

subsection \<open>Strings\<close>

lemma ustring_page:
  assumes "uaddr m pt va \<noteq> 0" "unat va mod 4096 + n \<le> 4096" "n \<le> k"
  shows "ustring m pt va k =
    (case copyinstr_page m (uaddr m pt va + of_nat (unat va mod 4096)) n of
       (bs, True) \<Rightarrow> Some bs
     | (bs, False) \<Rightarrow> map_option ((@) bs) (ustring m pt (va + of_nat n) (k - n)))"
proof -
  let ?a = "uaddr m pt va + of_nat (unat va mod 4096)"
  have "ustring m pt (va + of_nat j) (k - j) =
      (case copyinstr_page m (?a + of_nat j) (n - j) of (bs, True) \<Rightarrow> Some bs
       | (bs, False) \<Rightarrow> map_option ((@) bs) (ustring m pt (va + of_nat n) (k - n)))" if "j \<le> n" for j
    using that
  proof (induction rule: inc_induct)
    case base
    then show ?case by simp
  next
    case (step j)
    have e: "n - j = Suc (n - Suc j)" "k - j = Suc (k - Suc j)" using step assms by auto
    have "umem m pt (va + of_nat j) = Some (m (?a + of_nat j))"
      using umem_in_page [OF assms(1), of j] step assms(2) by simp
    with step.IH show ?case unfolding e
      by (auto simp: algebra_simps split: prod.splits bool.splits option.splits)
  qed
  from this [of 0] show ?thesis by simp
qed

lemma copyinstr_ustring:
  assumes wf: "pt_wf (ram s) pt"
  shows "\<exists>bs. copyinstr pt va n s = Inr (case ustring (ram s) pt va n of None \<Rightarrow> (-1, bs) | Some bs \<Rightarrow> (0, bs))"
proof (induction n arbitrary: va rule: less_induct)
  case (less n)
  let ?c = "chunk va n" and ?p = "uaddr (ram s) pt va"
  have w: "walkaddr pt (PGROUNDDOWN va) s = Inr ?p"
    using walkaddr_uaddr [OF wf] uaddr_page [of "PGROUNDDOWN va" va] by simp
  consider "n = 0" | "0 < n" "?p = 0" | "0 < n" "?p \<noteq> 0" by blast
  then show ?case
  proof cases
    case 1
    then show ?thesis by (simp add: copyinstr.simps)
  next
    case 2
    then show ?thesis
      using w by (subst copyinstr.simps) (cases n; simp add: Let_def umem_def)
  next
    case 3
    let ?va = "PGROUNDDOWN va + PGSIZE"
    obtain bs z where b: "copyinstr_page (ram s) (?p + (va - PGROUNDDOWN va)) ?c = (bs, z)" by fastforce
    have c: "copyinstr pt va n s = (if z then Inr (0, bs)
        else bnd (copyinstr pt ?va (n - ?c) s) (\<lambda>(r, rest). Inr (r, bs @ rest)))"
      using 3 w b by (subst copyinstr.simps) (simp add: Let_def)
    have u: "ustring (ram s) pt va n = (if z then Some bs else map_option ((@) bs) (ustring (ram s) pt ?va (n - ?c)))"
    proof (cases "?c < n")
      case True
      then show ?thesis
        using ustring_page [OF 3(2) chunk_page chunk_le(1)] b chunk_next [OF True] by (simp add: page_off_eq)
    next
      case False
      then have "?c = n" using chunk_le(1) [of va n] by simp
      then show ?thesis
        using ustring_page [OF 3(2) chunk_page chunk_le(1), of n] b by (simp add: page_off_eq)
    qed
    have "n - ?c < n" using 3(1) by simp
    from less.IH [OF this, of ?va] c u show ?thesis by (auto split: option.splits)
  qed
qed

subsection \<open>Writing\<close>

lemma unat_diff_run:
  fixes v a :: u64
  assumes "n \<le> 4096" "L < 2 ^ 63"
  shows "unat (v - (a + of_nat n)) < L \<longleftrightarrow> n \<le> unat (v - a) \<and> unat (v - a) - n < L"
    and "n \<le> unat (v - a) \<Longrightarrow> unat (v - (a + of_nat n)) = unat (v - a) - n"
proof -
  have e: "v - (a + of_nat n) = (v - a) - of_nat n" by simp
  have u: "unat (of_nat n :: u64) = n" using assms(1) by (simp add: unat_of_nat)
  show ge: "unat (v - (a + of_nat n)) = unat (v - a) - n" if "n \<le> unat (v - a)"
    unfolding e using that u by (simp add: unat_sub word_le_nat_alt)
  have "unat ((v - a) - of_nat n) = 2 ^ 64 + unat (v - a) - n" if "\<not> n \<le> unat (v - a)"
    using that u by (simp add: unat_sub_if_size word_size word_le_nat_alt)
  with ge assms show "unat (v - (a + of_nat n)) < L \<longleftrightarrow> n \<le> unat (v - a) \<and> unat (v - a) - n < L"
    unfolding e by (cases "n \<le> unat (v - a)") auto
qed

text \<open>What \<open>copyout\<close> keeps: translations, tables, and every page that is not a user page of \<open>pt\<close>.\<close>

definition keeps_user :: "u64 \<Rightarrow> 'a kmem_scheme \<Rightarrow> 'a kmem_scheme \<Rightarrow> bool" where
  "keeps_user pt s s' \<longleftrightarrow> pt_wf (ram s') pt \<and> user_wf (ram s') pt \<and> tables (ram s') pt = tables (ram s) pt \<and>
     (\<forall>v. uaddr (ram s') pt v = uaddr (ram s) pt v) \<and> freelist s' = freelist s \<and>
     touches {p. \<exists>v. p = uaddr (ram s) pt v \<and> p \<noteq> 0} s s'"

lemma keeps_user_refl: "pt_wf (ram s) pt \<Longrightarrow> user_wf (ram s) pt \<Longrightarrow> keeps_user pt s s"
  by (simp add: keeps_user_def)

lemma keeps_user_trans: "keeps_user pt s t \<Longrightarrow> keeps_user pt t u \<Longrightarrow> keeps_user pt s u"
proof -
  assume a: "keeps_user pt s t" "keeps_user pt t u"
  then have "{p. \<exists>v. p = uaddr (ram t) pt v \<and> p \<noteq> 0} = {p. \<exists>v. p = uaddr (ram s) pt v \<and> p \<noteq> 0}" (is "_ = ?U")
    by (simp add: keeps_user_def)
  with a have "touches {p. \<exists>v. p = uaddr (ram s) pt v \<and> p \<noteq> 0} s u"
    using touches_trans [of ?U s t ?U u] by (simp add: keeps_user_def)
  with a show ?thesis by (simp add: keeps_user_def)
qed

lemma copyout_chunk:
  assumes "pt_wf (ram s) pt" "user_wf (ram s) pt" "uaddr (ram s) pt va \<noteq> 0" "unat va mod 4096 + length bs \<le> 4096"
  defines "s' \<equiv> s\<lparr>ram := store_bytes (ram s) (uaddr (ram s) pt va + of_nat (unat va mod 4096)) bs\<rparr>"
  shows "keeps_user pt s s'"
    and "umem (ram s') pt v = (if unat (v - va) < length bs then Some (bs ! unat (v - va)) else umem (ram s) pt v)"
proof -
  note S = user_store [OF assms(1-4)]
  show "umem (ram s') pt v = (if unat (v - va) < length bs then Some (bs ! unat (v - va)) else umem (ram s) pt v)"
    using S(5) by (simp add: s'_def)
  have "touches {p. \<exists>v. p = uaddr (ram s) pt v \<and> p \<noteq> 0} s s'"
    unfolding s'_def using S(6) assms(3) by (intro touches_ram) auto
  with S show "keeps_user pt s s'" by (simp add: keeps_user_def s'_def)
qed

lemma copyout_spec:
  assumes "pt_wf (ram s) pt" "user_wf (ram s) pt" "length src < 2 ^ 63"
  shows "\<exists>r s'. copyout pt va src s = Inr (r, s') \<and> keeps_user pt s s' \<and>
    (r = 0 \<and> uload (ram s) pt va (length src) \<noteq> None \<and> (\<forall>v. umem (ram s') pt v =
       (if unat (v - va) < length src then Some (src ! unat (v - va)) else umem (ram s) pt v)) \<or>
     r = -1 \<and> uload (ram s) pt va (length src) = None \<and>
       (\<forall>v. length src \<le> unat (v - va) \<longrightarrow> umem (ram s') pt v = umem (ram s) pt v))"
  using assms
proof (induction "length src" arbitrary: va src s rule: less_induct)
  case (less src va s)
  note wf = less.prems(1,2)
  let ?n = "length src"
  let ?c = "chunk va ?n" and ?p = "uaddr (ram s) pt va"
  have w: "walkaddr pt (PGROUNDDOWN va) s = Inr ?p"
    using walkaddr_uaddr [OF wf(1)] uaddr_page [of "PGROUNDDOWN va" va] by simp
  consider "?n = 0" | "0 < ?n" "?p = 0" | "0 < ?n" "?p \<noteq> 0" by blast
  then show ?case
  proof cases
    case 1
    then show ?thesis using keeps_user_refl [OF wf] by (simp add: copyout.simps)
  next
    case 2
    then show ?thesis using w uload_unmapped keeps_user_refl [OF wf] by (subst copyout.simps) (simp add: Let_def)
  next
    case 3
    let ?va = "PGROUNDDOWN va + PGSIZE" and ?rest = "drop ?c src"
    define s1 where "s1 = s\<lparr>ram := store_bytes (ram s) (?p + of_nat (unat va mod 4096)) (take ?c src)\<rparr>"
    have len: "length (take ?c src) = ?c" "?c \<le> 4096" using chunk_page [of va ?n] by simp_all
    have c: "copyout pt va src s = copyout pt ?va ?rest s1"
      using 3 w by (subst copyout.simps) (simp add: Let_def s1_def page_off_eq)
    have "unat va mod 4096 + length (take ?c src) \<le> 4096" using chunk_page len by simp
    note K = copyout_chunk [OF wf 3(2) this, folded s1_def, unfolded len]
    have "length ?rest < ?n" "length ?rest < 2 ^ 63" using 3 less.prems(3) by auto
    with less.hyps [of ?rest s1 ?va] K(1) obtain r s' where r: "copyout pt ?va ?rest s1 = Inr (r, s')"
      "keeps_user pt s1 s'"
      "r = 0 \<and> uload (ram s1) pt ?va (length ?rest) \<noteq> None \<and> (\<forall>v. umem (ram s') pt v =
         (if unat (v - ?va) < length ?rest then Some (?rest ! unat (v - ?va)) else umem (ram s1) pt v)) \<or>
       r = -1 \<and> uload (ram s1) pt ?va (length ?rest) = None \<and>
         (\<forall>v. length ?rest \<le> unat (v - ?va) \<longrightarrow> umem (ram s') pt v = umem (ram s1) pt v)"
      by (auto simp: keeps_user_def)
    have ul: "uload (ram s1) pt v k = None \<longleftrightarrow> uload (ram s) pt v k = None" for v k
      using K(1) by (intro uload_None_cong) (simp add: keeps_user_def)
    have up: "uload (ram s) pt va ?c \<noteq> None" using uload_page [OF 3(2) chunk_page] by simp
    show ?thesis
    proof (cases "?c < ?n")
      case True
      note nx = chunk_next [OF True]
      have ua: "uload (ram s) pt va ?n = None \<longleftrightarrow> uload (ram s1) pt ?va (length ?rest) = None"
        using up uload_append [of "ram s" pt va ?c "length ?rest"] True ul nx by (auto split: option.splits)
      have L: "?n - ?c < 2 ^ 63" using less.prems(3) by simp
      note D = unat_diff_run [OF len(2) L, of _ va]
      from r(3) show ?thesis
      proof (elim disjE conjE)
        assume "r = 0" and ok: "uload (ram s1) pt ?va (length ?rest) \<noteq> None"
          and v: "\<forall>v. umem (ram s') pt v =
            (if unat (v - ?va) < length ?rest then Some (?rest ! unat (v - ?va)) else umem (ram s1) pt v)"
        have "umem (ram s') pt v = (if unat (v - va) < ?n then Some (src ! unat (v - va)) else umem (ram s) pt v)" for v
          using v [rule_format, of v] D [of v] True K(2) [of v] unfolding nx
          by (cases "?c \<le> unat (v - va)") auto
        with \<open>r = 0\<close> ok ua c r(1) keeps_user_trans [OF K(1) r(2)] show ?thesis by auto
      next
        assume "r = -1" "uload (ram s1) pt ?va (length ?rest) = None"
          and v: "\<forall>v. length ?rest \<le> unat (v - ?va) \<longrightarrow> umem (ram s') pt v = umem (ram s1) pt v"
        moreover have "umem (ram s') pt v = umem (ram s) pt v" if "?n \<le> unat (v - va)" for v
          using v [rule_format, of v] D(1) [of v] K(2) [of v] that True unfolding nx by (auto simp: not_less)
        ultimately show ?thesis using ua c r(1) keeps_user_trans [OF K(1) r(2)] by auto
      qed
    next
      case False
      then have cn: "?c = ?n" using chunk_le(1) [of va ?n] by simp
      then have "r = 0" "\<forall>v. umem (ram s') pt v = umem (ram s1) pt v" using r(3) by auto
      with K(2) cn up c r(1) keeps_user_trans [OF K(1) r(2)] show ?thesis by auto
    qed
  qed
qed

section \<open>Properties\<close>

text \<open>
  C10. Crossing the user boundary. On a well-formed address space \<open>copyout\<close> returns 0 exactly
  when every byte of the destination is mapped for the user, and then user memory is the old one
  with the bytes written there - whatever page boundaries the run crosses; it returns -1
  otherwise, having changed nothing outside the run. In both cases translations, tables, the free
  list and all memory that is not a user page of this address space are untouched. \<open>copyin\<close> of
  the same run gives back the bytes that \<open>copyout\<close> wrote.
\<close>

theorem copyout_copyin:
  assumes "pt_wf (ram s) pt" "user_wf (ram s) pt" "length src < 2 ^ 63"
  shows "\<exists>r s'. copyout pt va src s = Inr (r, s') \<and> keeps_user pt s s' \<and>
    (if uload (ram s) pt va (length src) = None
     then r = -1 \<and> (\<forall>v. length src \<le> unat (v - va) \<longrightarrow> umem (ram s') pt v = umem (ram s) pt v)
     else r = 0 \<and> (\<forall>v. umem (ram s') pt v =
         (if unat (v - va) < length src then Some (src ! unat (v - va)) else umem (ram s) pt v)) \<and>
       copyin pt va (length src) s' = Inr (0, src))"
proof -
  from copyout_spec [OF assms] obtain r s' where c: "copyout pt va src s = Inr (r, s')" "keeps_user pt s s'"
    and d: "r = 0 \<and> uload (ram s) pt va (length src) \<noteq> None \<and> (\<forall>v. umem (ram s') pt v =
       (if unat (v - va) < length src then Some (src ! unat (v - va)) else umem (ram s) pt v)) \<or>
     r = -1 \<and> uload (ram s) pt va (length src) = None \<and>
       (\<forall>v. length src \<le> unat (v - va) \<longrightarrow> umem (ram s') pt v = umem (ram s) pt v)" by blast
  have "copyin pt va (length src) s' = Inr (0, src)" if "uload (ram s) pt va (length src) \<noteq> None"
  proof -
    have m: "umem (ram s') pt (va + of_nat k) = Some (src ! k)" if "k < length src" for k
    proof -
      have "unat (va + of_nat k - va) = k" using that assms(3) by (simp add: unat_of_nat)
      with d \<open>uload _ _ _ _ \<noteq> None\<close> that show ?thesis by simp
    qed
    then have "uload (ram s') pt va (length src) = Some src" by (rule uload_run)
    then show ?thesis using copyin_uload [of s' pt va "length src"] c(2) by (auto simp: keeps_user_def)
  qed
  with c d show ?thesis by (intro exI [of _ r] exI [of _ s']) auto
qed

text \<open>
  C11. \<open>copyin\<close> and \<open>copyinstr\<close>, which work page by page, compute what reading one byte after
  the other does: all \<open>n\<close> bytes or the string up to and including its first NUL, if the bytes
  needed are mapped and (for a string) the NUL comes within \<open>n\<close> bytes; -1 otherwise.
\<close>

theorem copyin_copyinstr_reference:
  assumes "pt_wf (ram s) pt"
  shows "\<exists>bs cs. copyin pt va n s = Inr (case uload (ram s) pt va n of None \<Rightarrow> (-1, bs) | Some bs \<Rightarrow> (0, bs)) \<and>
    copyinstr pt va n s = Inr (case ustring (ram s) pt va n of None \<Rightarrow> (-1, cs) | Some cs \<Rightarrow> (0, cs))"
  using copyin_uload [OF assms] copyinstr_ustring [OF assms] by blast

lemma vm_example_user: "uaddr (ram vm_example) 0x80030000 v = 0" "user_wf (ram vm_example) 0x80030000"
  by (simp_all add: user_wf_def uaddr_def vm_example_table)

theorem copyin_copyinstr_reference_witness:
  "\<exists>bs cs. copyin 0x80030000 0x4010 7 vm_example = Inr (-1, bs) \<and>
     copyinstr 0x80030000 0x4010 7 vm_example = Inr (-1, cs)"
  using copyin_copyinstr_reference [OF vm_example_table(1), of "0x4010" 7]
  by (simp add: numeral_eq_Suc umem_def vm_example_user)

text \<open>The address space of \<open>vm_example\<close> with one user page mapped at 0x5000.\<close>

lemma vm_example_mapped:
  "\<exists>s :: kmem. pt_wf (ram s) 0x80030000 \<and> user_wf (ram s) 0x80030000 \<and>
    (\<forall>v. uaddr (ram s) 0x80030000 v = (if page_idx v = 5 then 0x80033000 else 0))"
proof -
  let ?pt = "0x80030000 :: u64" and ?f = "pte_of (ram vm_example) 0x80030000"
  have "\<And>v. v < MAXVA \<Longrightarrow> page_idx 0x5000 \<le> page_idx v \<Longrightarrow> page_idx v \<le> page_idx (0x5000 + 0x1000 - 1) \<Longrightarrow>
      ?f v AND PTE_V = 0" using vm_example_table(3) by simp
  with mappages_spec [where va = "0x5000" and sz = "0x1000" and perm = "PTE_R OR PTE_U" and pa = "0x80033000",
      OF vm_example_inv] obtain ps s where
    b: "pt_becomes ?pt [0x80031000, 0x80032000] vm_example ps s (map_range ?f 0x5000 1 0x80033000 (PTE_R OR PTE_U))"
    by (auto simp: page_idx_def)
  then obtain qs where inv: "vm_inv ps ?pt s" and qs: "[0x80031000, 0x80032000] = qs @ ps"
    "tables (ram s) ?pt = {?pt} \<union> set qs"
    and pte: "\<And>v. v < MAXVA \<Longrightarrow> pte_of (ram s) ?pt v = map_range ?f 0x5000 1 0x80033000 (PTE_R OR PTE_U) v"
    unfolding pt_becomes_def vm_example_table(2) by blast
  have ua: "uaddr (ram s) ?pt v = (if page_idx v = 5 then 0x80033000 else 0)" for v
  proof (cases "v < MAXVA")
    case True
    then show ?thesis using pte [OF True] vm_example_table(3) [of v]
      by (auto simp: uaddr_def map_range_def page_idx_def [of "0x5000"] PA2PTE_def PTE2PA_def)
  next
    case False
    then show ?thesis by (simp add: uaddr_def below_MAXVA_page)
  qed
  have "set qs \<union> set ps = {0x80031000, 0x80032000}" using qs(1) by (metis list.simps(15) set_append empty_set)
  then have "set qs \<subseteq> {0x80031000, 0x80032000}" by blast
  then have "0x80033000 \<notin> tables (ram s) ?pt" using qs(2) by auto
  moreover have "0 \<notin> tables (ram s) ?pt" using inv pt_wfD(2) by (auto simp: vm_inv_def)
  ultimately have "user_wf (ram s) ?pt" unfolding user_wf_def ua by (simp split: if_splits)
  with inv ua show ?thesis by (auto simp: vm_inv_def)
qed

theorem copyout_copyin_witness:
  "\<exists>s s' :: kmem. copyout 0x80030000 0x5FFE [7, 8] s = Inr (0, s') \<and>
     copyin 0x80030000 0x5FFE 2 s' = Inr (0, [7, 8])"
proof -
  from vm_example_mapped obtain s :: kmem where wf: "pt_wf (ram s) 0x80030000" "user_wf (ram s) 0x80030000"
    and ua: "\<And>v. uaddr (ram s) 0x80030000 v = (if page_idx v = 5 then 0x80033000 else 0)" by blast
  have "uload (ram s) 0x80030000 0x5FFE (Suc (Suc 0)) \<noteq> None"
    by (simp add: umem_def ua page_idx_def)
  then obtain s' where "copyout 0x80030000 0x5FFE [7, 8] s = Inr (0, s')"
    "copyin 0x80030000 0x5FFE (length [7 :: u8, 8]) s' = Inr (0, [7, 8])"
    using copyout_copyin [OF wf, of "[7, 8]" "0x5FFE"] by auto
  then show ?thesis by (intro exI [of _ s] exI [of _ s']) (simp flip: numeral_2_eq_2)
qed

end
