(* ===== verification/Proc.thy ===== *)
theory Proc
  imports Vm
begin

unbundle bit_operations_syntax

text \<open>
  The process table of kernel/proc.c: allocation and release of slots with their trapframe and
  page table, \<open>sleep\<close> and \<open>wakeup\<close> split at the switch to the scheduler, \<open>kill\<close>, \<open>growproc\<close>,
  and the copies to and from a process's memory. C ints are 32-bit words; a process is named by
  its index in the table.
\<close>

section \<open>The process table\<close>

datatype procstate = UNUSED | SLEEPING | RUNNABLE | RUNNING | SUSPENDED | ZOMBIE

record proc =
  p_state :: procstate
  p_parent :: "nat option"
  p_chan :: "chan option"
  p_killed :: u32
  p_xstate :: u32
  p_pid :: u32
  p_kstack :: u64
  p_sz :: u64
  p_pagetable :: u64
  p_tf :: u64
  p_context :: "u64 list"
  p_ofile :: "nat \<Rightarrow> nat option"
  p_cwd :: "nat option"
  p_name :: "u8 list"
  p_tracing :: u32

text \<open>
  \<open>cur\<close> is \<open>mycpu()->proc\<close>; \<open>forkret_addr\<close> the address of \<open>forkret\<close>. A context is the list of
  its 14 registers (ra, sp, s0 to s11).
\<close>

record kproc = kvm +
  procs :: "nat \<Rightarrow> proc"
  initproc :: "nat option"
  nextpid :: u32
  cur :: "nat option"
  forkret_addr :: u64

definition upd_proc :: "nat \<Rightarrow> (proc \<Rightarrow> proc) \<Rightarrow> 'a kproc_scheme \<Rightarrow> 'a kproc_scheme" where
  "upd_proc i f s = s\<lparr>procs := (procs s)(i := f (procs s i))\<rparr>"

text \<open>Using a null process pointer faults in the kernel, which panics in \<open>kerneltrap\<close>.\<close>

definition myproc :: "'a kproc_scheme \<Rightarrow> nat result" where
  "myproc s = (case cur s of None \<Rightarrow> Inl (Panic ''kerneltrap'') | Some p \<Rightarrow> Inr p)"

definition KSTACK :: "nat \<Rightarrow> u64" where
  "KSTACK p = TRAMPOLINE - of_nat (p + 1) * 2 * PGSIZE"

definition procinit :: "'a kproc_scheme \<Rightarrow> 'a kproc_scheme result" where
  "procinit s =
     bnd (loop (\<lambda>i s.
       bnd (kalloc s) (\<lambda>(pa, s).
         if pa = 0 then Inl (Panic ''kalloc'')
         else let va = KSTACK i in
           bnd (kvmmap va pa PGSIZE (PTE_R OR PTE_W) s) (\<lambda>s.
             Inr (upd_proc i (\<lambda>p. p\<lparr>p_kstack := va\<rparr>) s)))) [0..<NPROC] s) (\<lambda>s.
     Inr (kvminithart s))"

definition allocpid :: "'a kproc_scheme \<Rightarrow> (u32 \<times> 'a kproc_scheme) result" where
  "allocpid s =
     bnd (acquire LkPid s) (\<lambda>s.
     let pid = nextpid s;
         s = s\<lparr>nextpid := nextpid s + 1\<rparr>
     in bnd (release LkPid s) (\<lambda>s. Inr (pid, s)))"

definition proc_pagetable :: "nat \<Rightarrow> 'a kproc_scheme \<Rightarrow> (u64 \<times> 'a kproc_scheme) result" where
  "proc_pagetable p s =
     bnd (uvmcreate s) (\<lambda>(pt, s).
     bnd (mappages pt TRAMPOLINE PGSIZE (trampoline s) (PTE_R OR PTE_X) s) (\<lambda>(_, s).
     bnd (mappages pt TRAPFRAME PGSIZE (p_tf (procs s p)) (PTE_R OR PTE_W) s) (\<lambda>(_, s).
     Inr (pt, s))))"

definition proc_freepagetable :: "u64 \<Rightarrow> u64 \<Rightarrow> 'a kproc_scheme \<Rightarrow> 'a kproc_scheme result" where
  "proc_freepagetable pt sz s =
     bnd (uvmunmap pt TRAMPOLINE PGSIZE False s) (\<lambda>s.
     bnd (uvmunmap pt TRAPFRAME PGSIZE False s) (\<lambda>s.
     if sz > 0 then uvmfree pt sz s else Inr s))"

text \<open>\<open>allocproc\<close>: the scan for an unused slot keeps its lock.\<close>

definition find_unused :: "'a kproc_scheme \<Rightarrow> (nat option \<times> 'a kproc_scheme) result" where
  "find_unused s = scan (\<lambda>i s.
     bnd (acquire (LkProc i) s) (\<lambda>s.
       if p_state (procs s i) = UNUSED then Inr (Some i, s)
       else bnd (release (LkProc i) s) (\<lambda>s. Inr (None, s)))) [0..<NPROC] s"

definition allocproc :: "'a kproc_scheme \<Rightarrow> (nat option \<times> 'a kproc_scheme) result" where
  "allocproc s =
     bnd (find_unused s) (\<lambda>(found, s).
     case found of None \<Rightarrow> Inr (None, s)
     | Some p \<Rightarrow>
         bnd (allocpid s) (\<lambda>(pid, s).
         let s = upd_proc p (\<lambda>x. x\<lparr>p_pid := pid\<rparr>) s in
         bnd (kalloc s) (\<lambda>(tf, s).
         let s = upd_proc p (\<lambda>x. x\<lparr>p_tf := tf\<rparr>) s in
         if tf = 0 then bnd (release (LkProc p) s) (\<lambda>s. Inr (None, s))
         else bnd (proc_pagetable p s) (\<lambda>(pt, s).
           let s = upd_proc p (\<lambda>x. x\<lparr>p_pagetable := pt\<rparr>) s;
               s = upd_proc p (\<lambda>x. x\<lparr>p_context :=
                     forkret_addr s # (p_kstack x + PGSIZE) # replicate 12 0\<rparr>) s;
               s = upd_proc p (\<lambda>x. x\<lparr>p_tracing := 0\<rparr>) s
           in Inr (Some p, s)))))"

definition freeproc :: "nat \<Rightarrow> 'a kproc_scheme \<Rightarrow> 'a kproc_scheme result" where
  "freeproc p s =
     bnd (if p_tf (procs s p) \<noteq> 0 then kfree (p_tf (procs s p)) s else Inr s) (\<lambda>s.
     let s = upd_proc p (\<lambda>x. x\<lparr>p_tf := 0\<rparr>) s in
     bnd (if p_pagetable (procs s p) \<noteq> 0
          then proc_freepagetable (p_pagetable (procs s p)) (p_sz (procs s p)) s else Inr s) (\<lambda>s.
     Inr (upd_proc p (\<lambda>x. x\<lparr>p_pagetable := 0, p_sz := 0, p_pid := 0, p_parent := None,
       p_name := (p_name x)[0 := 0], p_chan := None, p_killed := 0, p_xstate := 0,
       p_state := UNUSED\<rparr>) s)))"

text \<open>
  \<open>growproc\<close> computes in a 32-bit \<open>sz\<close>: \<open>sz + n\<close> wraps at 32 bits before it is widened.
\<close>

definition growproc :: "u32 \<Rightarrow> 'a kproc_scheme \<Rightarrow> (int \<times> 'a kproc_scheme) result" where
  "growproc n s =
     bnd (myproc s) (\<lambda>p.
     let sz = ucast (p_sz (procs s p)) :: u32; pt = p_pagetable (procs s p) in
     if sint n > 0 then
       bnd (uvmalloc pt (ucast sz) (ucast (sz + n)) s) (\<lambda>(r, s).
         let sz = ucast r :: u32 in
         if sz = 0 then Inr (-1, s)
         else Inr (0, upd_proc p (\<lambda>x. x\<lparr>p_sz := ucast sz\<rparr>) s))
     else if sint n < 0 then
       bnd (uvmdealloc pt (ucast sz) (ucast (sz + n)) s) (\<lambda>(r, s).
         Inr (0, upd_proc p (\<lambda>x. x\<lparr>p_sz := ucast (ucast r :: u32)\<rparr>) s))
     else Inr (0, upd_proc p (\<lambda>x. x\<lparr>p_sz := ucast sz\<rparr>) s))"

definition reparent :: "nat \<Rightarrow> 'a kproc_scheme \<Rightarrow> 'a kproc_scheme result" where
  "reparent p s = loop (\<lambda>i s.
     if p_parent (procs s i) = Some p then
       bnd (acquire (LkProc i) s) (\<lambda>s.
       release (LkProc i) (upd_proc i (\<lambda>x. x\<lparr>p_parent := initproc s\<rparr>) s))
     else Inr s) [0..<NPROC] s"

section \<open>Sleeping and waking\<close>

text \<open>
  \<open>sched\<close> up to its call of \<open>swtch\<close>: the process holds its own lock and nothing else (then
  \<open>noff\<close> is 1 and interrupts are off), and is no longer running.
\<close>

definition sched :: "nat \<Rightarrow> 'a kproc_scheme \<Rightarrow> 'a kproc_scheme result" where
  "sched p s =
     (if LkProc p \<notin> held s then Inl (Panic ''sched p->lock'')
      else if held s \<noteq> {LkProc p} then Inl (Panic ''sched locks'')
      else if p_state (procs s p) = RUNNING then Inl (Panic ''sched running'')
      else Inr s)"

definition yield_begin :: "nat \<Rightarrow> 'a kproc_scheme \<Rightarrow> 'a kproc_scheme result" where
  "yield_begin p s =
     bnd (acquire (LkProc p) s) (\<lambda>s.
     sched p (upd_proc p (\<lambda>x. x\<lparr>p_state := RUNNABLE\<rparr>) s))"

definition yield_end :: "nat \<Rightarrow> 'a kproc_scheme \<Rightarrow> 'a kproc_scheme result" where
  "yield_end p s = release (LkProc p) s"

definition sleep_begin :: "nat \<Rightarrow> chan \<Rightarrow> lock \<Rightarrow> 'a kproc_scheme \<Rightarrow> 'a kproc_scheme result" where
  "sleep_begin p chan lk s =
     bnd (if lk \<noteq> LkProc p then bnd (acquire (LkProc p) s) (release lk) else Inr s) (\<lambda>s.
     sched p (upd_proc p (\<lambda>x. x\<lparr>p_chan := Some chan, p_state := SLEEPING\<rparr>) s))"

definition sleep_end :: "nat \<Rightarrow> lock \<Rightarrow> 'a kproc_scheme \<Rightarrow> 'a kproc_scheme result" where
  "sleep_end p lk s =
     (let s = upd_proc p (\<lambda>x. x\<lparr>p_chan := None\<rparr>) s in
      if lk \<noteq> LkProc p then bnd (release (LkProc p) s) (acquire lk) else Inr s)"

definition wake :: "chan \<Rightarrow> proc \<Rightarrow> proc" where
  "wake chan p = (if p_state p = SLEEPING \<and> p_chan p = Some chan then p\<lparr>p_state := RUNNABLE\<rparr> else p)"

definition wakeup :: "chan \<Rightarrow> 'a kproc_scheme \<Rightarrow> 'a kproc_scheme result" where
  "wakeup chan s = loop (\<lambda>i s.
     bnd (acquire (LkProc i) s) (\<lambda>s.
     release (LkProc i) (upd_proc i (wake chan) s))) [0..<NPROC] s"

definition wakeup1 :: "nat \<Rightarrow> 'a kproc_scheme \<Rightarrow> 'a kproc_scheme result" where
  "wakeup1 p s =
     (if LkProc p \<notin> held s then Inl (Panic ''wakeup1'')
      else Inr (upd_proc p (wake (ChProc p)) s))"

definition kill :: "u32 \<Rightarrow> 'a kproc_scheme \<Rightarrow> (int \<times> 'a kproc_scheme) result" where
  "kill pid s =
     bnd (scan (\<lambda>i s.
       bnd (acquire (LkProc i) s) (\<lambda>s.
         if p_pid (procs s i) = pid then
           let s = upd_proc i (\<lambda>x. x\<lparr>p_killed := 1\<rparr>) s;
               s = (if p_state (procs s i) = SLEEPING \<or> p_state (procs s i) = SUSPENDED
                    then upd_proc i (\<lambda>x. x\<lparr>p_state := RUNNABLE\<rparr>) s else s)
           in bnd (release (LkProc i) s) (\<lambda>s. Inr (Some (), s))
         else bnd (release (LkProc i) s) (\<lambda>s. Inr (None, s)))) [0..<NPROC] s) (\<lambda>(r, s).
     Inr (case r of None \<Rightarrow> -1 | Some _ \<Rightarrow> 0, s))"

section \<open>Copies to and from the current process\<close>

text \<open>
  A kernel destination of \<open>either_copyout\<close> and a kernel source of \<open>either_copyin\<close> are addresses
  in RAM.
\<close>

definition either_copyout :: "bool \<Rightarrow> u64 \<Rightarrow> u8 list \<Rightarrow> 'a kproc_scheme \<Rightarrow> (int \<times> 'a kproc_scheme) result" where
  "either_copyout user_dst dst src s =
     (if user_dst then bnd (myproc s) (\<lambda>p. copyout (p_pagetable (procs s p)) dst src s)
      else Inr (0, s\<lparr>ram := store_bytes (ram s) dst src\<rparr>))"

definition either_copyin :: "bool \<Rightarrow> u64 \<Rightarrow> nat \<Rightarrow> 'a kproc_scheme \<Rightarrow> (int \<times> u8 list) result" where
  "either_copyin user_src src len s =
     (if user_src then bnd (myproc s) (\<lambda>p. copyin (p_pagetable (procs s p)) src len s)
      else Inr (0, load_bytes (ram s) src len))"

definition traceon :: "'a kproc_scheme \<Rightarrow> 'a kproc_scheme result" where
  "traceon s = bnd (myproc s) (\<lambda>p. Inr (upd_proc p (\<lambda>x. x\<lparr>p_tracing := 1\<rparr>) s))"

section \<open>ps\<close>

text \<open>
  \<open>kps\<close> fills a \<open>struct pinfo\<close> on its stack - the count and 24 bytes per live process - and
  copies all of it out. \<open>stack\<close> is what the 1540 bytes held before; the copy overwrites the
  first entries.
\<close>

definition put_pdata :: "nat \<Rightarrow> proc \<Rightarrow> u8 list \<Rightarrow> u8 list" where
  "put_pdata i p kpi =
     (let kpi = put_le (4 + 24 * i) 4 (p_pid p) kpi;
          kpi = put_le (8 + 24 * i) 4 (ucast (p_sz p) :: u32) kpi;
          name = safestrcpy (at_buf (get_bytes (12 + 24 * i) 16 kpi)) (at_buf (p_name p)) 16
      in put_bytes (12 + 24 * i) (map name [0..<16]) kpi)"

definition kps :: "u8 list \<Rightarrow> u64 \<Rightarrow> 'a kproc_scheme \<Rightarrow> 'a kproc_scheme result" where
  "kps stack piaddr s =
     bnd (loop (\<lambda>j (kpi, i, s).
       bnd (acquire (LkProc j) s) (\<lambda>s.
       let (kpi, i) = (if p_state (procs s j) \<noteq> UNUSED
                       then (put_pdata i (procs s j) kpi, i + 1) else (kpi, i)) in
       bnd (release (LkProc j) s) (\<lambda>s. Inr (kpi, i, s)))) [0..<NPROC] (stack, 0, s)) (\<lambda>(kpi, i, s).
     let kpi = put_le 0 4 (of_nat i :: u32) kpi in
     bnd (myproc s) (\<lambda>p.
     bnd (copyout (p_pagetable (procs s p)) piaddr kpi s) (\<lambda>(_, s). Inr s)))"

section \<open>Lemmas\<close>

definition no_proc_lock :: "'a kproc_scheme \<Rightarrow> bool" where
  "no_proc_lock s \<longleftrightarrow> (\<forall>i. LkProc i \<notin> held s)"

lemma upd_proc_simps [simp]:
  "held (upd_proc i f s) = held s" "ram (upd_proc i f s) = ram s" "freelist (upd_proc i f s) = freelist s"
  "kend (upd_proc i f s) = kend s" "procs (upd_proc i f s) = (procs s)(i := f (procs s i))"
  "cur (upd_proc i f s) = cur s" "nextpid (upd_proc i f s) = nextpid s"
  "initproc (upd_proc i f s) = initproc s" "trampoline (upd_proc i f s) = trampoline s"
  "forkret_addr (upd_proc i f s) = forkret_addr s" "kernel_pagetable (upd_proc i f s) = kernel_pagetable s"
  by (simp_all add: upd_proc_def)

definition wake_all :: "chan \<Rightarrow> 'a kproc_scheme \<Rightarrow> 'a kproc_scheme" where
  "wake_all chan s = s\<lparr>procs := \<lambda>i. if i < NPROC then wake chan (procs s i) else procs s i\<rparr>"

lemma wakeup_eq:
  assumes "no_proc_lock s"
  shows "wakeup chan s = Inr (wake_all chan s)"
proof -
  define g where "g n = s\<lparr>procs := \<lambda>i. if i < n then wake chan (procs s i) else procs s i\<rparr>" for n
  have "loop (\<lambda>i s. bnd (acquire (LkProc i) s) (\<lambda>s. release (LkProc i) (upd_proc i (wake chan) s)))
      [0..<NPROC] (g 0) = Inr (g NPROC)"
  proof (rule loop_eq)
    fix i :: nat
    have "LkProc i \<notin> held s" using assms by (simp add: no_proc_lock_def)
    moreover have "(\<lambda>j. if j < Suc i then wake chan (procs s j) else procs s j) =
        (\<lambda>j. if j < i then wake chan (procs s j) else procs s j)(i := wake chan (procs s i))"
      by (auto simp: fun_eq_iff less_Suc_eq)
    ultimately show "bnd (acquire (LkProc i) (g i)) (\<lambda>s. release (LkProc i) (upd_proc i (wake chan) s)) = Inr (g (Suc i))"
      by (simp add: g_def upd_proc_def)
  qed
  then show ?thesis by (simp add: wakeup_def g_def wake_all_def)
qed

lemma wake_simps [simp]:
  "p_pid (wake c p) = p_pid p" "p_pagetable (wake c p) = p_pagetable p" "p_sz (wake c p) = p_sz p"
  "p_tf (wake c p) = p_tf p" "p_parent (wake c p) = p_parent p" "p_ofile (wake c p) = p_ofile p"
  "p_cwd (wake c p) = p_cwd p" "p_killed (wake c p) = p_killed p" "p_chan (wake c p) = p_chan p"
  "p_name (wake c p) = p_name p" "p_tracing (wake c p) = p_tracing p"
  by (simp_all add: wake_def)

lemma wake_all_simps [simp]:
  "held (wake_all c s) = held s" "ram (wake_all c s) = ram s" "freelist (wake_all c s) = freelist s"
  "kend (wake_all c s) = kend s" "cur (wake_all c s) = cur s" "nextpid (wake_all c s) = nextpid s"
  "kproc.more (wake_all c s) = kproc.more s"
  by (simp_all add: wake_all_def)

lemma kill_eq:
  assumes "no_proc_lock s"
  shows "kill pid s = (case first_idx (\<lambda>i. p_pid (procs s i) = pid) 0 NPROC of
     None \<Rightarrow> Inr (-1, s)
   | Some i \<Rightarrow> Inr (0, upd_proc i (\<lambda>x. x\<lparr>p_killed := 1,
       p_state := if p_state x = SLEEPING \<or> p_state x = SUSPENDED then RUNNABLE else p_state x\<rparr>) s))"
proof -
  let ?f = "\<lambda>i s. bnd (acquire (LkProc i) s) (\<lambda>s.
         if p_pid (procs s i) = pid then
           let s = upd_proc i (\<lambda>x. x\<lparr>p_killed := 1\<rparr>) s;
               s = (if p_state (procs s i) = SLEEPING \<or> p_state (procs s i) = SUSPENDED
                    then upd_proc i (\<lambda>x. x\<lparr>p_state := RUNNABLE\<rparr>) s else s)
           in bnd (release (LkProc i) s) (\<lambda>s. Inr (Some (), s))
         else bnd (release (LkProc i) s) (\<lambda>s. Inr (None, s)))"
  have nl: "LkProc i \<notin> held s" for i using assms by (simp add: no_proc_lock_def)
  have "scan ?f [0..<NPROC] s = (case first_idx (\<lambda>i. p_pid (procs s i) = pid) 0 NPROC of None \<Rightarrow> Inr (None, s)
    | Some i \<Rightarrow> Inr (Some (), upd_proc i (\<lambda>x. x\<lparr>p_killed := 1,
       p_state := if p_state x = SLEEPING \<or> p_state x = SUSPENDED then RUNNABLE else p_state x\<rparr>) s))"
    by (rule scan_first [where r = "\<lambda>_. ()"]) (auto simp: nl upd_proc_def)
  then show ?thesis by (auto simp: kill_def split: option.splits)
qed

end
