(* ===== verification/Sleeplock.thy ===== *)
theory Sleeplock
  imports Proc
begin

text \<open>
  The sleep locks of kernel/sleeplock.c. Taking a lock that is held blocks the process on the
  lock's channel; in the sequential model that outcome is \<open>Sleep\<close>.
\<close>

record sleeplock =
  sl_locked :: u32
  sl_pid :: u32

record ksleep = kproc +
  sleeplocks :: "slock \<Rightarrow> sleeplock"

definition set_sleeplock :: "slock \<Rightarrow> sleeplock \<Rightarrow> 'a ksleep_scheme \<Rightarrow> 'a ksleep_scheme" where
  "set_sleeplock l v s = s\<lparr>sleeplocks := (sleeplocks s)(l := v)\<rparr>"

definition initsleeplock :: "slock \<Rightarrow> 'a ksleep_scheme \<Rightarrow> 'a ksleep_scheme" where
  "initsleeplock l s = set_sleeplock l \<lparr>sl_locked = 0, sl_pid = 0\<rparr> s"

definition acquiresleep :: "slock \<Rightarrow> 'a ksleep_scheme \<Rightarrow> 'a ksleep_scheme result" where
  "acquiresleep l s =
     bnd (acquire (LkSleep l) s) (\<lambda>s.
     if sl_locked (sleeplocks s l) \<noteq> 0 then Inl (Sleep (ChSleepLock l))
     else bnd (myproc s) (\<lambda>p.
       release (LkSleep l) (set_sleeplock l \<lparr>sl_locked = 1, sl_pid = p_pid (procs s p)\<rparr> s)))"

definition releasesleep :: "slock \<Rightarrow> 'a ksleep_scheme \<Rightarrow> 'a ksleep_scheme result" where
  "releasesleep l s =
     bnd (acquire (LkSleep l) s) (\<lambda>s.
     bnd (wakeup (ChSleepLock l) (set_sleeplock l \<lparr>sl_locked = 0, sl_pid = 0\<rparr> s)) (\<lambda>s.
     release (LkSleep l) s))"

definition holdingsleep :: "slock \<Rightarrow> 'a ksleep_scheme \<Rightarrow> (bool \<times> 'a ksleep_scheme) result" where
  "holdingsleep l s =
     bnd (acquire (LkSleep l) s) (\<lambda>s.
     bnd (if sl_locked (sleeplocks s l) \<noteq> 0
          then bnd (myproc s) (\<lambda>p. Inr (sl_pid (sleeplocks s l) = p_pid (procs s p))) else Inr False) (\<lambda>r.
     bnd (release (LkSleep l) s) (\<lambda>s. Inr (r, s))))"

section \<open>Lemmas\<close>

text \<open>
  \<open>idle p s\<close>: process \<open>p\<close> runs on this CPU and holds no spin lock, as everywhere outside the
  short critical sections of the file system.
\<close>

definition running :: "nat \<Rightarrow> 'a kproc_scheme \<Rightarrow> bool" where
  "running p s \<longleftrightarrow> cur s = Some p \<and> held s = {}"

definition owner :: "nat \<Rightarrow> slock \<Rightarrow> 'a ksleep_scheme \<Rightarrow> bool" where
  "owner p l s \<longleftrightarrow> sl_locked (sleeplocks s l) \<noteq> 0 \<and> sl_pid (sleeplocks s l) = p_pid (procs s p)"

lemma held_update_id [simp]: "held s = h \<Longrightarrow> s\<lparr>held := h\<rparr> = s"
  by (cases s) simp

lemma set_sleeplock_simps [simp]:
  "held (set_sleeplock l v s) = held s" "cur (set_sleeplock l v s) = cur s" "procs (set_sleeplock l v s) = procs s"
  "sleeplocks (set_sleeplock l v s) = (sleeplocks s)(l := v)" "ram (set_sleeplock l v s) = ram s"
  "ksleep.more (set_sleeplock l v s) = ksleep.more s"
  by (simp_all add: set_sleeplock_def)

lemma acquiresleep_free:
  assumes "running p s" "sl_locked (sleeplocks s l) = 0"
  shows "acquiresleep l s = Inr (set_sleeplock l \<lparr>sl_locked = 1, sl_pid = p_pid (procs s p)\<rparr> s)"
  using assms by (simp add: acquiresleep_def running_def myproc_def set_sleeplock_def)

lemma acquiresleep_busy:
  "running p s \<Longrightarrow> sl_locked (sleeplocks s l) \<noteq> 0 \<Longrightarrow> acquiresleep l s = Inl (Sleep (ChSleepLock l))"
  by (simp add: acquiresleep_def running_def)

lemma holdingsleep_eq: "running p s \<Longrightarrow> holdingsleep l s = Inr (owner p l s, s)"
  by (auto simp: holdingsleep_def running_def owner_def myproc_def)

lemma releasesleep_eq:
  assumes "running p s"
  shows "releasesleep l s = Inr (wake_all (ChSleepLock l) (set_sleeplock l \<lparr>sl_locked = 0, sl_pid = 0\<rparr> s))"
proof -
  have "no_proc_lock (set_sleeplock l \<lparr>sl_locked = 0, sl_pid = 0\<rparr> (s\<lparr>held := {LkSleep l}\<rparr>))"
    by (simp add: no_proc_lock_def)
  then show ?thesis using assms
    by (simp add: releasesleep_def running_def wakeup_eq) (simp add: set_sleeplock_def wake_all_def cong: if_cong)
qed

end
