(* ===== verification/Bio.thy ===== *)
theory Bio
  imports Sleeplock
begin

text \<open>
  The buffer cache of kernel/bio.c: 30 buffers on a doubly linked list in order of last use.
  Buffer \<open>i\<close> is node \<open>i\<close> of the list, the list head node 30. The disk is a map from block
  numbers to blocks of 1024 bytes, with the sequence of writes it has seen as a history
  variable; kernel/virtio_disk.c, the driver, is the theory of its own.
\<close>

type_synonym block = "u8 list"

abbreviation (input) BSIZE :: nat where "BSIZE \<equiv> 1024"
abbreviation (input) ROOTDEV :: u32 where "ROOTDEV \<equiv> 1"
abbreviation (input) HEAD :: nat where "HEAD \<equiv> 30"

record buf =
  b_valid :: u32
  b_dev :: u32
  b_blockno :: u32
  b_refcnt :: u32
  b_prev :: nat
  b_next :: nat
  b_data :: block

record kbio = ksleep +
  bufs :: "nat \<Rightarrow> buf"
  disk :: "u32 \<Rightarrow> block"
  dwrites :: "(u32 \<times> block) list"

definition upd_buf :: "nat \<Rightarrow> (buf \<Rightarrow> buf) \<Rightarrow> 'a kbio_scheme \<Rightarrow> 'a kbio_scheme" where
  "upd_buf b f s = s\<lparr>bufs := (bufs s)(b := f (bufs s b))\<rparr>"

section \<open>Operations\<close>

definition binit_link :: "nat \<Rightarrow> 'a kbio_scheme \<Rightarrow> 'a kbio_scheme" where
  "binit_link b s =
     (let s = upd_buf b (\<lambda>x. x\<lparr>b_next := b_next (bufs s HEAD)\<rparr>) s;
          s = upd_buf b (\<lambda>x. x\<lparr>b_prev := HEAD\<rparr>) s;
          s = initsleeplock (BufSL b) s;
          s = upd_buf (b_next (bufs s HEAD)) (\<lambda>x. x\<lparr>b_prev := b\<rparr>) s
      in upd_buf HEAD (\<lambda>x. x\<lparr>b_next := b\<rparr>) s)"

definition binit :: "'a kbio_scheme \<Rightarrow> 'a kbio_scheme" where
  "binit s = fold binit_link [0..<NBUF] (upd_buf HEAD (\<lambda>x. x\<lparr>b_prev := HEAD, b_next := HEAD\<rparr>) s)"

text \<open>
  The two scans of \<open>bget\<close> follow the list until they come back to the head; \<open>n\<close> bounds the
  number of nodes they look at.
\<close>

fun find_next :: "nat \<Rightarrow> (buf \<Rightarrow> bool) \<Rightarrow> (nat \<Rightarrow> buf) \<Rightarrow> nat \<Rightarrow> nat option result" where
  "find_next 0 P bs b = Inl NoFuel"
| "find_next (Suc n) P bs b =
     (if b = HEAD then Inr None else if P (bs b) then Inr (Some b) else find_next n P bs (b_next (bs b)))"

fun find_prev :: "nat \<Rightarrow> (buf \<Rightarrow> bool) \<Rightarrow> (nat \<Rightarrow> buf) \<Rightarrow> nat \<Rightarrow> nat option result" where
  "find_prev 0 P bs b = Inl NoFuel"
| "find_prev (Suc n) P bs b =
     (if b = HEAD then Inr None else if P (bs b) then Inr (Some b) else find_prev n P bs (b_prev (bs b)))"

definition bget :: "u32 \<Rightarrow> u32 \<Rightarrow> 'a kbio_scheme \<Rightarrow> (nat \<times> 'a kbio_scheme) result" where
  "bget dev blockno s =
     bnd (acquire LkBcache s) (\<lambda>s.
     bnd (find_next (NBUF + 1) (\<lambda>b. b_dev b = dev \<and> b_blockno b = blockno) (bufs s) (b_next (bufs s HEAD))) (\<lambda>r.
     case r of
       Some b \<Rightarrow>
         let s = upd_buf b (\<lambda>x. x\<lparr>b_refcnt := b_refcnt x + 1\<rparr>) s in
         bnd (release LkBcache s) (\<lambda>s.
         bnd (acquiresleep (BufSL b) s) (\<lambda>s. Inr (b, s)))
     | None \<Rightarrow>
         bnd (find_prev (NBUF + 1) (\<lambda>b. b_refcnt b = 0) (bufs s) (b_prev (bufs s HEAD))) (\<lambda>r.
         case r of
           Some b \<Rightarrow>
             let s = upd_buf b (\<lambda>x. x\<lparr>b_dev := dev, b_blockno := blockno, b_valid := 0, b_refcnt := 1\<rparr>) s in
             bnd (release LkBcache s) (\<lambda>s.
             bnd (acquiresleep (BufSL b) s) (\<lambda>s. Inr (b, s)))
         | None \<Rightarrow> Inl (Panic ''bget: no buffers''))))"

text \<open>What a finished transfer of the disk driver does.\<close>

definition disk_rw :: "nat \<Rightarrow> bool \<Rightarrow> 'a kbio_scheme \<Rightarrow> 'a kbio_scheme" where
  "disk_rw b wr s =
     (let n = b_blockno (bufs s b) in
      if wr then s\<lparr>disk := (disk s)(n := b_data (bufs s b)), dwrites := dwrites s @ [(n, b_data (bufs s b))]\<rparr>
      else upd_buf b (\<lambda>x. x\<lparr>b_data := disk s n\<rparr>) s)"

definition bread :: "u32 \<Rightarrow> u32 \<Rightarrow> 'a kbio_scheme \<Rightarrow> (nat \<times> 'a kbio_scheme) result" where
  "bread dev blockno s =
     bnd (bget dev blockno s) (\<lambda>(b, s).
     if b_valid (bufs s b) = 0
     then Inr (b, upd_buf b (\<lambda>x. x\<lparr>b_valid := 1\<rparr>) (disk_rw b False s))
     else Inr (b, s))"

definition bwrite :: "nat \<Rightarrow> 'a kbio_scheme \<Rightarrow> 'a kbio_scheme result" where
  "bwrite b s =
     bnd (holdingsleep (BufSL b) s) (\<lambda>(r, s).
     if \<not> r then Inl (Panic ''bwrite'') else Inr (disk_rw b True s))"

definition move_front :: "nat \<Rightarrow> 'a kbio_scheme \<Rightarrow> 'a kbio_scheme" where
  "move_front b s =
     (let s = upd_buf (b_next (bufs s b)) (\<lambda>x. x\<lparr>b_prev := b_prev (bufs s b)\<rparr>) s;
          s = upd_buf (b_prev (bufs s b)) (\<lambda>x. x\<lparr>b_next := b_next (bufs s b)\<rparr>) s;
          s = upd_buf b (\<lambda>x. x\<lparr>b_next := b_next (bufs s HEAD)\<rparr>) s;
          s = upd_buf b (\<lambda>x. x\<lparr>b_prev := HEAD\<rparr>) s;
          s = upd_buf (b_next (bufs s HEAD)) (\<lambda>x. x\<lparr>b_prev := b\<rparr>) s
      in upd_buf HEAD (\<lambda>x. x\<lparr>b_next := b\<rparr>) s)"

definition brelse :: "nat \<Rightarrow> 'a kbio_scheme \<Rightarrow> 'a kbio_scheme result" where
  "brelse b s =
     bnd (holdingsleep (BufSL b) s) (\<lambda>(r, s).
     if \<not> r then Inl (Panic ''brelse'')
     else bnd (releasesleep (BufSL b) s) (\<lambda>s.
       bnd (acquire LkBcache s) (\<lambda>s.
       let s = upd_buf b (\<lambda>x. x\<lparr>b_refcnt := b_refcnt x - 1\<rparr>) s;
           s = (if b_refcnt (bufs s b) = 0 then move_front b s else s)
       in release LkBcache s)))"

definition bpin :: "nat \<Rightarrow> 'a kbio_scheme \<Rightarrow> 'a kbio_scheme result" where
  "bpin b s =
     bnd (acquire LkBcache s) (\<lambda>s.
     release LkBcache (upd_buf b (\<lambda>x. x\<lparr>b_refcnt := b_refcnt x + 1\<rparr>) s))"

definition bunpin :: "nat \<Rightarrow> 'a kbio_scheme \<Rightarrow> 'a kbio_scheme result" where
  "bunpin b s =
     bnd (acquire LkBcache s) (\<lambda>s.
     release LkBcache (upd_buf b (\<lambda>x. x\<lparr>b_refcnt := b_refcnt x - 1\<rparr>) s))"

section \<open>The list of buffers\<close>

text \<open>
  \<open>chain nx pv a xs z\<close>: following \<open>nx\<close> from \<open>a\<close> visits \<open>xs\<close> and then \<open>z\<close>, and \<open>pv\<close> leads back.
\<close>

fun chain :: "(nat \<Rightarrow> nat) \<Rightarrow> (nat \<Rightarrow> nat) \<Rightarrow> nat \<Rightarrow> nat list \<Rightarrow> nat \<Rightarrow> bool" where
  "chain nx pv a [] z = (nx a = z \<and> pv z = a)"
| "chain nx pv a (x # xs) z = (nx a = x \<and> pv x = a \<and> chain nx pv x xs z)"

definition nexts :: "(nat \<Rightarrow> buf) \<Rightarrow> nat \<Rightarrow> nat" where
  "nexts bs = (\<lambda>i. b_next (bs i))"

definition prevs :: "(nat \<Rightarrow> buf) \<Rightarrow> nat \<Rightarrow> nat" where
  "prevs bs = (\<lambda>i. b_prev (bs i))"

definition lru :: "(nat \<Rightarrow> buf) \<Rightarrow> nat list \<Rightarrow> bool" where
  "lru bs xs \<longleftrightarrow> chain (nexts bs) (prevs bs) HEAD xs HEAD \<and> distinct xs \<and> set xs = {0..<NBUF}"

lemma chain_append: "chain nx pv a (us @ b # vs) z \<longleftrightarrow> chain nx pv a us b \<and> chain nx pv b vs z"
  by (induction us arbitrary: a) auto

lemma chain_nx_cong: "chain nx pv a xs z \<Longrightarrow> (\<And>x. x \<in> insert a (set xs) \<Longrightarrow> nx' x = nx x) \<Longrightarrow>
    (\<And>x. x \<in> insert z (set xs) \<Longrightarrow> pv' x = pv x) \<Longrightarrow> chain nx' pv' a xs z"
  by (induction xs arbitrary: a) auto

lemma chain_ends: "chain nx pv a us b \<Longrightarrow> nx a = hd (us @ [b]) \<and> pv b = last (a # us)"
  by (induction us arbitrary: a) auto

lemma chain_relink:
  "chain nx pv a us b \<Longrightarrow> b \<notin> set us \<Longrightarrow> c \<notin> set us \<Longrightarrow> distinct (a # us) \<Longrightarrow>
    chain (nx(last (a # us) := c)) (pv(c := last (a # us))) a us c"
proof (induction us arbitrary: a)
  case (Cons x us)
  from Cons.prems have "chain nx pv x us b" "nx a = x" "pv x = a" "x \<noteq> a" "a \<notin> set us" by auto
  with Cons show ?case by auto
qed auto

lemma chain_unlink:
  assumes "chain nx pv a (us @ b # vs) z" "distinct (us @ b # vs)" "a \<notin> set (us @ b # vs)" "z \<notin> set (us @ b # vs)"
  shows "chain (nx(pv b := nx b)) (pv(nx b := pv b)) a (us @ vs) z"
proof (cases vs)
  case Nil
  with assms have c: "chain nx pv a us b" "nx b = z" "pv b = last (a # us)"
    using chain_ends [of nx pv a us b] by (auto simp: chain_append)
  with chain_relink [OF c(1), of z] assms Nil show ?thesis by auto
next
  case (Cons v vs')
  with assms have c: "chain nx pv a us b" "nx b = v" "pv v = b" "chain nx pv v vs' z" "pv b = last (a # us)"
    using chain_ends [of nx pv a us b] by (auto simp: chain_append)
  have "chain (nx(last (a # us) := v)) (pv(v := last (a # us))) a us v"
    using chain_relink [OF c(1), of v] assms Cons by auto
  moreover have "chain (nx(last (a # us) := v)) (pv(v := last (a # us))) v vs' z"
    using c(4) by (rule chain_nx_cong) (use assms Cons last_in_set [of "a # us"] in auto)
  ultimately show ?thesis using c(2,5) Cons by (simp add: chain_append)
qed

lemma chain_push:
  assumes "chain nx pv h xs h" "b \<notin> set xs" "b \<noteq> h" "h \<notin> set xs" "distinct xs"
  shows "chain (nx(b := nx h, h := b)) (pv(b := h, nx h := b)) h (b # xs) h"
proof (cases xs)
  case (Cons x xs')
  with assms have "chain nx pv x xs' h" "nx h = x" "pv x = h" by auto
  moreover have "chain (nx(b := x, h := b)) (pv(b := h, x := b)) x xs' h"
    using calculation(1) by (rule chain_nx_cong) (use assms Cons in auto)
  ultimately show ?thesis using Cons assms by auto
qed (use assms in auto)

lemma nexts_simps [simp]:
  "nexts (bs(b := x)) = (nexts bs)(b := b_next x)" "prevs (bs(b := x)) = (prevs bs)(b := b_prev x)"
  by (auto simp: nexts_def prevs_def)

lemma upd_buf_simps [simp]:
  "bufs (upd_buf b f s) = (bufs s)(b := f (bufs s b))" "held (upd_buf b f s) = held s"
  "cur (upd_buf b f s) = cur s" "procs (upd_buf b f s) = procs s" "sleeplocks (upd_buf b f s) = sleeplocks s"
  "disk (upd_buf b f s) = disk s" "dwrites (upd_buf b f s) = dwrites s" "ram (upd_buf b f s) = ram s"
  "kbio.more (upd_buf b f s) = kbio.more s"
  by (simp_all add: upd_buf_def)

lemma bio_other_simps [simp]:
  "bufs (set_sleeplock l v s) = bufs s" "disk (set_sleeplock l v s) = disk s" "dwrites (set_sleeplock l v s) = dwrites s"
  "bufs (wake_all c s) = bufs s" "disk (wake_all c s) = disk s" "dwrites (wake_all c s) = dwrites s"
  "sleeplocks (wake_all c s) = sleeplocks s" "kbio.more (set_sleeplock l v s) = kbio.more s"
  "kbio.more (wake_all c s) = kbio.more s"
  by (simp_all add: set_sleeplock_def wake_all_def)

lemma nexts_upd:
  "nexts (bufs (upd_buf i (\<lambda>x. x\<lparr>b_prev := v\<rparr>) s)) = nexts (bufs s)"
  "prevs (bufs (upd_buf i (\<lambda>x. x\<lparr>b_prev := v\<rparr>) s)) = (prevs (bufs s))(i := v)"
  "nexts (bufs (upd_buf i (\<lambda>x. x\<lparr>b_next := v\<rparr>) s)) = (nexts (bufs s))(i := v)"
  "prevs (bufs (upd_buf i (\<lambda>x. x\<lparr>b_next := v\<rparr>) s)) = prevs (bufs s)"
  by (auto simp: nexts_def prevs_def fun_eq_iff)

lemma nexts_at: "b_next (bufs s i) = nexts (bufs s) i" "b_prev (bufs s i) = prevs (bufs s) i"
  by (simp_all add: nexts_def prevs_def)

text \<open>The contents of a buffer without its links.\<close>

definition core :: "buf \<Rightarrow> buf" where
  "core x = x\<lparr>b_prev := 0, b_next := 0\<rparr>"

lemma core_simps [simp]:
  "core (x\<lparr>b_prev := i\<rparr>) = core x" "core (x\<lparr>b_next := i\<rparr>) = core x"
  by (simp_all add: core_def)

lemma core_fields:
  assumes "core x = core y"
  shows "b_valid x = b_valid y" "b_dev x = b_dev y" "b_blockno x = b_blockno y" "b_refcnt x = b_refcnt y"
    "b_data x = b_data y"
  using assms by (cases x, cases y, simp add: core_def)+

text \<open>\<open>move_front\<close> only changes links: it moves \<open>b\<close> to the front of the list.\<close>

lemma upd_buf_core: "(\<And>x. core (f x) = core x) \<Longrightarrow> core (bufs (upd_buf b f s) i) = core (bufs s i)"
  by simp

lemma move_front_core: "core (bufs (move_front b s) i) = core (bufs s i)"
  unfolding move_front_def Let_def by (simp only: upd_buf_core core_simps)

lemma only_bufs_upd: "\<exists>bs. t = s\<lparr>bufs := bs\<rparr> \<Longrightarrow> \<exists>bs. upd_buf b f t = s\<lparr>bufs := bs\<rparr>"
  by (auto simp: upd_buf_def)

lemma only_bufs_refl: "\<exists>bs. s = (s :: 'a kbio_scheme)\<lparr>bufs := bs\<rparr>"
  by (rule exI [of _ "bufs s"]) simp

lemma move_front_rest: "move_front b s = s\<lparr>bufs := bufs (move_front b s)\<rparr>"
proof -
  have "\<exists>bs. move_front b s = s\<lparr>bufs := bs\<rparr>"
    unfolding move_front_def Let_def by (intro only_bufs_upd only_bufs_refl)
  then show ?thesis by auto
qed

lemma lru_move_front:
  assumes l: "lru (bufs s) (us @ b # vs)"
  shows "lru (bufs (move_front b s)) (b # us @ vs)"
proof -
  let ?nx = "nexts (bufs s)" and ?pv = "prevs (bufs s)"
  have h: "HEAD \<notin> set (us @ b # vs)" using l by (auto simp: lru_def)
  have c: "chain ?nx ?pv HEAD (us @ b # vs) HEAD" "distinct (us @ b # vs)" using l by (auto simp: lru_def)
  define nx pv where "nx = ?nx(?pv b := ?nx b)" and "pv = ?pv(?nx b := ?pv b)"
  have u: "chain nx pv HEAD (us @ vs) HEAD" unfolding nx_def pv_def by (rule chain_unlink [OF c h h])
  have nb: "?nx b \<noteq> b" "?pv b \<noteq> b"
  proof -
    have "?pv b = last (HEAD # us)" "?nx b = hd (vs @ [HEAD])"
      using c(1) chain_ends [of ?nx ?pv HEAD us b] chain_ends [of ?nx ?pv b vs HEAD] by (auto simp: chain_append)
    moreover have "last (HEAD # us) \<in> insert HEAD (set us)" using last_in_set [of "HEAD # us"] by simp
    moreover have "hd (vs @ [HEAD]) \<in> insert HEAD (set vs)" by (cases vs) auto
    ultimately show "?nx b \<noteq> b" "?pv b \<noteq> b" using c(2) h by auto
  qed
  have "chain (nx(b := nx HEAD, HEAD := b)) (pv(b := HEAD, nx HEAD := b)) HEAD (b # us @ vs) HEAD"
    using u c(2) h by (intro chain_push) auto
  moreover have "nexts (bufs (move_front b s)) = nx(b := nx HEAD, HEAD := b)"
    "prevs (bufs (move_front b s)) = pv(b := HEAD, nx HEAD := b)"
    unfolding move_front_def Let_def nexts_at nexts_upd nx_def pv_def using nb h by simp_all
  ultimately show ?thesis using l by (auto simp: lru_def)
qed

lemma find_next_chain:
  assumes "chain (nexts bs) pv a xs HEAD" "HEAD \<notin> set xs" "length xs < n"
  shows "find_next n P bs (b_next (bs a)) = Inr (List.find (\<lambda>b. P (bs b)) xs)"
  using assms
proof (induction xs arbitrary: a n)
  case Nil
  then show ?case by (cases n) (auto simp: nexts_def)
next
  case (Cons x xs)
  then obtain m where m: "n = Suc m" "length xs < m" by (cases n) auto
  with Cons.IH [of x m] Cons.prems show ?case by (auto simp: nexts_def)
qed

lemma chain_rev: "chain nx pv a xs z \<longleftrightarrow> chain pv nx z (rev xs) a"
  by (induction xs arbitrary: a) (auto simp: chain_append)

lemma find_prev_chain:
  assumes "chain nx (prevs bs) HEAD xs a" "HEAD \<notin> set xs" "length xs < n"
  shows "find_prev n P bs (b_prev (bs a)) = Inr (List.find (\<lambda>b. P (bs b)) (rev xs))"
proof -
  have *: "find_prev n P bs (b_prev (bs a)) = Inr (List.find (\<lambda>b. P (bs b)) ys)"
    if "chain (prevs bs) nx a ys HEAD" "HEAD \<notin> set ys" "length ys < n" for ys n a
    using that
  proof (induction ys arbitrary: a n)
    case Nil
    then show ?case by (cases n) (auto simp: prevs_def)
  next
    case (Cons x xs)
    then obtain m where m: "n = Suc m" "length xs < m" by (cases n) auto
    with Cons.IH [of x m] Cons.prems show ?case by (auto simp: prevs_def)
  qed
  show ?thesis using * [of a "rev xs" n] assms by (simp add: chain_rev [of nx])
qed

lemma lru_length: "lru bs xs \<Longrightarrow> length xs = NBUF"
  using distinct_card [of xs] by (simp add: lru_def)

lemma lru_cong:
  assumes "lru bs xs" "nexts bs' = nexts bs" "prevs bs' = prevs bs" shows "lru bs' xs"
  using assms by (simp add: lru_def)

section \<open>Booting the cache\<close>

lemma binit_link_lru:
  assumes "chain (nexts (bufs s)) (prevs (bufs s)) HEAD xs HEAD" "distinct xs" "set xs \<subseteq> {0..<b}" "b < NBUF"
  shows "chain (nexts (bufs (binit_link b s))) (prevs (bufs (binit_link b s))) HEAD (b # xs) HEAD"
proof -
  have "chain ((nexts (bufs s))(b := nexts (bufs s) HEAD, HEAD := b))
      ((prevs (bufs s))(b := HEAD, nexts (bufs s) HEAD := b)) HEAD (b # xs) HEAD"
    using assms by (intro chain_push) auto
  moreover have "nexts (bufs (binit_link b s)) = (nexts (bufs s))(b := nexts (bufs s) HEAD, HEAD := b)"
    "prevs (bufs (binit_link b s)) = (prevs (bufs s))(b := HEAD, nexts (bufs s) HEAD := b)"
    unfolding binit_link_def Let_def nexts_at nexts_upd using assms(4)
    by (simp_all add: initsleeplock_def set_sleeplock_def nexts_at nexts_upd)
  ultimately show ?thesis by simp
qed

lemma binit_lru: "lru (bufs (binit s)) (rev [0..<NBUF])"
proof -
  let ?s = "upd_buf HEAD (\<lambda>x. x\<lparr>b_prev := HEAD, b_next := HEAD\<rparr>) s"
  have "chain (nexts (bufs (fold binit_link [0..<n] ?s))) (prevs (bufs (fold binit_link [0..<n] ?s))) HEAD (rev [0..<n]) HEAD"
    if "n \<le> NBUF" for n
    using that
  proof (induction n)
    case (Suc n)
    then show ?case using binit_link_lru [of "fold binit_link [0..<n] ?s" "rev [0..<n]" n] by simp
  qed (simp add: nexts_def prevs_def)
  from this [of NBUF] show ?thesis by (simp add: lru_def binit_def)
qed

end
