(* ===== verification/Bcache.thy ===== *)
theory Bcache
  imports Bio
begin

text \<open>
  What the buffer cache promises. The invariant: the list links all 30 buffers, at most one buffer
  holds a block of the root device, a locked buffer is referenced, and an unreferenced one is clean.
  \<open>ldisk\<close> is the disk as readers of the cache see it. The specifications of \<open>bread\<close>, \<open>bwrite\<close>,
  \<open>brelse\<close>, \<open>bpin\<close> and \<open>bunpin\<close> are for one process running alone, which is how the log commits
  and how a file system call uses its blocks.
\<close>

section \<open>The invariant\<close>

definition cached :: "'a kbio_scheme \<Rightarrow> u32 \<Rightarrow> nat option" where
  "cached s n = List.find (\<lambda>b. b_dev (bufs s b) = ROOTDEV \<and> b_blockno (bufs s b) = n) [0..<NBUF]"

text \<open>The block a reader gets: the cached copy if there is one, the disk's otherwise.\<close>

definition ldisk :: "'a kbio_scheme \<Rightarrow> u32 \<Rightarrow> block" where
  "ldisk s n = (case cached s n of
     Some b \<Rightarrow> if b_valid (bufs s b) \<noteq> 0 then b_data (bufs s b) else disk s n
   | None \<Rightarrow> disk s n)"

text \<open>
  Buffers in \<open>U\<close> are exempt from the conditions on references: recovery drops one reference
  too many while it still holds a buffer.
\<close>

definition bio_inv :: "nat set \<Rightarrow> 'a kbio_scheme \<Rightarrow> bool" where
  "bio_inv U s \<longleftrightarrow> (\<exists>xs. lru (bufs s) xs) \<and>
     (\<forall>a < NBUF. \<forall>b < NBUF. b_dev (bufs s a) = ROOTDEV \<longrightarrow> b_dev (bufs s b) = ROOTDEV \<longrightarrow>
        b_blockno (bufs s a) = b_blockno (bufs s b) \<longrightarrow> a = b) \<and>
     (\<forall>b < NBUF. b_dev (bufs s b) \<noteq> ROOTDEV \<longrightarrow> b_valid (bufs s b) = 0) \<and>
     (\<forall>b < NBUF. b \<notin> U \<longrightarrow> b_refcnt (bufs s b) = 0 \<longrightarrow> sl_locked (sleeplocks s (BufSL b)) = 0) \<and>
     (\<forall>b < NBUF. b \<notin> U \<longrightarrow> b_refcnt (bufs s b) = 0 \<longrightarrow> b_valid (bufs s b) \<noteq> 0 \<longrightarrow>
        b_data (bufs s b) = disk s (b_blockno (bufs s b)))"

lemma bio_invD:
  assumes "bio_inv U s"
  shows "\<exists>xs. lru (bufs s) xs"
    and "a < NBUF \<Longrightarrow> b < NBUF \<Longrightarrow> b_dev (bufs s a) = ROOTDEV \<Longrightarrow> b_dev (bufs s b) = ROOTDEV \<Longrightarrow>
      b_blockno (bufs s a) = b_blockno (bufs s b) \<Longrightarrow> a = b"
    and "b < NBUF \<Longrightarrow> b_valid (bufs s b) \<noteq> 0 \<Longrightarrow> b_dev (bufs s b) = ROOTDEV"
    and "b < NBUF \<Longrightarrow> b \<notin> U \<Longrightarrow> b_refcnt (bufs s b) = 0 \<Longrightarrow> sl_locked (sleeplocks s (BufSL b)) = 0"
    and "b < NBUF \<Longrightarrow> b \<notin> U \<Longrightarrow> b_refcnt (bufs s b) = 0 \<Longrightarrow> b_valid (bufs s b) \<noteq> 0 \<Longrightarrow>
      b_data (bufs s b) = disk s (b_blockno (bufs s b))"
  using assms unfolding bio_inv_def by blast+

lemma bio_invI:
  assumes "lru (bufs s) xs"
    and "\<And>a b. a < NBUF \<Longrightarrow> b < NBUF \<Longrightarrow> b_dev (bufs s a) = ROOTDEV \<Longrightarrow> b_dev (bufs s b) = ROOTDEV \<Longrightarrow>
      b_blockno (bufs s a) = b_blockno (bufs s b) \<Longrightarrow> a = b"
    and "\<And>b. b < NBUF \<Longrightarrow> b_valid (bufs s b) \<noteq> 0 \<Longrightarrow> b_dev (bufs s b) = ROOTDEV"
    and "\<And>b. b < NBUF \<Longrightarrow> b \<notin> U \<Longrightarrow> b_refcnt (bufs s b) = 0 \<Longrightarrow> sl_locked (sleeplocks s (BufSL b)) = 0"
    and "\<And>b. b < NBUF \<Longrightarrow> b \<notin> U \<Longrightarrow> b_refcnt (bufs s b) = 0 \<Longrightarrow> b_valid (bufs s b) \<noteq> 0 \<Longrightarrow>
      b_data (bufs s b) = disk s (b_blockno (bufs s b))"
  shows "bio_inv U s"
  using assms unfolding bio_inv_def by blast

lemma find_unique:
  assumes "\<And>x y. x \<in> set xs \<Longrightarrow> y \<in> set xs \<Longrightarrow> P x \<Longrightarrow> P y \<Longrightarrow> x = y" "set xs = set ys"
  shows "List.find P xs = List.find P ys"
proof -
  have S: "List.find P zs = Some z \<Longrightarrow> z \<in> set zs \<and> P z" for zs z by (auto simp: find_Some_iff)
  show ?thesis
  proof (cases "List.find P xs")
    case None
    then have "List.find P ys = None" using assms(2) by (simp add: find_None_iff)
    with None show ?thesis by simp
  next
    case (Some x)
    then have "x \<in> set ys" "P x" using S [of xs x] assms(2) by auto
    then have "List.find P ys \<noteq> None" by (auto simp: find_None_iff)
    then obtain y where "List.find P ys = Some y" by auto
    with Some S assms show ?thesis by metis
  qed
qed

lemma cached_Some_iff:
  assumes "bio_inv U s"
  shows "cached s n = Some b \<longleftrightarrow> b < NBUF \<and> b_dev (bufs s b) = ROOTDEV \<and> b_blockno (bufs s b) = n"
proof
  assume "cached s n = Some b"
  then show "b < NBUF \<and> b_dev (bufs s b) = ROOTDEV \<and> b_blockno (bufs s b) = n"
    by (auto simp: cached_def find_Some_iff)
next
  assume b: "b < NBUF \<and> b_dev (bufs s b) = ROOTDEV \<and> b_blockno (bufs s b) = n"
  then have "cached s n \<noteq> None" by (auto simp: cached_def find_None_iff)
  then obtain a where a: "cached s n = Some a" by auto
  then have "a < NBUF \<and> b_dev (bufs s a) = ROOTDEV \<and> b_blockno (bufs s a) = n"
    by (auto simp: cached_def find_Some_iff)
  with a b bio_invD(2) [OF assms] show "cached s n = Some b" by metis
qed

lemma cached_None_iff:
  "cached s n = None \<longleftrightarrow> (\<forall>b < NBUF. \<not> (b_dev (bufs s b) = ROOTDEV \<and> b_blockno (bufs s b) = n))"
  by (auto simp: cached_def find_None_iff)

lemma cached_cong:
  assumes "\<And>b. b < NBUF \<Longrightarrow> b_dev (bufs s' b) = b_dev (bufs s b) \<and> b_blockno (bufs s' b) = b_blockno (bufs s b)"
  shows "cached s' n = cached s n"
  unfolding cached_def by (rule find_cong) (use assms in auto)

text \<open>\<open>ldisk\<close> is determined by the valid buffers.\<close>

lemma ldisk_valid:
  assumes "bio_inv U s" "b < NBUF" "b_valid (bufs s b) \<noteq> 0"
  shows "ldisk s (b_blockno (bufs s b)) = b_data (bufs s b)"
proof -
  have "cached s (b_blockno (bufs s b)) = Some b"
    using cached_Some_iff [OF assms(1)] bio_invD(3) [OF assms] assms(2) by simp
  then show ?thesis using assms(3) by (simp add: ldisk_def)
qed

lemma ldisk_invalid:
  assumes "bio_inv U s" "\<And>b. b < NBUF \<Longrightarrow> b_valid (bufs s b) \<noteq> 0 \<Longrightarrow> b_blockno (bufs s b) \<noteq> n"
  shows "ldisk s n = disk s n"
  using cached_Some_iff [OF assms(1), of n] assms(2) by (auto simp: ldisk_def split: option.splits)

text \<open>The rule to compare \<open>ldisk\<close> before and after: the valid buffers of either state decide.\<close>

lemma ldisk_eqI:
  assumes "bio_inv U s" "bio_inv U' s'"
    and "\<And>b. b < NBUF \<Longrightarrow> b_valid (bufs s' b) \<noteq> 0 \<Longrightarrow> b_blockno (bufs s' b) = n \<Longrightarrow> b_data (bufs s' b) = v"
    and "(\<And>b. b < NBUF \<Longrightarrow> b_valid (bufs s' b) \<noteq> 0 \<Longrightarrow> b_blockno (bufs s' b) \<noteq> n) \<Longrightarrow> disk s' n = v"
  shows "ldisk s' n = v"
proof (cases "\<exists>b < NBUF. b_valid (bufs s' b) \<noteq> 0 \<and> b_blockno (bufs s' b) = n")
  case True
  then show ?thesis using ldisk_valid [OF assms(2)] assms(3) by auto
next
  case False
  then show ?thesis using ldisk_invalid [OF assms(2)] assms(4) by auto
qed

text \<open>The two scans of \<open>bget\<close> on a state that satisfies the invariant.\<close>

lemma find_next_cached:
  assumes inv: "bio_inv U s"
  shows "find_next (NBUF + 1) (\<lambda>b. b_dev b = ROOTDEV \<and> b_blockno b = n) (bufs s) (b_next (bufs s HEAD)) =
    Inr (cached s n)"
proof -
  obtain xs where xs: "lru (bufs s) xs" using bio_invD(1) [OF inv] by blast
  then have "find_next (NBUF + 1) (\<lambda>b. b_dev b = ROOTDEV \<and> b_blockno b = n) (bufs s) (b_next (bufs s HEAD)) =
      Inr (List.find (\<lambda>b. b_dev (bufs s b) = ROOTDEV \<and> b_blockno (bufs s b) = n) xs)"
    using lru_length [OF xs] by (intro find_next_chain) (auto simp: lru_def)
  moreover have "List.find (\<lambda>b. b_dev (bufs s b) = ROOTDEV \<and> b_blockno (bufs s b) = n) xs = cached s n"
    unfolding cached_def
  proof (rule find_unique)
    show "set xs = set [0..<NBUF]" using xs by (simp add: lru_def)
    show "x = y" if "x \<in> set xs" "y \<in> set xs" "b_dev (bufs s x) = ROOTDEV \<and> b_blockno (bufs s x) = n"
      "b_dev (bufs s y) = ROOTDEV \<and> b_blockno (bufs s y) = n" for x y
      using that bio_invD(2) [OF inv] xs by (auto simp: lru_def)
  qed
  ultimately show ?thesis by simp
qed

text \<open>Recycling takes the least recently used buffer nobody references.\<close>

lemma find_prev_free:
  assumes xs: "lru (bufs s) xs"
  shows "find_prev (NBUF + 1) (\<lambda>b. b_refcnt b = 0) (bufs s) (b_prev (bufs s HEAD)) =
    Inr (List.find (\<lambda>b. b_refcnt (bufs s b) = 0) (rev xs))"
  using lru_length [OF xs] xs by (intro find_prev_chain) (auto simp: lru_def)

section \<open>Getting a buffer\<close>

definition lock_of :: "nat \<Rightarrow> 'a kproc_scheme \<Rightarrow> sleeplock" where
  "lock_of p s = \<lparr>sl_locked = 1, sl_pid = p_pid (procs s p)\<rparr>"

lemma running_simps [simp]:
  "running p (upd_buf b f s) = running p s" "running p (set_sleeplock l v s) = running p s"
  "running p (wake_all c s) = running p s"
  by (simp_all add: running_def)

lemma bget_hit:
  assumes inv: "bio_inv U s" and run: "running p s"
    and b: "cached s n = Some b" "sl_locked (sleeplocks s (BufSL b)) = 0"
  shows "bget ROOTDEV n s = Inr (b, set_sleeplock (BufSL b) (lock_of p s) (upd_buf b (\<lambda>x. x\<lparr>b_refcnt := b_refcnt x + 1\<rparr>) s))"
proof -
  let ?s = "s\<lparr>held := {LkBcache}\<rparr>"
  have inv': "bio_inv U ?s" using inv by (simp add: bio_inv_def)
  have "cached ?s n = Some b" using b(1) by (simp add: cached_def)
  with find_next_cached [OF inv', of n]
  have "bget ROOTDEV n s = bnd (acquiresleep (BufSL b) (upd_buf b (\<lambda>x. x\<lparr>b_refcnt := b_refcnt x + 1\<rparr>) s)) (\<lambda>s. Inr (b, s))"
    using run by (simp add: bget_def running_def upd_buf_def Let_def)
  also have "\<dots> = Inr (b, set_sleeplock (BufSL b) (lock_of p s) (upd_buf b (\<lambda>x. x\<lparr>b_refcnt := b_refcnt x + 1\<rparr>) s))"
    using run b(2) by (subst acquiresleep_free [where p = p]) (simp_all add: lock_of_def)
  finally show ?thesis .
qed

lemma bget_miss:
  assumes inv: "bio_inv {} s" and run: "running p s" and xs: "lru (bufs s) xs" and n: "cached s n = None"
    and b: "List.find (\<lambda>b. b_refcnt (bufs s b) = 0) (rev xs) = Some b"
  shows "bget ROOTDEV n s = Inr (b, set_sleeplock (BufSL b) (lock_of p s)
    (upd_buf b (\<lambda>x. x\<lparr>b_dev := ROOTDEV, b_blockno := n, b_valid := 0, b_refcnt := 1\<rparr>) s))"
proof -
  let ?s = "s\<lparr>held := {LkBcache}\<rparr>"
  let ?f = "\<lambda>x. x\<lparr>b_dev := ROOTDEV, b_blockno := n, b_valid := 0, b_refcnt := 1\<rparr>"
  have inv': "bio_inv {} ?s" using inv by (simp add: bio_inv_def)
  have c: "cached ?s n = None" using n by (simp add: cached_def)
  have bb: "b < NBUF" "b_refcnt (bufs s b) = 0"
  proof -
    from b obtain i where "i < length xs" "b = rev xs ! i" "b_refcnt (bufs s b) = 0" by (auto simp: find_Some_iff)
    then have "b \<in> set xs" by (metis length_rev nth_mem set_rev)
    with xs \<open>b_refcnt (bufs s b) = 0\<close> show "b < NBUF" "b_refcnt (bufs s b) = 0" by (auto simp: lru_def)
  qed
  from find_next_cached [OF inv', of n] c find_prev_free [OF xs] b
  have "bget ROOTDEV n s = bnd (acquiresleep (BufSL b) (upd_buf b ?f s)) (\<lambda>s. Inr (b, s))"
    using run by (simp add: bget_def running_def upd_buf_def Let_def)
  also have "\<dots> = Inr (b, set_sleeplock (BufSL b) (lock_of p s) (upd_buf b ?f s))"
    using run bio_invD(4) [OF inv bb(1) _ bb(2)] by (subst acquiresleep_free [where p = p]) (simp_all add: lock_of_def)
  finally show ?thesis .
qed

lemma bget_full:
  assumes inv: "bio_inv U s" and run: "running p s"
    and n: "cached s n = None" and fr: "\<And>b. b < NBUF \<Longrightarrow> b_refcnt (bufs s b) \<noteq> 0"
  shows "bget ROOTDEV n s = Inl (Panic ''bget: no buffers'')"
proof -
  let ?s = "s\<lparr>held := {LkBcache}\<rparr>"
  have inv': "bio_inv U ?s" using inv by (simp add: bio_inv_def)
  have c: "cached ?s n = None" using n by (simp add: cached_def)
  obtain xs where xs: "lru (bufs s) xs" using bio_invD(1) [OF inv] by blast
  with fr have "List.find (\<lambda>b. b_refcnt (bufs s b) = 0) (rev xs) = None" by (auto simp: find_None_iff lru_def)
  with find_next_cached [OF inv', of n] c find_prev_free [OF xs] show ?thesis
    using run by (simp add: bget_def running_def)
qed

section \<open>Reading a block\<close>

text \<open>
  What the operations on buffers leave alone: everything but the buffers, their locks, the disk
  and the state of sleeping processes.
\<close>

definition bio_frame :: "'a kbio_scheme \<Rightarrow> 'a kbio_scheme \<Rightarrow> bool" where
  "bio_frame s s' \<longleftrightarrow>
     s' = s\<lparr>procs := procs s', sleeplocks := sleeplocks s', bufs := bufs s', disk := disk s', dwrites := dwrites s'\<rparr> \<and>
     (\<forall>i. (procs s' i)\<lparr>p_state := UNUSED\<rparr> = (procs s i)\<lparr>p_state := UNUSED\<rparr>) \<and>
     (\<forall>i. sleeplocks s' (InodeSL i) = sleeplocks s (InodeSL i))"

lemma bio_frame_refl [simp]: "bio_frame s s"
  by (simp add: bio_frame_def)

lemma bio_frame_trans [trans]: "bio_frame s t \<Longrightarrow> bio_frame t u \<Longrightarrow> bio_frame s u"
proof -
  assume *: "bio_frame s t" "bio_frame t u"
  have t: "t = s\<lparr>procs := procs t, sleeplocks := sleeplocks t, bufs := bufs t, disk := disk t, dwrites := dwrites t\<rparr>"
    and u: "u = t\<lparr>procs := procs u, sleeplocks := sleeplocks u, bufs := bufs u, disk := disk u, dwrites := dwrites u\<rparr>"
    using * by (simp_all add: bio_frame_def)
  have "u = s\<lparr>procs := procs u, sleeplocks := sleeplocks u, bufs := bufs u, disk := disk u, dwrites := dwrites u\<rparr>"
    by (subst u, subst t) simp
  with * show ?thesis by (simp add: bio_frame_def)
qed

lemma bio_frameD:
  assumes "bio_frame s s'"
  shows "kbio.more s' = kbio.more s" and "ram s' = ram s" and "cur s' = cur s" and "held s' = held s"
    and "freelist s' = freelist s" and "kend s' = kend s" and "p_pid (procs s' i) = p_pid (procs s i)"
    and "p_pagetable (procs s' i) = p_pagetable (procs s i)" and "nextpid s' = nextpid s"
    and "sleeplocks s' (InodeSL i) = sleeplocks s (InodeSL i)" and "running p s' = running p s"
    and "lock_of p s' = lock_of p s"
proof -
  have s': "s' = s\<lparr>procs := procs s', sleeplocks := sleeplocks s', bufs := bufs s', disk := disk s', dwrites := dwrites s'\<rparr>"
    and p: "(procs s' i)\<lparr>p_state := UNUSED\<rparr> = (procs s i)\<lparr>p_state := UNUSED\<rparr>" for i
    using assms by (simp_all add: bio_frame_def)
  from p [of i, THEN arg_cong, of p_pid] p [of i, THEN arg_cong, of p_pagetable]
  show "p_pid (procs s' i) = p_pid (procs s i)" "p_pagetable (procs s' i) = p_pagetable (procs s i)" by simp_all
  from p [of p, THEN arg_cong, of p_pid] show "lock_of p s' = lock_of p s" by (simp add: lock_of_def)
  show "sleeplocks s' (InodeSL i) = sleeplocks s (InodeSL i)" using assms by (simp add: bio_frame_def)
  show "kbio.more s' = kbio.more s" "ram s' = ram s" "cur s' = cur s" "held s' = held s"
    "freelist s' = freelist s" "kend s' = kend s" "nextpid s' = nextpid s" "running p s' = running p s"
    by (subst s', simp add: running_def)+
qed

text \<open>
  Process \<open>p\<close> runs alone: it holds exactly the buffers in \<open>H\<close>, all of them filled.
\<close>

definition cache_ok :: "nat \<Rightarrow> nat set \<Rightarrow> nat set \<Rightarrow> 'a kbio_scheme \<Rightarrow> bool" where
  "cache_ok p H U s \<longleftrightarrow> bio_inv U s \<and> running p s \<and> H \<subseteq> {0..<NBUF} \<and>
     (\<forall>b < NBUF. b \<notin> H \<longrightarrow> sl_locked (sleeplocks s (BufSL b)) = 0) \<and>
     (\<forall>b\<in>H. sleeplocks s (BufSL b) = lock_of p s \<and> b_valid (bufs s b) \<noteq> 0)"

lemma cache_okD:
  assumes "cache_ok p H U s"
  shows "bio_inv U s" and "running p s" and "b \<in> H \<Longrightarrow> b < NBUF"
    and "b < NBUF \<Longrightarrow> b \<notin> H \<Longrightarrow> sl_locked (sleeplocks s (BufSL b)) = 0"
    and "b \<in> H \<Longrightarrow> sleeplocks s (BufSL b) = lock_of p s"
    and "b \<in> H \<Longrightarrow> b_valid (bufs s b) \<noteq> 0" and "b \<in> H \<Longrightarrow> b_dev (bufs s b) = ROOTDEV"
    and "b \<in> H \<Longrightarrow> owner p (BufSL b) s"
  using assms bio_invD(3) [of U s b] unfolding cache_ok_def owner_def lock_of_def by auto

lemma cache_okI:
  assumes "bio_inv U s" "running p s" "H \<subseteq> {0..<NBUF}"
    and "\<And>b. b < NBUF \<Longrightarrow> b \<notin> H \<Longrightarrow> sl_locked (sleeplocks s (BufSL b)) = 0"
    and "\<And>b. b \<in> H \<Longrightarrow> sleeplocks s (BufSL b) = lock_of p s \<and> b_valid (bufs s b) \<noteq> 0"
  shows "cache_ok p H U s"
  using assms unfolding cache_ok_def by blast

lemma held_block_unique:
  assumes "cache_ok p H U s" "b \<in> H" "a < NBUF" "b_valid (bufs s a) \<noteq> 0" "b_blockno (bufs s a) = b_blockno (bufs s b)"
  shows "a = b"
  using bio_invD(2,3) [OF cache_okD(1) [OF assms(1)]] cache_okD(3,7) [OF assms(1)] assms(2-5) by metis

lemma ldisk_held: "cache_ok p H U s \<Longrightarrow> b \<in> H \<Longrightarrow> ldisk s (b_blockno (bufs s b)) = b_data (bufs s b)"
  using ldisk_valid cache_okD by metis

text \<open>
  Reading block \<open>n\<close> can succeed if nobody holds it and there is a buffer for it; \<open>new_ref\<close> is the
  reference count the buffer then has.
\<close>

definition readable :: "nat set \<Rightarrow> 'a kbio_scheme \<Rightarrow> u32 \<Rightarrow> bool" where
  "readable H s n \<longleftrightarrow> (case cached s n of
     Some b \<Rightarrow> b \<notin> H \<and> b_refcnt (bufs s b) + 1 \<noteq> 0
   | None \<Rightarrow> \<exists>b < NBUF. b_refcnt (bufs s b) = 0)"

definition new_ref :: "'a kbio_scheme \<Rightarrow> u32 \<Rightarrow> u32" where
  "new_ref s n = (case cached s n of Some b \<Rightarrow> b_refcnt (bufs s b) + 1 | None \<Rightarrow> 1)"

text \<open>The state after a successful \<open>bread\<close> that returned \<open>b\<close>.\<close>

definition read_post :: "nat \<Rightarrow> u32 \<Rightarrow> 'a kbio_scheme \<Rightarrow> nat \<Rightarrow> 'a kbio_scheme \<Rightarrow> bool" where
  "read_post p n s b s' \<longleftrightarrow> (\<exists>v. v \<noteq> 0 \<and>
     s' = set_sleeplock (BufSL b) (lock_of p s) (upd_buf b (\<lambda>x. x\<lparr>b_dev := ROOTDEV, b_blockno := n,
       b_refcnt := new_ref s n, b_valid := v, b_data := ldisk s n\<rparr>) s))"

lemma upd_buf_upd_buf: "upd_buf b f (upd_buf b g s) = upd_buf b (\<lambda>x. f (g x)) s"
  by (simp add: upd_buf_def)

lemma upd_buf_set_sleeplock: "upd_buf b f (set_sleeplock l v s) = set_sleeplock l v (upd_buf b f s)"
  by (cases s) (simp add: upd_buf_def set_sleeplock_def)

lemma upd_buf_eqI: "f (bufs s b) = g (bufs s b) \<Longrightarrow> upd_buf b f s = upd_buf b g s"
  by (simp add: upd_buf_def)

lemma bread_hit:
  assumes ok: "cache_ok p H U s" and b: "cached s n = Some b" "b \<notin> H"
  shows "\<exists>s'. bread ROOTDEV n s = Inr (b, s') \<and> read_post p n s b s'"
proof -
  note inv = cache_okD(1) [OF ok] and run = cache_okD(2) [OF ok]
  have bb: "b < NBUF" "b_dev (bufs s b) = ROOTDEV" "b_blockno (bufs s b) = n"
    using cached_Some_iff [OF inv] b(1) by auto
  have g: "bget ROOTDEV n s = Inr (b, set_sleeplock (BufSL b) (lock_of p s) (upd_buf b (\<lambda>x. x\<lparr>b_refcnt := b_refcnt x + 1\<rparr>) s))"
    using bget_hit [OF inv run b(1)] cache_okD(4) [OF ok bb(1) b(2)] by simp
  define v where "v = (if b_valid (bufs s b) = 0 then 1 else b_valid (bufs s b))"
  have v: "v \<noteq> 0" by (simp add: v_def)
  have "bread ROOTDEV n s = Inr (b, set_sleeplock (BufSL b) (lock_of p s) (upd_buf b (\<lambda>x. x\<lparr>b_dev := ROOTDEV, b_blockno := n,
       b_refcnt := new_ref s n, b_valid := v, b_data := ldisk s n\<rparr>) s))"
    unfolding bread_def g using b(1) bb
    by (auto simp: disk_rw_def upd_buf_upd_buf upd_buf_set_sleeplock v_def ldisk_def new_ref_def
        intro!: arg_cong [where f = "set_sleeplock _ _"] upd_buf_eqI buf.equality)
  with v show ?thesis by (auto simp: read_post_def)
qed

lemma bread_miss:
  assumes ok: "cache_ok p H {} s" and n: "cached s n = None" and fr: "\<exists>b < NBUF. b_refcnt (bufs s b) = 0"
  shows "\<exists>b s'. bread ROOTDEV n s = Inr (b, s') \<and> read_post p n s b s' \<and> b < NBUF \<and> b_refcnt (bufs s b) = 0"
proof -
  note inv = cache_okD(1) [OF ok] and run = cache_okD(2) [OF ok]
  obtain xs where xs: "lru (bufs s) xs" using bio_invD(1) [OF inv] by blast
  have "List.find (\<lambda>b. b_refcnt (bufs s b) = 0) (rev xs) \<noteq> None"
    using fr xs by (auto simp: find_None_iff lru_def)
  then obtain b where b: "List.find (\<lambda>b. b_refcnt (bufs s b) = 0) (rev xs) = Some b" by auto
  then obtain i where "i < length xs" "b = rev xs ! i" "b_refcnt (bufs s b) = 0" by (auto simp: find_Some_iff)
  then have bb: "b < NBUF" "b_refcnt (bufs s b) = 0"
    using xs nth_mem [of i "rev xs"] by (auto simp: lru_def)
  have "bread ROOTDEV n s = Inr (b, set_sleeplock (BufSL b) (lock_of p s) (upd_buf b (\<lambda>x. x\<lparr>b_dev := ROOTDEV, b_blockno := n,
       b_refcnt := new_ref s n, b_valid := 1, b_data := ldisk s n\<rparr>) s))"
    unfolding bread_def bget_miss [OF inv run xs n b] using n
    by (auto simp: disk_rw_def upd_buf_upd_buf upd_buf_set_sleeplock ldisk_def new_ref_def
        intro!: arg_cong [where f = "set_sleeplock _ _"] upd_buf_eqI buf.equality)
  with bb show ?thesis by (auto simp: read_post_def intro!: exI [of _ 1])
qed

lemma read_post_fields:
  assumes "read_post p n s b s'"
  shows "bio_frame s s'" "disk s' = disk s" "dwrites s' = dwrites s" "\<And>i. i \<noteq> b \<Longrightarrow> bufs s' i = bufs s i"
    "b_dev (bufs s' b) = ROOTDEV" "b_blockno (bufs s' b) = n" "b_data (bufs s' b) = ldisk s n"
    "b_refcnt (bufs s' b) = new_ref s n" "b_valid (bufs s' b) \<noteq> 0"
    "sleeplocks s' = (sleeplocks s)(BufSL b := lock_of p s)" "nexts (bufs s') = nexts (bufs s)"
    "prevs (bufs s') = prevs (bufs s)"
  using assms unfolding read_post_def bio_frame_def
  by (auto simp: set_sleeplock_def upd_buf_def nexts_def prevs_def fun_eq_iff)

lemma read_post_ok:
  assumes ok: "cache_ok p H {} s" and rp: "read_post p n s b s'" and b: "b < NBUF"
    and c: "cached s n = Some b \<and> b \<notin> H \<and> b_refcnt (bufs s b) + 1 \<noteq> 0 \<or> cached s n = None \<and> b_refcnt (bufs s b) = 0"
  shows "b \<notin> H" "cache_ok p (insert b H) {} s'" "ldisk s' m = ldisk s m"
proof -
  note inv = cache_okD(1) [OF ok] and run = cache_okD(2) [OF ok] and F = read_post_fields [OF rp]
  show nb: "b \<notin> H"
    using c cache_okD(5) [OF ok, of b] bio_invD(4) [OF inv b] by (auto simp: lock_of_def)
  have ref: "new_ref s n \<noteq> 0" using c by (auto simp: new_ref_def)
  have uniq: "a = b" if "a < NBUF" "b_dev (bufs s a) = ROOTDEV" "b_blockno (bufs s a) = n" for a
  proof -
    have "cached s n = Some a" using that cached_Some_iff [OF inv, of n a] by blast
    with c show ?thesis by auto
  qed
  obtain xs where xs: "lru (bufs s) xs" using bio_invD(1) [OF inv] by blast
  have inv': "bio_inv {} s'"
  proof (rule bio_invI)
    show "lru (bufs s') xs" using xs F(11,12) by (rule lru_cong)
    show "a = a'" if "a < NBUF" "a' < NBUF" "b_dev (bufs s' a) = ROOTDEV" "b_dev (bufs s' a') = ROOTDEV"
      "b_blockno (bufs s' a) = b_blockno (bufs s' a')" for a a'
      using that bio_invD(2) [OF inv that(1,2)] uniq F(4-6) by metis
    show "b_dev (bufs s' a) = ROOTDEV" if "a < NBUF" "b_valid (bufs s' a) \<noteq> 0" for a
      using that bio_invD(3) [OF inv that(1)] F(4,5) by metis
    show "sl_locked (sleeplocks s' (BufSL a)) = 0" if "a < NBUF" "a \<notin> {}" "b_refcnt (bufs s' a) = 0" for a
      using that bio_invD(4) [OF inv that(1,2)] F(4,8,10) ref by (cases "a = b") auto
    show "b_data (bufs s' a) = disk s' (b_blockno (bufs s' a))"
      if "a < NBUF" "a \<notin> {}" "b_refcnt (bufs s' a) = 0" "b_valid (bufs s' a) \<noteq> 0" for a
      using that bio_invD(5) [OF inv that(1,2)] F(2,4,8) ref by (cases "a = b") auto
  qed
  show "cache_ok p (insert b H) {} s'"
  proof (rule cache_okI [OF inv'])
    show "running p s'" using run bio_frameD(11) [OF F(1)] by simp
    show "insert b H \<subseteq> {0..<NBUF}" using b cache_okD(3) [OF ok] by auto
    show "sl_locked (sleeplocks s' (BufSL a)) = 0" if "a < NBUF" "a \<notin> insert b H" for a
      using that cache_okD(4) [OF ok that(1)] F(10) by simp
    show "sleeplocks s' (BufSL a) = lock_of p s' \<and> b_valid (bufs s' a) \<noteq> 0" if "a \<in> insert b H" for a
      using that cache_okD(5,6) [OF ok, of a] F(4,9,10) bio_frameD(12) [OF F(1), of p] by (cases "a = b") auto
  qed
  show "ldisk s' m = ldisk s m"
  proof (rule ldisk_eqI [OF inv inv'])
    show "b_data (bufs s' a) = ldisk s m" if "a < NBUF" "b_valid (bufs s' a) \<noteq> 0" "b_blockno (bufs s' a) = m" for a
      using that ldisk_valid [OF inv that(1)] F(4,6,7) by metis
    show "disk s' m = ldisk s m" if o: "\<And>a. a < NBUF \<Longrightarrow> b_valid (bufs s' a) \<noteq> 0 \<Longrightarrow> b_blockno (bufs s' a) \<noteq> m"
    proof -
      have "b_blockno (bufs s a) \<noteq> m \<or> a = b \<and> b_refcnt (bufs s b) = 0" if "a < NBUF" "b_valid (bufs s a) \<noteq> 0" for a
      proof (cases "a = b")
        case True
        then show ?thesis using o [OF b F(9)] F(6) c cached_Some_iff [OF inv, of n b] by auto
      next
        case False
        then show ?thesis using o [OF that(1)] that(2) F(4) by metis
      qed
      moreover have "b_refcnt (bufs s b) = 0 \<Longrightarrow> b_valid (bufs s b) \<noteq> 0 \<Longrightarrow> b_blockno (bufs s b) = m \<Longrightarrow> ldisk s m = disk s m"
        using ldisk_valid [OF inv b] bio_invD(5) [OF inv b] by auto
      ultimately show ?thesis using ldisk_invalid [OF inv, of m] F(2) by metis
    qed
  qed
qed

theorem bread_spec:
  assumes ok: "cache_ok p H {} s" and rd: "readable H s n"
  shows "\<exists>b s'. bread ROOTDEV n s = Inr (b, s') \<and> b \<notin> H \<and> cache_ok p (insert b H) {} s' \<and> bio_frame s s' \<and>
    b_blockno (bufs s' b) = n \<and> b_data (bufs s' b) = ldisk s n \<and> b_refcnt (bufs s' b) = new_ref s n \<and>
    (cached s n = None \<longrightarrow> b_refcnt (bufs s b) = 0) \<and> (\<forall>i. i \<noteq> b \<longrightarrow> bufs s' i = bufs s i) \<and>
    disk s' = disk s \<and> dwrites s' = dwrites s \<and> ldisk s' = ldisk s"
proof -
  obtain b s' where b: "bread ROOTDEV n s = Inr (b, s')" "read_post p n s b s'" "b < NBUF"
    and c: "cached s n = Some b \<and> b \<notin> H \<and> b_refcnt (bufs s b) + 1 \<noteq> 0 \<or> cached s n = None \<and> b_refcnt (bufs s b) = 0"
  proof (cases "cached s n")
    case None
    with bread_miss [OF ok None] rd that show ?thesis by (auto simp: readable_def)
  next
    case (Some b)
    with rd have *: "b \<notin> H" "b_refcnt (bufs s b) + 1 \<noteq> 0" by (auto simp: readable_def)
    moreover have "b < NBUF" using Some cached_Some_iff [OF cache_okD(1) [OF ok]] by auto
    ultimately show ?thesis using bread_hit [OF ok Some] Some that by blast
  qed
  from read_post_ok [OF ok b(2,3) c] read_post_fields [OF b(2)] b(1) c show ?thesis
    by (intro exI [of _ b] exI [of _ s']) (auto simp: fun_eq_iff)
qed

section \<open>Writing and releasing a block\<close>

text \<open>
  A change of one buffer that keeps its identity and its links, and perhaps of the disk under it.
\<close>

lemma bio_inv_upd:
  assumes inv: "bio_inv U s" and b: "b < NBUF"
    and same: "bufs s' = (bufs s)(b := x)" "sleeplocks s' = sleeplocks s"
      "\<And>n. n \<noteq> b_blockno (bufs s b) \<Longrightarrow> disk s' n = disk s n"
    and x: "b_dev x = b_dev (bufs s b)" "b_blockno x = b_blockno (bufs s b)" "b_valid x = b_valid (bufs s b)"
      "b_next x = b_next (bufs s b)" "b_prev x = b_prev (bufs s b)"
    and clean: "b_refcnt x \<noteq> 0 \<or> b \<in> U'" and U: "U - {b} \<subseteq> U'"
    and dk: "disk s' = disk s \<or> b_valid (bufs s b) \<noteq> 0"
  shows "bio_inv U' s'"
proof -
  obtain xs where xs: "lru (bufs s) xs" using bio_invD(1) [OF inv] by blast
  have f: "b_dev (bufs s' a) = b_dev (bufs s a)" "b_blockno (bufs s' a) = b_blockno (bufs s a)"
    "b_valid (bufs s' a) = b_valid (bufs s a)" "a \<noteq> b \<Longrightarrow> bufs s' a = bufs s a" for a
    using same(1) x by simp_all
  show ?thesis
  proof (rule bio_invI)
    show "lru (bufs s') xs" using xs by (rule lru_cong) (use same(1) x in \<open>auto simp: nexts_def prevs_def fun_eq_iff\<close>)
    show "a = a'" if "a < NBUF" "a' < NBUF" "b_dev (bufs s' a) = ROOTDEV" "b_dev (bufs s' a') = ROOTDEV"
      "b_blockno (bufs s' a) = b_blockno (bufs s' a')" for a a'
      using that bio_invD(2) [OF inv that(1,2)] f by metis
    show "b_dev (bufs s' a) = ROOTDEV" if "a < NBUF" "b_valid (bufs s' a) \<noteq> 0" for a
      using that bio_invD(3) [OF inv that(1)] f by metis
    show "sl_locked (sleeplocks s' (BufSL a)) = 0" if "a < NBUF" "a \<notin> U'" "b_refcnt (bufs s' a) = 0" for a
      using that bio_invD(4) [OF inv that(1)] same clean U by (cases "a = b") auto
    show "b_data (bufs s' a) = disk s' (b_blockno (bufs s' a))"
      if a: "a < NBUF" "a \<notin> U'" "b_refcnt (bufs s' a) = 0" "b_valid (bufs s' a) \<noteq> 0" for a
    proof -
      have ab: "a \<noteq> b" using a clean same(1) by auto
      then have "b_data (bufs s a) = disk s (b_blockno (bufs s a))"
        using bio_invD(5) [OF inv a(1)] a f(3) same(1) U by (metis DiffI fun_upd_apply singletonD subsetD)
      moreover have "disk s' (b_blockno (bufs s a)) = disk s (b_blockno (bufs s a))"
      proof (rule disjE [OF dk])
        assume "b_valid (bufs s b) \<noteq> 0"
        then have "b_dev (bufs s b) = ROOTDEV" "b_dev (bufs s a) = ROOTDEV"
          using bio_invD(3) [OF inv] a f(3) b by metis+
        then show ?thesis using bio_invD(2) [OF inv a(1) b] ab same(3) by metis
      qed simp
      ultimately show ?thesis using f ab by metis
    qed
  qed
qed

lemma cache_ok_upd:
  assumes ok: "cache_ok p H U s" and inv': "bio_inv U' s'" and b: "b \<in> H"
    and same: "bufs s' = (bufs s)(b := x)" "sleeplocks s' = sleeplocks s" "b_valid x = b_valid (bufs s b)"
    and fr: "bio_frame s s'"
  shows "cache_ok p H U' s'"
proof (rule cache_okI [OF inv'])
  show "running p s'" using cache_okD(2) [OF ok] bio_frameD(11) [OF fr] by simp
  show "H \<subseteq> {0..<NBUF}" using cache_okD(3) [OF ok] by auto
  show "sl_locked (sleeplocks s' (BufSL a)) = 0" if "a < NBUF" "a \<notin> H" for a
    using cache_okD(4) [OF ok that] same by simp
  show "sleeplocks s' (BufSL a) = lock_of p s' \<and> b_valid (bufs s' a) \<noteq> 0" if "a \<in> H" for a
    using cache_okD(5,6) [OF ok that] same bio_frameD(12) [OF fr, of p] cache_okD(6) [OF ok b] by simp
qed

lemma held_referenced: "cache_ok p H U s \<Longrightarrow> b \<in> H \<Longrightarrow> b_refcnt (bufs s b) \<noteq> 0 \<or> b \<in> U"
  using bio_invD(4) [OF cache_okD(1), of p H U s b] cache_okD(3,5) [of p H U s b] by (auto simp: lock_of_def)

text \<open>A holder changes the data of its buffer.\<close>

definition set_data :: "nat \<Rightarrow> block \<Rightarrow> 'a kbio_scheme \<Rightarrow> 'a kbio_scheme" where
  "set_data b d s = upd_buf b (\<lambda>x. x\<lparr>b_data := d\<rparr>) s"

lemma set_data_frame [simp]: "bio_frame s (set_data b d s)"
  by (simp add: bio_frame_def set_data_def upd_buf_def)

lemma set_data_spec:
  assumes ok: "cache_ok p H U s" and b: "b \<in> H"
  shows "cache_ok p H U (set_data b d s)"
    and "ldisk (set_data b d s) = (ldisk s)(b_blockno (bufs s b) := d)"
proof -
  let ?s = "set_data b d s"
  have bb: "b < NBUF" using cache_okD(3) [OF ok b] .
  have bs: "bufs ?s = (bufs s)(b := (bufs s b)\<lparr>b_data := d\<rparr>)" by (simp add: set_data_def)
  have inv': "bio_inv U ?s"
    using held_referenced [OF ok b]
    by (intro bio_inv_upd [OF cache_okD(1) [OF ok] bb bs]) (auto simp: set_data_def)
  show ok': "cache_ok p H U ?s" by (rule cache_ok_upd [OF ok inv' b bs _ _ set_data_frame]) (simp_all add: set_data_def)
  show "ldisk ?s = (ldisk s)(b_blockno (bufs s b) := d)"
  proof (rule ext, rule ldisk_eqI [OF cache_okD(1) [OF ok] inv'])
    fix n a
    assume a: "a < NBUF" "b_valid (bufs ?s a) \<noteq> 0" "b_blockno (bufs ?s a) = n"
    then show "b_data (bufs ?s a) = ((ldisk s)(b_blockno (bufs s b) := d)) n"
      using held_block_unique [OF ok b a(1)] ldisk_valid [OF cache_okD(1) [OF ok] a(1)] by (auto simp: bs split: if_splits)
  next
    fix n
    assume "\<And>a. a < NBUF \<Longrightarrow> b_valid (bufs ?s a) \<noteq> 0 \<Longrightarrow> b_blockno (bufs ?s a) \<noteq> n"
    moreover have "b_valid (bufs ?s a) = b_valid (bufs s a)" "b_blockno (bufs ?s a) = b_blockno (bufs s a)" for a
      by (simp_all add: bs)
    ultimately have o: "\<And>a. a < NBUF \<Longrightarrow> b_valid (bufs s a) \<noteq> 0 \<Longrightarrow> b_blockno (bufs s a) \<noteq> n" by simp
    then have "n \<noteq> b_blockno (bufs s b)" using cache_okD(3,6) [OF ok b] by auto
    then show "disk ?s n = ((ldisk s)(b_blockno (bufs s b) := d)) n"
      using ldisk_invalid [OF cache_okD(1) [OF ok] o] by (simp add: set_data_def)
  qed
qed

text \<open>\<open>bwrite\<close> brings the disk up to date.\<close>

lemma bwrite_eq: "cache_ok p H U s \<Longrightarrow> b \<in> H \<Longrightarrow> bwrite b s = Inr (disk_rw b True s)"
  by (simp add: bwrite_def holdingsleep_eq [OF cache_okD(2)] cache_okD(8))

lemma disk_rw_True [simp]:
  "bufs (disk_rw b True s) = bufs s" "sleeplocks (disk_rw b True s) = sleeplocks s"
  "disk (disk_rw b True s) = (disk s)(b_blockno (bufs s b) := b_data (bufs s b))"
  "dwrites (disk_rw b True s) = dwrites s @ [(b_blockno (bufs s b), b_data (bufs s b))]"
  "bio_frame s (disk_rw b True s)"
  by (simp_all add: disk_rw_def Let_def bio_frame_def)

lemma bwrite_spec:
  assumes ok: "cache_ok p H U s" and b: "b \<in> H"
  shows "cache_ok p H U (disk_rw b True s)" and "ldisk (disk_rw b True s) = ldisk s"
proof -
  let ?s = "disk_rw b True s"
  note inv = cache_okD(1) [OF ok]
  have bb: "b < NBUF" using cache_okD(3) [OF ok b] .
  have bs: "bufs ?s = (bufs s)(b := bufs s b)" by simp
  have inv': "bio_inv U ?s"
    using held_referenced [OF ok b] cache_okD(6) [OF ok b]
    by (intro bio_inv_upd [OF inv bb bs]) auto
  show "cache_ok p H U ?s" by (rule cache_ok_upd [OF ok inv' b bs]) simp_all
  show "ldisk ?s = ldisk s"
  proof (rule ext, rule ldisk_eqI [OF inv inv'])
    fix n a
    assume a: "a < NBUF" "b_valid (bufs ?s a) \<noteq> 0" "b_blockno (bufs ?s a) = n"
    then show "b_data (bufs ?s a) = ldisk s n" using ldisk_valid [OF inv a(1)] by simp
  next
    fix n
    assume "\<And>a. a < NBUF \<Longrightarrow> b_valid (bufs ?s a) \<noteq> 0 \<Longrightarrow> b_blockno (bufs ?s a) \<noteq> n"
    then have o: "\<And>a. a < NBUF \<Longrightarrow> b_valid (bufs s a) \<noteq> 0 \<Longrightarrow> b_blockno (bufs s a) \<noteq> n" by simp
    then have "n \<noteq> b_blockno (bufs s b)" using cache_okD(3,6) [OF ok b] by auto
    then show "disk ?s n = ldisk s n" using ldisk_invalid [OF inv o] by simp
  qed
qed

text \<open>Pinning: the reference count of a held buffer changes.\<close>

definition set_ref :: "nat \<Rightarrow> u32 \<Rightarrow> 'a kbio_scheme \<Rightarrow> 'a kbio_scheme" where
  "set_ref b r s = upd_buf b (\<lambda>x. x\<lparr>b_refcnt := r\<rparr>) s"

lemma set_ref_simps [simp]:
  "bufs (set_ref b r s) = (bufs s)(b := (bufs s b)\<lparr>b_refcnt := r\<rparr>)" "sleeplocks (set_ref b r s) = sleeplocks s"
  "disk (set_ref b r s) = disk s" "dwrites (set_ref b r s) = dwrites s" "bio_frame s (set_ref b r s)"
  by (simp_all add: set_ref_def bio_frame_def upd_buf_def)

lemma bpin_eq: "running p s \<Longrightarrow> bpin b s = Inr (set_ref b (b_refcnt (bufs s b) + 1) s)"
  by (simp add: bpin_def running_def set_ref_def upd_buf_def)

lemma bunpin_eq: "running p s \<Longrightarrow> bunpin b s = Inr (set_ref b (b_refcnt (bufs s b) - 1) s)"
  by (simp add: bunpin_def running_def set_ref_def upd_buf_def)

lemma ldisk_cong:
  assumes "\<And>b. b < NBUF \<Longrightarrow> b_dev (bufs s' b) = b_dev (bufs s b) \<and> b_blockno (bufs s' b) = b_blockno (bufs s b) \<and>
      b_valid (bufs s' b) = b_valid (bufs s b) \<and> b_data (bufs s' b) = b_data (bufs s b)"
    and "disk s' = disk s"
  shows "ldisk s' = ldisk s"
proof (rule ext)
  fix n
  have "cached s' n = cached s n" by (rule cached_cong) (use assms(1) in auto)
  moreover have "b < NBUF" if "cached s n = Some b" for b using that by (auto simp: cached_def find_Some_iff)
  ultimately show "ldisk s' n = ldisk s n" using assms by (auto simp: ldisk_def split: option.splits)
qed

lemma set_ref_spec:
  assumes ok: "cache_ok p H U s" and b: "b \<in> H" and r: "r \<noteq> 0 \<or> b \<in> U'" and U: "U - {b} \<subseteq> U'"
  shows "cache_ok p H U' (set_ref b r s)" and "ldisk (set_ref b r s) = ldisk s"
proof -
  let ?s = "set_ref b r s"
  have bb: "b < NBUF" using cache_okD(3) [OF ok b] .
  have bs: "bufs ?s = (bufs s)(b := (bufs s b)\<lparr>b_refcnt := r\<rparr>)" by simp
  have inv': "bio_inv U' ?s" using r U by (intro bio_inv_upd [OF cache_okD(1) [OF ok] bb bs]) auto
  show "cache_ok p H U' ?s" by (rule cache_ok_upd [OF ok inv' b bs]) simp_all
  show "ldisk ?s = ldisk s" by (rule ldisk_cong) simp_all
qed

text \<open>\<open>brelse\<close> unlocks the buffer, drops a reference, and moves a free buffer to the front.\<close>

definition released :: "nat \<Rightarrow> 'a kbio_scheme \<Rightarrow> 'a kbio_scheme" where
  "released b s =
     (let s = set_ref b (b_refcnt (bufs s b) - 1)
            (wake_all (ChSleepLock (BufSL b)) (set_sleeplock (BufSL b) \<lparr>sl_locked = 0, sl_pid = 0\<rparr> s))
      in if b_refcnt (bufs s b) = 0 then move_front b s else s)"

lemma move_front_simps [simp]:
  "held (move_front b s) = held s" "cur (move_front b s) = cur s" "procs (move_front b s) = procs s"
  "sleeplocks (move_front b s) = sleeplocks s" "disk (move_front b s) = disk s" "dwrites (move_front b s) = dwrites s"
  by (subst move_front_rest, simp)+

lemma move_front_held: "move_front b (s\<lparr>held := h\<rparr>) = (move_front b s)\<lparr>held := h\<rparr>"
  by (simp add: move_front_def upd_buf_def Let_def)

lemma upd_buf_held: "upd_buf b f (s\<lparr>held := h\<rparr>) = (upd_buf b f s)\<lparr>held := h\<rparr>"
  by (simp add: upd_buf_def)

lemma brelse_eq:
  assumes run: "running p s" and own: "owner p (BufSL b) s"
  shows "brelse b s = Inr (released b s)"
proof -
  let ?t = "wake_all (ChSleepLock (BufSL b)) (set_sleeplock (BufSL b) \<lparr>sl_locked = 0, sl_pid = 0\<rparr> s)"
  have t: "held ?t = {}" using run by (simp add: running_def)
  have "brelse b s = bnd (acquire LkBcache ?t) (\<lambda>s.
       let s = upd_buf b (\<lambda>x. x\<lparr>b_refcnt := b_refcnt x - 1\<rparr>) s;
           s = (if b_refcnt (bufs s b) = 0 then move_front b s else s)
       in release LkBcache s)"
    using run own by (simp add: brelse_def holdingsleep_eq [OF run] releasesleep_eq [OF run])
  also have "\<dots> = Inr (released b s)"
    using t by (auto simp: released_def set_ref_def upd_buf_held Let_def move_front_held
        intro!: arg_cong [where f = "move_front b"] upd_buf_eqI)
  finally show ?thesis .
qed

lemma released_fields:
  "core (bufs (released b s) i) = core (if i = b then (bufs s b)\<lparr>b_refcnt := b_refcnt (bufs s b) - 1\<rparr> else bufs s i)"
  "disk (released b s) = disk s" "dwrites (released b s) = dwrites s"
  "sleeplocks (released b s) = (sleeplocks s)(BufSL b := \<lparr>sl_locked = 0, sl_pid = 0\<rparr>)"
  by (simp_all add: released_def Let_def move_front_core)

lemma released_frame: "bio_frame s (released b s)"
proof -
  let ?t = "set_ref b (b_refcnt (bufs s b) - 1)
            (wake_all (ChSleepLock (BufSL b)) (set_sleeplock (BufSL b) \<lparr>sl_locked = 0, sl_pid = 0\<rparr> s))"
  have t: "bio_frame s ?t"
    by (cases s) (auto simp: bio_frame_def set_ref_def wake_all_def wake_def set_sleeplock_def upd_buf_def)
  moreover have "bio_frame u (move_front b u)" for u :: "'a kbio_scheme"
    by (simp add: bio_frame_def flip: move_front_rest)
  ultimately show ?thesis by (auto simp: released_def Let_def intro: bio_frame_trans)
qed

lemma released_lru:
  assumes "lru (bufs s) xs" "b < NBUF"
  shows "\<exists>ys. lru (bufs (released b s)) ys"
proof -
  let ?t = "set_ref b (b_refcnt (bufs s b) - 1)
            (wake_all (ChSleepLock (BufSL b)) (set_sleeplock (BufSL b) \<lparr>sl_locked = 0, sl_pid = 0\<rparr> s))"
  have t: "lru (bufs ?t) xs" using assms(1) by (rule lru_cong) (simp_all add: nexts_def prevs_def fun_eq_iff)
  have "b \<in> set xs" using assms by (simp add: lru_def)
  then obtain us vs where "xs = us @ b # vs" using split_list by metis
  with t lru_move_front [of ?t us b vs] show ?thesis by (auto simp: released_def Let_def)
qed

lemma released_spec:
  assumes ok: "cache_ok p H U s" and b: "b \<in> H"
    and clean: "b_refcnt (bufs s b) = 1 \<Longrightarrow> b_data (bufs s b) = disk s (b_blockno (bufs s b))"
  shows "cache_ok p (H - {b}) (U - {b}) (released b s)" and "ldisk (released b s) = ldisk s"
proof -
  let ?s = "released b s"
  note inv = cache_okD(1) [OF ok]
  have bb: "b < NBUF" using cache_okD(3) [OF ok b] .
  have f: "b_dev (bufs ?s i) = b_dev (bufs s i)" "b_blockno (bufs ?s i) = b_blockno (bufs s i)"
    "b_valid (bufs ?s i) = b_valid (bufs s i)" "b_data (bufs ?s i) = b_data (bufs s i)"
    "b_refcnt (bufs ?s i) = (if i = b then b_refcnt (bufs s b) - 1 else b_refcnt (bufs s i))" for i
    using core_fields [OF released_fields(1) [of b s i]] by simp_all
  have inv': "bio_inv (U - {b}) ?s"
  proof -
    obtain xs where "lru (bufs s) xs" using bio_invD(1) [OF inv] by blast
    with released_lru [OF _ bb] obtain ys where ys: "lru (bufs ?s) ys" by blast
    show ?thesis
    proof (rule bio_invI [OF ys], unfold f)
      show "sl_locked (sleeplocks ?s (BufSL a)) = 0"
        if "a < NBUF" "a \<notin> U - {b}" "(if a = b then b_refcnt (bufs s b) - 1 else b_refcnt (bufs s a)) = 0" for a
        using that bio_invD(4) [OF inv that(1)] by (auto simp: released_fields(4) split: if_splits)
      show "b_data (bufs s a) = disk ?s (b_blockno (bufs s a))"
        if "a < NBUF" "a \<notin> U - {b}" "(if a = b then b_refcnt (bufs s b) - 1 else b_refcnt (bufs s a)) = 0"
          "b_valid (bufs s a) \<noteq> 0" for a
        using that bio_invD(5) [OF inv that(1)] clean by (auto simp: released_fields(2) split: if_splits)
    qed (use bio_invD(2,3) [OF inv] in blast)+
  qed
  show "cache_ok p (H - {b}) (U - {b}) ?s"
  proof (rule cache_okI [OF inv'])
    show "running p ?s" using cache_okD(2) [OF ok] bio_frameD(11) [OF released_frame] by metis
    show "H - {b} \<subseteq> {0..<NBUF}" using cache_okD(3) [OF ok] by auto
    show "sl_locked (sleeplocks ?s (BufSL a)) = 0" if "a < NBUF" "a \<notin> H - {b}" for a
      using cache_okD(4) [OF ok that(1)] that by (auto simp: released_fields(4))
    show "sleeplocks ?s (BufSL a) = lock_of p ?s \<and> b_valid (bufs ?s a) \<noteq> 0" if "a \<in> H - {b}" for a
      using cache_okD(5,6) [OF ok, of a] that bio_frameD(12) [OF released_frame [of s b], of p] f
      by (auto simp: released_fields(4))
  qed
  show "ldisk ?s = ldisk s" by (rule ldisk_cong) (simp_all add: f released_fields(2))
qed

section \<open>Properties\<close>

text \<open>The buffers in static memory are zero before \<open>binit\<close>: no block is cached.\<close>

definition zero_bufs :: "'a kbio_scheme \<Rightarrow> bool" where
  "zero_bufs s \<longleftrightarrow> (\<forall>b < NBUF. b_valid (bufs s b) = 0 \<and> b_dev (bufs s b) = 0 \<and> b_refcnt (bufs s b) = 0)"

lemma binit_link_core: "core (bufs (binit_link b s) i) = core (bufs s i)"
  unfolding binit_link_def Let_def initsleeplock_def bio_other_simps
  by (simp only: upd_buf_core core_simps bio_other_simps)

lemma binit_core: "core (bufs (binit s) i) = core (bufs s i)"
proof -
  have "core (bufs (fold binit_link xs t) i) = core (bufs t i)" for xs and t :: "'a kbio_scheme"
    by (induction xs arbitrary: t) (simp_all add: binit_link_core)
  moreover have "core ((x\<lparr>b_prev := j, b_next := k\<rparr>)) = core x" for x j k by simp
  ultimately show ?thesis by (simp add: binit_def)
qed

lemma binit_link_locks: "sleeplocks (binit_link b s) = (sleeplocks s)(BufSL b := \<lparr>sl_locked = 0, sl_pid = 0\<rparr>)"
  by (simp add: binit_link_def Let_def initsleeplock_def)

lemma binit_locks: "b < NBUF \<Longrightarrow> sleeplocks (binit s) (BufSL b) = \<lparr>sl_locked = 0, sl_pid = 0\<rparr>"
proof -
  have "b \<in> set xs \<Longrightarrow> sleeplocks (fold binit_link xs t) (BufSL b) = \<lparr>sl_locked = 0, sl_pid = 0\<rparr>" for xs and t :: "'a kbio_scheme"
  proof (induction xs arbitrary: t rule: rev_induct)
    case (snoc x xs)
    then show ?case by (auto simp: binit_link_locks)
  qed simp
  then show "b < NBUF \<Longrightarrow> sleeplocks (binit s) (BufSL b) = \<lparr>sl_locked = 0, sl_pid = 0\<rparr>" by (simp add: binit_def)
qed

lemma binit_link_rest: "held (binit_link b s) = held s" "cur (binit_link b s) = cur s"
  by (simp_all add: binit_link_def Let_def initsleeplock_def)

lemma binit_rest: "running p (binit s) = running p s"
proof -
  have "held (fold binit_link xs t) = held t \<and> cur (fold binit_link xs t) = cur t" for xs and t :: "'a kbio_scheme"
    by (induction xs arbitrary: t) (simp_all add: binit_link_rest)
  then show ?thesis by (simp add: binit_def running_def)
qed

lemma binit_frame: "\<exists>bs sl. binit s = s\<lparr>sleeplocks := sl, bufs := bs\<rparr>"
proof -
  have l: "\<exists>bs sl. binit_link b t = t\<lparr>sleeplocks := sl, bufs := bs\<rparr>" for b and t :: "'a kbio_scheme"
    by (cases t) (auto simp: binit_link_def Let_def initsleeplock_def set_sleeplock_def upd_buf_def)
  have "\<exists>bs sl. fold binit_link xs t = t\<lparr>sleeplocks := sl, bufs := bs\<rparr>" for xs and t :: "'a kbio_scheme"
  proof (induction xs rule: rev_induct)
    case Nil
    show ?case by (rule exI [of _ "bufs t"], rule exI [of _ "sleeplocks t"]) simp
  next
    case (snoc x xs)
    then obtain bs sl where f: "fold binit_link xs t = t\<lparr>sleeplocks := sl, bufs := bs\<rparr>" by blast
    from l [of x "t\<lparr>sleeplocks := sl, bufs := bs\<rparr>"] f show ?case by auto
  qed
  from this [of "[0..<NBUF]" "upd_buf HEAD (\<lambda>x. x\<lparr>b_prev := HEAD, b_next := HEAD\<rparr>) s"] show ?thesis
    by (auto simp: binit_def upd_buf_def)
qed

lemma binit_ok:
  assumes "zero_bufs s" "running p s"
  shows "cache_ok p {} {} (binit s)"
proof -
  have f: "b_valid (bufs (binit s) b) = 0" "b_dev (bufs (binit s) b) = 0" if "b < NBUF" for b
    using core_fields [OF binit_core [of s b]] assms(1) that by (auto simp: zero_bufs_def)
  have "bio_inv {} (binit s)"
    by (rule bio_invI [OF binit_lru]) (use f binit_locks [of _ s] in auto)
  then show ?thesis
    by (rule cache_okI) (use assms(2) binit_locks [of _ s] in \<open>auto simp: binit_rest\<close>)
qed

lemma binit_uncached:
  assumes "zero_bufs s"
  shows "cached (binit s) n = None" "b < NBUF \<Longrightarrow> b_refcnt (bufs (binit s) b) = 0" "b < NBUF \<Longrightarrow> b_dev (bufs (binit s) b) = 0"
    "ldisk (binit s) n = disk (binit s) n"
proof -
  have f: "b_dev (bufs (binit s) b) = 0" "b_refcnt (bufs (binit s) b) = 0" if "b < NBUF" for b
    using core_fields [OF binit_core [of s b]] assms that by (auto simp: zero_bufs_def)
  then show "b < NBUF \<Longrightarrow> b_refcnt (bufs (binit s) b) = 0" "b < NBUF \<Longrightarrow> b_dev (bufs (binit s) b) = 0" by auto
  show c: "cached (binit s) n = None" by (simp add: cached_None_iff f)
  show "ldisk (binit s) n = disk (binit s) n" by (simp add: ldisk_def c)
qed


text \<open>A kernel after \<open>binit\<close>, with process 0 running.\<close>

definition boot_bio :: kbio where
  "boot_bio = \<lparr>held = {}, ram = \<lambda>_. 0, freelist = 0, kend = 0, kernel_pagetable = 0, satp = 0, etext = 0, trampoline = 0,
     procs = \<lambda>_. \<lparr>p_state = RUNNING, p_parent = None, p_chan = None, p_killed = 0, p_xstate = 0, p_pid = 1, p_kstack = 0,
       p_sz = 0, p_pagetable = 0, p_tf = 0, p_context = [], p_ofile = \<lambda>_. None, p_cwd = None, p_name = [], p_tracing = 0\<rparr>,
     initproc = None, nextpid = 2, cur = Some 0, forkret_addr = 0,
     sleeplocks = \<lambda>_. \<lparr>sl_locked = 0, sl_pid = 0\<rparr>,
     bufs = \<lambda>_. \<lparr>b_valid = 0, b_dev = 0, b_blockno = 0, b_refcnt = 0, b_prev = 0, b_next = 0, b_data = []\<rparr>,
     disk = \<lambda>n. replicate BSIZE (if n < 32 then 0 else ucast n), dwrites = []\<rparr>"

lemma boot_bio_ok: "cache_ok 0 {} {} (binit boot_bio)"
  by (rule binit_ok) (simp_all add: boot_bio_def zero_bufs_def running_def)

lemma boot_bio_free: "cached (binit boot_bio) n = None" "readable {} (binit boot_bio) n"
proof -
  have z: "zero_bufs boot_bio" by (simp add: boot_bio_def zero_bufs_def)
  show "cached (binit boot_bio) n = None" by (rule binit_uncached [OF z])
  then show "readable {} (binit boot_bio) n" using binit_uncached(2) [OF z, of 0] by (simp add: readable_def exI [of _ 0])
qed


text \<open>
  C15. A full cache: when all 30 buffers are referenced, reading a block that is not cached
  panics with the message of \<open>bget\<close>; reading a block somebody holds blocks on its lock; and
  writing or releasing a buffer one does not hold panics.
\<close>

theorem bio_errors:
  assumes "bio_inv U s" "running p s"
  shows "(cached s n = None \<longrightarrow> (\<forall>b < NBUF. b_refcnt (bufs s b) \<noteq> 0) \<longrightarrow>
           bread ROOTDEV n s = Inl (Panic ''bget: no buffers'')) \<and>
    (cached s n = Some b \<longrightarrow> sl_locked (sleeplocks s (BufSL b)) \<noteq> 0 \<longrightarrow>
           bread ROOTDEV n s = Inl (Sleep (ChSleepLock (BufSL b)))) \<and>
    (\<not> owner p (BufSL b) s \<longrightarrow> bwrite b s = Inl (Panic ''bwrite'') \<and> brelse b s = Inl (Panic ''brelse''))"
proof (intro conjI impI)
  show "bread ROOTDEV n s = Inl (Panic ''bget: no buffers'')"
    if "cached s n = None" "\<forall>b < NBUF. b_refcnt (bufs s b) \<noteq> 0"
    using bget_full [OF assms that(1)] that(2) by (simp add: bread_def)
  show "bread ROOTDEV n s = Inl (Sleep (ChSleepLock (BufSL b)))"
    if b: "cached s n = Some b" "sl_locked (sleeplocks s (BufSL b)) \<noteq> 0"
  proof -
    let ?s = "s\<lparr>held := {LkBcache}\<rparr>"
    have "bio_inv U ?s" using assms(1) by (simp add: bio_inv_def)
    from find_next_cached [OF this, of n] b(1)
    have "bget ROOTDEV n s = bnd (acquiresleep (BufSL b) (upd_buf b (\<lambda>x. x\<lparr>b_refcnt := b_refcnt x + 1\<rparr>) s)) (\<lambda>s. Inr (b, s))"
      using assms(2) by (simp add: bget_def running_def upd_buf_def Let_def cached_def)
    also have "\<dots> = Inl (Sleep (ChSleepLock (BufSL b)))" using assms(2) b(2) by (subst acquiresleep_busy [where p = p]) simp_all
    finally show ?thesis by (simp add: bread_def)
  qed
qed (simp_all add: bwrite_def brelse_def holdingsleep_eq [OF assms(2)])

theorem bio_errors_witness:
  "bwrite 3 (binit boot_bio) = Inl (Panic ''bwrite'') \<and> brelse 3 (binit boot_bio) = Inl (Panic ''brelse'')"
proof -
  have "\<not> owner 0 (BufSL 3) (binit boot_bio)" using binit_locks [of 3 boot_bio] by (simp add: owner_def)
  then show ?thesis
    using bio_errors [OF cache_okD(1,2) [OF boot_bio_ok], of 0 3] by blast
qed

end
