(* ===== verification/Brefs.thy ===== *)
theory Brefs
  imports Bcache
begin

text \<open>
  The buffer cache with its reference counts spelled out, as the log and the file system use it.
  \<open>pin n\<close> is the number of references block \<open>n\<close> has besides those of the process that holds
  it: 1 for a block of the current transaction, and \<open>-1\<close> after recovery dropped one too many.
\<close>

definition brefs :: "nat \<Rightarrow> nat set \<Rightarrow> (u32 \<Rightarrow> u32) \<Rightarrow> 'a kbio_scheme \<Rightarrow> bool" where
  "brefs p H pin s \<longleftrightarrow> cache_ok p H {b \<in> H. pin (b_blockno (bufs s b)) = -1} s \<and>
     (\<forall>b < NBUF. b_refcnt (bufs s b) =
        (if b_dev (bufs s b) = ROOTDEV then pin (b_blockno (bufs s b)) else 0) + (if b \<in> H then 1 else 0)) \<and>
     (\<forall>n. pin n \<noteq> 0 \<longrightarrow> cached s n \<noteq> None)"

definition held_same :: "nat set \<Rightarrow> 'a kbio_scheme \<Rightarrow> 'a kbio_scheme \<Rightarrow> bool" where
  "held_same H s s' \<longleftrightarrow> (\<forall>b\<in>H. b_blockno (bufs s' b) = b_blockno (bufs s b) \<and> b_data (bufs s' b) = b_data (bufs s b))"

lemma held_sameD:
  "held_same H s s' \<Longrightarrow> b \<in> H \<Longrightarrow> b_blockno (bufs s' b) = b_blockno (bufs s b)"
  "held_same H s s' \<Longrightarrow> b \<in> H \<Longrightarrow> b_data (bufs s' b) = b_data (bufs s b)"
  by (simp_all add: held_same_def)

text \<open>A step of the cache that leaves the disk, and what readers see, alone.\<close>

definition quiet :: "'a kbio_scheme \<Rightarrow> 'a kbio_scheme \<Rightarrow> bool" where
  "quiet s s' \<longleftrightarrow> bio_frame s s' \<and> disk s' = disk s \<and> dwrites s' = dwrites s \<and> ldisk s' = ldisk s"

lemma quietD:
  assumes "quiet s s'"
  shows "bio_frame s s'" "disk s' = disk s" "dwrites s' = dwrites s" "ldisk s' = ldisk s"
  using assms by (simp_all add: quiet_def)

lemma quiet_trans [trans]: "quiet s t \<Longrightarrow> quiet t u \<Longrightarrow> quiet s u"
  by (auto simp: quiet_def intro: bio_frame_trans)

lemma brefsD:
  assumes "brefs p H pin s"
  shows "cache_ok p H {b \<in> H. pin (b_blockno (bufs s b)) = -1} s" and "running p s"
    and "b < NBUF \<Longrightarrow> b_dev (bufs s b) = ROOTDEV \<Longrightarrow> b_refcnt (bufs s b) = pin (b_blockno (bufs s b)) + (if b \<in> H then 1 else 0)"
    and "b < NBUF \<Longrightarrow> b_dev (bufs s b) \<noteq> ROOTDEV \<Longrightarrow> b_refcnt (bufs s b) = (if b \<in> H then 1 else 0)"
    and "pin n \<noteq> 0 \<Longrightarrow> \<exists>b. cached s n = Some b" and "bio_inv {b \<in> H. pin (b_blockno (bufs s b)) = -1} s"
    and "b \<in> H \<Longrightarrow> b_refcnt (bufs s b) = pin (b_blockno (bufs s b)) + 1"
  using assms cache_okD [of p H _ s] unfolding brefs_def by auto

lemma brefsI:
  assumes "cache_ok p H {b \<in> H. pin (b_blockno (bufs s b)) = -1} s"
    and "\<And>b. b < NBUF \<Longrightarrow> b_refcnt (bufs s b) =
        (if b_dev (bufs s b) = ROOTDEV then pin (b_blockno (bufs s b)) else 0) + (if b \<in> H then 1 else 0)"
    and "\<And>n. pin n \<noteq> 0 \<Longrightarrow> cached s n \<noteq> None"
  shows "brefs p H pin s"
  using assms by (simp add: brefs_def)

lemma brefs_finite:
  assumes "brefs p H pin s" shows "finite {n. pin n \<noteq> 0}"
proof (rule finite_subset)
  show "{n. pin n \<noteq> 0} \<subseteq> (\<lambda>b. b_blockno (bufs s b)) ` {0..<NBUF}"
    using brefsD(5) [OF assms] cached_Some_iff [OF brefsD(6) [OF assms]] by fastforce
qed simp

lemma brefs_readable:
  assumes ok: "brefs p H pin s" and h: "\<And>b. b \<in> H \<Longrightarrow> b_blockno (bufs s b) \<noteq> n" and n: "pin n \<noteq> -1"
    and room: "pin n \<noteq> 0 \<or> card {n. pin n \<noteq> 0} + card H < NBUF"
  shows "readable H s n"
proof (cases "cached s n")
  case (Some b)
  then have b: "b < NBUF" "b_dev (bufs s b) = ROOTDEV" "b_blockno (bufs s b) = n"
    using cached_Some_iff [OF brefsD(6) [OF ok]] by auto
  then have bh: "b \<notin> H" using h by auto
  then have "b_refcnt (bufs s b) = pin n" using brefsD(3) [OF ok b(1,2)] b by simp
  moreover have "pin n + 1 \<noteq> 0" using n by (metis add_eq_0_iff2)
  ultimately show ?thesis using Some bh by (simp add: readable_def)
next
  case None
  have "\<exists>b < NBUF. b_refcnt (bufs s b) = 0"
  proof (rule ccontr)
    assume *: "\<not> ?thesis"
    have "H \<subseteq> {0..<NBUF}" using cache_okD(3) [OF brefsD(1) [OF ok]] by auto
    let ?f = "\<lambda>b. b_blockno (bufs s b)"
    have dv: "b_dev (bufs s b) = ROOTDEV \<and> pin (?f b) \<noteq> 0" if "b \<in> {0..<NBUF} - H" for b
      using * that brefsD(3,4) [OF ok, of b] by (cases "b_dev (bufs s b) = ROOTDEV") auto
    have "inj_on ?f ({0..<NBUF} - H)"
      by (rule inj_onI) (use dv bio_invD(2) [OF brefsD(6) [OF ok]] in auto)
    moreover have "?f ` ({0..<NBUF} - H) \<subseteq> {n. pin n \<noteq> 0}" using dv by auto
    ultimately have "card ({0..<NBUF} - H) \<le> card {n. pin n \<noteq> 0}"
      by (rule card_inj_on_le) (rule brefs_finite [OF ok])
    moreover have "card ({0..<NBUF} - H) = NBUF - card H"
      using card_Diff_subset [of H "{0..<NBUF}"] \<open>H \<subseteq> {0..<NBUF}\<close> finite_subset [OF \<open>H \<subseteq> {0..<NBUF}\<close>] by simp
    moreover have "pin n = 0" using None brefsD(5) [OF ok] by fastforce
    ultimately show False using room by simp
  qed
  with None show ?thesis by (simp add: readable_def)
qed

lemma brefs_bread:
  assumes ok: "brefs p H pin s" and u: "\<And>b. b \<in> H \<Longrightarrow> b_blockno (bufs s b) \<noteq> n \<and> pin (b_blockno (bufs s b)) \<noteq> -1"
    and n: "pin n \<noteq> -1" and room: "pin n \<noteq> 0 \<or> card {n. pin n \<noteq> 0} + card H < NBUF"
  shows "\<exists>b s'. bread ROOTDEV n s = Inr (b, s') \<and> b \<notin> H \<and> brefs p (insert b H) pin s' \<and> quiet s s' \<and>
    held_same H s s' \<and> b_blockno (bufs s' b) = n \<and> b_data (bufs s' b) = ldisk s n"
proof -
  have U: "{b \<in> H. pin (b_blockno (bufs s b)) = -1} = {}" using u by auto
  have ok': "cache_ok p H {} s" using brefsD(1) [OF ok] by (simp only: U)
  have rd: "readable H s n" using brefs_readable [OF ok _ n room] u by blast
  obtain b s' where R: "bread ROOTDEV n s = Inr (b, s')" "b \<notin> H" "cache_ok p (insert b H) {} s'" "bio_frame s s'"
    "b_blockno (bufs s' b) = n" "b_data (bufs s' b) = ldisk s n" "b_refcnt (bufs s' b) = new_ref s n"
    "cached s n = None \<longrightarrow> b_refcnt (bufs s b) = 0" "\<forall>i. i \<noteq> b \<longrightarrow> bufs s' i = bufs s i"
    "disk s' = disk s" "dwrites s' = dwrites s" "ldisk s' = ldisk s"
    using bread_spec [OF ok' rd] by (elim exE conjE) (rule that)
  note inv = cache_okD(1) [OF ok'] and inv' = cache_okD(1) [OF R(3)]
  have b: "b < NBUF" "b_dev (bufs s' b) = ROOTDEV" using cache_okD(3,7) [OF R(3), of b] by auto
  have ref: "new_ref s n = pin n + 1"
  proof (cases "cached s n")
    case None
    then show ?thesis using brefsD(5) [OF ok, of n] by (auto simp: new_ref_def)
  next
    case (Some c)
    then have c: "c < NBUF" "b_dev (bufs s c) = ROOTDEV" "b_blockno (bufs s c) = n"
      using cached_Some_iff [OF inv] by auto
    then have "c \<notin> H" using u by auto
    then show ?thesis using Some brefsD(3) [OF ok c(1,2)] c(3) by (simp add: new_ref_def)
  qed
  have "brefs p (insert b H) pin s'"
  proof (rule brefsI)
    have "pin (b_blockno (bufs s' c)) \<noteq> -1" if "c \<in> insert b H" for c
      using that u [of c] n R(5,9) by (cases "c = b") auto
    then have "{c \<in> insert b H. pin (b_blockno (bufs s' c)) = -1} = {}" by blast
    with R(3) show "cache_ok p (insert b H) {c \<in> insert b H. pin (b_blockno (bufs s' c)) = -1} s'" by (simp only:)
    show "b_refcnt (bufs s' c) = (if b_dev (bufs s' c) = ROOTDEV then pin (b_blockno (bufs s' c)) else 0) + (if c \<in> insert b H then 1 else 0)"
      if "c < NBUF" for c
      using brefsD(3,4) [OF ok that] R(2,5,7,9) ref b(2) by (cases "c = b") auto
    show "cached s' m \<noteq> None" if m: "pin m \<noteq> 0" for m
    proof -
      from brefsD(5) [OF ok m] obtain c where "cached s m = Some c" by blast
      then have c: "c < NBUF" "b_dev (bufs s c) = ROOTDEV" "b_blockno (bufs s c) = m"
        using cached_Some_iff [OF inv] by auto
      show ?thesis
      proof (cases "c = b")
        case True
        have "b_refcnt (bufs s b) \<noteq> 0" using brefsD(3) [OF ok c(1,2)] R(2) c True m by simp
        then obtain a where a: "cached s n = Some a" using R(8) by auto
        then have rs: "b_refcnt (bufs s a) + 1 = pin n + 1" using ref by (simp add: new_ref_def)
        have "m = n"
        proof (rule ccontr)
          assume "m \<noteq> n"
          then have "a \<noteq> b" using a cached_Some_iff [OF inv, of n a] c True by auto
          then have "bufs s' a = bufs s a" using R(9) by simp
          then have "a < NBUF" "b_dev (bufs s' a) = ROOTDEV" "b_blockno (bufs s' a) = n"
            using a cached_Some_iff [OF inv, of n a] by auto
          then show False using bio_invD(2) [OF inv' _ b(1)] b(2) R(5) \<open>a \<noteq> b\<close> by metis
        qed
        then show ?thesis using cached_Some_iff [OF inv', of n b] b R(5) by simp
      next
        case False
        then have "cached s' m = Some c" using cached_Some_iff [OF inv', of m c] c R(9) by simp
        then show ?thesis by simp
      qed
    qed
  qed
  moreover have "quiet s s'" "held_same H s s'" using R(2,4,9-12) by (auto simp: quiet_def held_same_def)
  ultimately show ?thesis using R by blast
qed

text \<open>Rules for the other operations on a held buffer.\<close>

lemma brefs_set_data:
  assumes ok: "brefs p H pin s" and b: "b \<in> H"
  shows "brefs p H pin (set_data b d s)" "bio_frame s (set_data b d s)" "disk (set_data b d s) = disk s"
    "dwrites (set_data b d s) = dwrites s" "ldisk (set_data b d s) = (ldisk s)(b_blockno (bufs s b) := d)"
    "b_data (bufs (set_data b d s) b) = d" "b_blockno (bufs (set_data b d s) c) = b_blockno (bufs s c)"
    "held_same (H - {b}) s (set_data b d s)"
proof -
  let ?s = "set_data b d s"
  have f: "b_blockno (bufs ?s c) = b_blockno (bufs s c)" "b_refcnt (bufs ?s c) = b_refcnt (bufs s c)"
    "b_dev (bufs ?s c) = b_dev (bufs s c)" for c by (simp_all add: set_data_def)
  show "brefs p H pin ?s"
  proof (rule brefsI)
    show "cache_ok p H {c \<in> H. pin (b_blockno (bufs ?s c)) = -1} ?s"
      using set_data_spec(1) [OF brefsD(1) [OF ok] b] by (simp add: f)
    have "cached ?s n = cached s n" for n by (rule cached_cong) (simp add: f)
    then show "cached ?s n \<noteq> None" if "pin n \<noteq> 0" for n using brefsD(5) [OF ok that] by simp
  qed (use brefsD(3,4) [OF ok] in \<open>simp add: f\<close>)
  show "ldisk ?s = (ldisk s)(b_blockno (bufs s b) := d)" by (rule set_data_spec(2) [OF brefsD(1) [OF ok] b])
  show "bio_frame s ?s" by simp
qed (simp_all add: set_data_def held_same_def)

lemma brefs_bwrite:
  assumes ok: "brefs p H pin s" and b: "b \<in> H"
  shows "\<exists>s'. bwrite b s = Inr s' \<and> brefs p H pin s' \<and> bio_frame s s' \<and> bufs s' = bufs s \<and> ldisk s' = ldisk s \<and>
    disk s' = (disk s)(b_blockno (bufs s b) := b_data (bufs s b)) \<and>
    dwrites s' = dwrites s @ [(b_blockno (bufs s b), b_data (bufs s b))]"
proof -
  let ?s = "disk_rw b True s"
  have "brefs p H pin ?s"
  proof (rule brefsI)
    show "cache_ok p H {c \<in> H. pin (b_blockno (bufs ?s c)) = -1} ?s"
      using bwrite_spec(1) [OF brefsD(1) [OF ok] b] by simp
    have "cached ?s n = cached s n" for n by (rule cached_cong) simp
    then show "cached ?s n \<noteq> None" if "pin n \<noteq> 0" for n using brefsD(5) [OF ok that] by simp
  qed (use brefsD(3,4) [OF ok] in simp)
  then show ?thesis
    using bwrite_eq [OF brefsD(1) [OF ok] b] bwrite_spec(2) [OF brefsD(1) [OF ok] b] by simp
qed

lemma brefs_brelse:
  assumes ok: "brefs p H pin s" and b: "b \<in> H"
    and clean: "pin (b_blockno (bufs s b)) = 0 \<Longrightarrow> b_data (bufs s b) = disk s (b_blockno (bufs s b))"
  shows "\<exists>s'. brelse b s = Inr s' \<and> brefs p (H - {b}) pin s' \<and> quiet s s' \<and> held_same H s s'"
proof -
  let ?s = "released b s"
  have cl: "b_refcnt (bufs s b) = 1 \<Longrightarrow> b_data (bufs s b) = disk s (b_blockno (bufs s b))"
    using brefsD(7) [OF ok b] clean by simp
  have f: "b_dev (bufs ?s i) = b_dev (bufs s i)" "b_blockno (bufs ?s i) = b_blockno (bufs s i)"
    "b_data (bufs ?s i) = b_data (bufs s i)"
    "b_refcnt (bufs ?s i) = (if i = b then b_refcnt (bufs s b) - 1 else b_refcnt (bufs s i))" for i
    using core_fields [OF released_fields(1) [of b s i]] by simp_all
  have rp: "brefs p (H - {b}) pin ?s"
  proof (rule brefsI)
    have "{c \<in> H. pin (b_blockno (bufs s c)) = - 1} - {b} = {c \<in> H - {b}. pin (b_blockno (bufs ?s c)) = -1}"
      by (auto simp: f)
    with released_spec(1) [OF brefsD(1) [OF ok] b cl]
    show "cache_ok p (H - {b}) {c \<in> H - {b}. pin (b_blockno (bufs ?s c)) = -1} ?s" by simp
    have "cached ?s n = cached s n" for n by (rule cached_cong) (simp add: f)
    then show "cached ?s n \<noteq> None" if "pin n \<noteq> 0" for n using brefsD(5) [OF ok that] by simp
    show "b_refcnt (bufs ?s c) = (if b_dev (bufs ?s c) = ROOTDEV then pin (b_blockno (bufs ?s c)) else 0) + (if c \<in> H - {b} then 1 else 0)"
      if "c < NBUF" for c
      using brefsD(3,4) [OF ok that] b cache_okD(7) [OF brefsD(1) [OF ok] b] by (auto simp: f)
  qed
  have "brelse b s = Inr ?s"
    using brelse_eq [OF brefsD(2) [OF ok]] cache_okD(8) [OF brefsD(1) [OF ok] b] by simp
  moreover have "quiet s ?s" "held_same H s ?s"
    using released_frame [of s b] released_spec(2) [OF brefsD(1) [OF ok] b cl]
    by (simp_all add: quiet_def held_same_def f released_fields)
  ultimately show ?thesis using rp by blast
qed

text \<open>Pinning and unpinning change \<open>pin\<close> for the block of the buffer.\<close>

lemma brefs_set_ref:
  assumes ok: "brefs p H pin s" and b: "b \<in> H" and r: "r = q + 1"
    and pin': "pin' = pin(b_blockno (bufs s b) := q)"
  shows "brefs p H pin' (set_ref b r s)" "quiet s (set_ref b r s)" "held_same H s (set_ref b r s)"
proof -
  let ?s = "set_ref b r s"
  let ?U = "{c \<in> H. pin (b_blockno (bufs s c)) = -1}" and ?U' = "{c \<in> H. pin' (b_blockno (bufs s c)) = -1}"
  note ok1 = brefsD(1) [OF ok]
  have uniq: "c = b" if "c < NBUF" "b_dev (bufs s c) = ROOTDEV" "b_blockno (bufs s c) = b_blockno (bufs s b)" for c
    using that bio_invD(2) [OF cache_okD(1) [OF ok1]] cache_okD(3,7) [OF ok1 b] by metis
  have a1: "r \<noteq> 0 \<or> b \<in> ?U'" using r b pin' by (auto simp: add_eq_0_iff2)
  have a2: "?U - {b} \<subseteq> ?U'" 
  proof
    fix c
    assume "c \<in> ?U - {b}"
    then have c: "c \<in> H" "pin (b_blockno (bufs s c)) = -1" "c \<noteq> b" by auto
    then have "b_blockno (bufs s c) \<noteq> b_blockno (bufs s b)" using uniq [of c] cache_okD(3,7) [OF ok1 c(1)] by blast
    then show "c \<in> ?U'" using c pin' by simp
  qed
  note S = set_ref_spec [OF ok1 b a1 a2]
  have f: "b_dev (bufs ?s i) = b_dev (bufs s i)" "b_blockno (bufs ?s i) = b_blockno (bufs s i)" for i by simp_all
  show "brefs p H pin' ?s"
  proof (rule brefsI)
    show "cache_ok p H {c \<in> H. pin' (b_blockno (bufs ?s c)) = -1} ?s" using S(1) by (simp only: f)
    have "cached ?s n = cached s n" for n by (rule cached_cong) simp
    moreover have "cached s (b_blockno (bufs s b)) = Some b"
      using cached_Some_iff [OF cache_okD(1) [OF ok1]] cache_okD(3,7) [OF ok1 b] by simp
    ultimately show "cached ?s n \<noteq> None" if "pin' n \<noteq> 0" for n
      using that brefsD(5) [OF ok, of n] pin' by (cases "n = b_blockno (bufs s b)") auto
    show "b_refcnt (bufs ?s c) = (if b_dev (bufs ?s c) = ROOTDEV then pin' (b_blockno (bufs ?s c)) else 0) + (if c \<in> H then 1 else 0)"
      if c: "c < NBUF" for c
    proof (cases "c = b")
      case True
      then show ?thesis using cache_okD(7) [OF ok1 b] r b pin' by simp
    next
      case False
      then have "b_dev (bufs s c) = ROOTDEV \<longrightarrow> pin' (b_blockno (bufs s c)) = pin (b_blockno (bufs s c))"
        using uniq [OF c] pin' by auto
      then show ?thesis using brefsD(3,4) [OF ok c] False by (auto simp: f)
    qed
  qed
  show "quiet s ?s" "held_same H s ?s" using S(2) by (simp_all add: quiet_def held_same_def)
qed

lemma brefs_bpin:
  assumes ok: "brefs p H pin s" and b: "b \<in> H"
  shows "\<exists>s'. bpin b s = Inr s' \<and> quiet s s' \<and> held_same H s s' \<and>
    brefs p H (pin(b_blockno (bufs s b) := pin (b_blockno (bufs s b)) + 1)) s'"
  using brefs_set_ref [OF ok b, of "b_refcnt (bufs s b) + 1" "pin (b_blockno (bufs s b)) + 1"] brefsD(7) [OF ok b]
    bpin_eq [OF brefsD(2) [OF ok]] by (simp add: add.commute)

lemma brefs_bunpin:
  assumes ok: "brefs p H pin s" and b: "b \<in> H"
  shows "\<exists>s'. bunpin b s = Inr s' \<and> quiet s s' \<and> held_same H s s' \<and>
    brefs p H (pin(b_blockno (bufs s b) := pin (b_blockno (bufs s b)) - 1)) s'"
  using brefs_set_ref [OF ok b, of "b_refcnt (bufs s b) - 1" "pin (b_blockno (bufs s b)) - 1"] brefsD(7) [OF ok b]
    bunpin_eq [OF brefsD(2) [OF ok]] by simp

text \<open>
  The log copies a block to another: it reads both, overwrites the one with the other's contents
  and writes it to the disk.
\<close>

lemma brefs_two_reads:
  assumes ok: "brefs p {} pin s" and xy: "x \<noteq> y" and x: "pin x \<noteq> -1" and y: "pin y \<noteq> -1"
    and room: "pin x \<noteq> 0 \<or> card {n. pin n \<noteq> 0} < NBUF" "pin y \<noteq> 0 \<or> card {n. pin n \<noteq> 0} + 1 < NBUF"
  shows "\<exists>a s1 b s2. bread ROOTDEV x s = Inr (a, s1) \<and> bread ROOTDEV y s1 = Inr (b, s2) \<and> a \<noteq> b \<and>
    brefs p {a, b} pin s2 \<and> bio_frame s s1 \<and> quiet s s2 \<and> b_blockno (bufs s2 a) = x \<and> b_blockno (bufs s2 b) = y \<and>
    b_data (bufs s2 a) = ldisk s x \<and> b_data (bufs s2 b) = ldisk s y"
proof -
  obtain a s1 where a: "bread ROOTDEV x s = Inr (a, s1)" "brefs p {a} pin s1" "quiet s s1"
    "b_blockno (bufs s1 a) = x" "b_data (bufs s1 a) = ldisk s x"
    using brefs_bread [OF ok _ x] room(1) by auto
  obtain b s2 where b: "bread ROOTDEV y s1 = Inr (b, s2)" "b \<notin> {a}" "brefs p (insert b {a}) pin s2" "quiet s1 s2"
    "held_same {a} s1 s2" "b_blockno (bufs s2 b) = y" "b_data (bufs s2 b) = ldisk s1 y"
    using brefs_bread [OF a(2) _ y] room(2) xy x a(4) by auto
  show ?thesis
    using a b quiet_trans [OF a(3) b(4)] held_sameD [OF b(5), of a] quietD [OF a(3)]
    by (intro exI [of _ a] exI [of _ s1] exI [of _ b] exI [of _ s2]) (auto simp: insert_commute)
qed

lemma brefs_fill_write:
  assumes ok: "brefs p H pin s" and a: "a \<in> H" "b_blockno (bufs s a) = x"
  shows "\<exists>s'. bwrite a (set_data a d s) = Inr s' \<and> brefs p H pin s' \<and> bio_frame s s' \<and> b_data (bufs s' a) = d \<and>
    b_blockno (bufs s' a) = x \<and> held_same (H - {a}) s s' \<and> disk s' = (disk s)(x := d) \<and>
    dwrites s' = dwrites s @ [(x, d)] \<and> ldisk s' = (ldisk s)(x := d)"
proof -
  note S = brefs_set_data [OF ok a(1), of d]
  from brefs_bwrite [OF S(1) a(1)] obtain s' where s':
    "bwrite a (set_data a d s) = Inr s'" "brefs p H pin s'" "bio_frame (set_data a d s) s'" "bufs s' = bufs (set_data a d s)"
    "ldisk s' = ldisk (set_data a d s)" "disk s' = (disk (set_data a d s))(x := d)" "dwrites s' = dwrites (set_data a d s) @ [(x, d)]"
    using S(6,7) a(2) by auto
  have "bio_frame s s'" using S(2) s'(3) by (rule bio_frame_trans)
  with S s' a(2) show ?thesis by (intro exI [of _ s']) (auto simp: held_same_def)
qed

end
