(* ===== verification/Commit.thy ===== *)
theory Commit
  imports Log
begin

text \<open>
  Crash safety of the log. \<open>commit\<close> and \<open>recover_from_log\<close> are run on the cache of kernel/bio.c
  and their disk writes computed; a crash keeps a prefix of the writes.
\<close>

section \<open>The log on the disk\<close>

definition log_area :: "u32 \<Rightarrow> u32 set" where
  "log_area st = {n. unat st \<le> unat n \<and> unat n < unat st + LOGSIZE}"

definition logblk :: "u32 \<Rightarrow> nat \<Rightarrow> u32" where
  "logblk st i = st + of_nat i + 1"

definition log_room :: "u32 \<Rightarrow> bool" where
  "log_room st \<longleftrightarrow> unat st + LOGSIZE < 2 ^ 32"

lemma unat_logblk:
  assumes "log_room st" "i < LOGSIZE - 1" shows "unat (logblk st i) = unat st + i + 1"
proof -
  have "unat (logblk st i) = (unat st + i + 1) mod 2 ^ 32"
    by (simp add: logblk_def unat_word_ariths unat_of_nat mod_simps)
  then show ?thesis using assms by (simp add: log_room_def)
qed

lemma logblk_facts:
  assumes "log_room st" "i < LOGSIZE - 1"
  shows "logblk st i \<in> log_area st" "logblk st i \<noteq> st" "j < LOGSIZE - 1 \<Longrightarrow> logblk st i = logblk st j \<Longrightarrow> i = j"
    "st \<in> log_area st"
proof -
  show "logblk st i \<in> log_area st" "st \<in> log_area st" using assms by (auto simp: log_area_def unat_logblk)
  have "unat (logblk st i) \<noteq> unat st" unfolding unat_logblk [OF assms] by simp
  then show "logblk st i \<noteq> st" by metis
  assume j: "j < LOGSIZE - 1" "logblk st i = logblk st j"
  then have "unat st + i + 1 = unat st + j + 1" using unat_logblk [OF assms] unat_logblk [OF assms(1) j(1)] by metis
  then show "i = j" by simp
qed

text \<open>The blocks a log can hold: at most 29, each once, none in the log itself.\<close>

definition blocks_ok :: "u32 \<Rightarrow> u32 list \<Rightarrow> bool" where
  "blocks_ok st bs \<longleftrightarrow> log_room st \<and> length bs < LOGSIZE \<and> distinct bs \<and> set bs \<inter> log_area st = {}"

definition sized :: "dmap \<Rightarrow> bool" where
  "sized d \<longleftrightarrow> (\<forall>n. length (d n) = BSIZE)"

lemma sizedD: "sized d \<Longrightarrow> length (d n) = BSIZE"
  by (simp add: sized_def)

lemma sized_apply_writes: "sized d \<Longrightarrow> (\<And>w. w \<in> set ws \<Longrightarrow> length (snd w) = BSIZE) \<Longrightarrow> sized (apply_writes d ws)"
  by (induction ws arbitrary: d) (auto simp: sized_def)

definition pins :: "u32 \<Rightarrow> u32 list \<Rightarrow> u32 \<Rightarrow> u32" where
  "pins c bs n = (if n \<in> set bs then c else 0)"

lemma card_le_length: "A \<subseteq> set xs \<Longrightarrow> card A \<le> length xs"
  by (rule order_trans [OF card_mono card_length]) simp_all

lemma card_pins: "card {n. pins c bs n \<noteq> 0} \<le> length bs"
  by (rule card_le_length) (auto simp: pins_def)

text \<open>The copies to the log, to the home locations, and what recovery makes of a disk.\<close>

definition to_log :: "u32 \<Rightarrow> u32 list \<Rightarrow> dmap \<Rightarrow> nat \<Rightarrow> (u32 \<times> block) list" where
  "to_log st bs d k = map (\<lambda>i. (logblk st i, d (bs ! i))) [0..<k]"

definition to_home :: "u32 \<Rightarrow> u32 list \<Rightarrow> dmap \<Rightarrow> nat \<Rightarrow> (u32 \<times> block) list" where
  "to_home st bs d k = map (\<lambda>i. (bs ! i, d (logblk st i))) [0..<k]"

definition recovered :: "u32 \<Rightarrow> dmap \<Rightarrow> dmap" where
  "recovered st d = (let bs = head_blocks (d st) in apply_writes d (to_home st bs d (length bs)))"

lemma to_log_Suc: "to_log st bs d (Suc k) = to_log st bs d k @ [(logblk st k, d (bs ! k))]"
  by (simp add: to_log_def)

lemma to_home_Suc: "to_home st bs d (Suc k) = to_home st bs d k @ [(bs ! k, d (logblk st k))]"
  by (simp add: to_home_def)

lemma to_log_at: "n \<notin> log_area st \<Longrightarrow> blocks_ok st bs \<Longrightarrow> k \<le> length bs \<Longrightarrow> apply_writes e (to_log st bs d k) n = e n"
  using logblk_facts(1) [of st] by (intro apply_writes_other) (force simp: to_log_def blocks_ok_def)

lemma to_home_at: "n \<in> log_area st \<Longrightarrow> blocks_ok st bs \<Longrightarrow> k \<le> length bs \<Longrightarrow> apply_writes e (to_home st bs d k) n = e n"
  by (intro apply_writes_other) (auto simp: to_home_def blocks_ok_def dest!: nth_mem [where xs = bs] disjoint_iff [THEN iffD1])

section \<open>Frames\<close>

lemma log_fields:
  assumes "bio_frame s s'"
  shows "log_start s' = log_start s" "log_size s' = log_size s" "log_outstanding s' = log_outstanding s"
    "log_committing s' = log_committing s" "log_dev s' = log_dev s" "lh_n s' = lh_n s" "lh_block s' = lh_block s"
    "klog.more s' = klog.more s" "logged s' = logged s"
proof -
  have s': "s' = s\<lparr>procs := procs s', sleeplocks := sleeplocks s', bufs := bufs s', disk := disk s', dwrites := dwrites s'\<rparr>"
    using assms by (simp add: bio_frame_def)
  show *: "log_start s' = log_start s" "log_size s' = log_size s" "log_outstanding s' = log_outstanding s"
    "log_committing s' = log_committing s" "log_dev s' = log_dev s" "lh_n s' = lh_n s" "lh_block s' = lh_block s"
    "klog.more s' = klog.more s" by (subst s', simp)+
  show "logged s' = logged s" by (simp add: logged_def *)
qed

text \<open>Changes of the log's own variables do not matter to the cache.\<close>

lemma brefs_log_upd [simp]:
  "brefs p H pin (s\<lparr>lh_n := x\<rparr>) = brefs p H pin s" "brefs p H pin (s\<lparr>lh_block := y\<rparr>) = brefs p H pin s"
  "brefs p H pin (s\<lparr>log_outstanding := z\<rparr>) = brefs p H pin s" "brefs p H pin (s\<lparr>log_committing := z\<rparr>) = brefs p H pin s"
  "brefs p H pin (s\<lparr>log_start := z, log_size := x, log_dev := w\<rparr>) = brefs p H pin s"
  by (simp_all add: brefs_def cache_ok_def bio_inv_def cached_def running_def lock_of_def)

lemma ldisk_log_upd [simp]:
  "ldisk (s\<lparr>lh_n := x\<rparr>) = ldisk s" "ldisk (s\<lparr>lh_block := y\<rparr>) = ldisk s"
  "ldisk (s\<lparr>log_outstanding := z\<rparr>) = ldisk s" "ldisk (s\<lparr>log_committing := z\<rparr>) = ldisk s"
  "ldisk (s\<lparr>log_start := z, log_size := x, log_dev := w\<rparr>) = ldisk s"
  by (rule ldisk_cong; simp)+

text \<open>\<open>sync s s' ws\<close>: the blocks \<open>ws\<close> were written through the cache to the disk.\<close>

definition sync :: "'a klog_scheme \<Rightarrow> (u32 \<times> block) list \<Rightarrow> 'a klog_scheme \<Rightarrow> bool" where
  "sync s ws s' \<longleftrightarrow> bio_frame s s' \<and> disk s' = apply_writes (disk s) ws \<and> dwrites s' = dwrites s @ ws \<and>
     ldisk s' = apply_writes (ldisk s) ws"

lemma syncD:
  assumes "sync s ws s'"
  shows "bio_frame s s'" "disk s' = apply_writes (disk s) ws" "dwrites s' = dwrites s @ ws" "ldisk s' = apply_writes (ldisk s) ws"
  using assms by (simp_all add: sync_def)

lemma sync_refl [simp]: "sync s [] s"
  by (simp add: sync_def)

lemma sync_trans: "sync s ws t \<Longrightarrow> sync t vs u \<Longrightarrow> sync s (ws @ vs) u"
  by (auto simp: sync_def intro: bio_frame_trans)

lemma quiet_sync: "quiet s t \<Longrightarrow> sync s [] t"
  by (simp add: quiet_def sync_def)

section \<open>Writing the log\<close>

lemma sync_quiet: "quiet s t \<Longrightarrow> sync t ws u \<Longrightarrow> sync s ws u" "sync s ws t \<Longrightarrow> quiet t u \<Longrightarrow> sync s ws u"
  using sync_trans [of s "[]" t ws u] sync_trans [of s ws t "[]" u] quiet_sync by auto

lemma write_log_block_spec:
  assumes ok: "brefs p {} pin s" and x: "pin x = 0" and y: "pin y = 1" and card: "card {n. pin n \<noteq> 0} < NBUF"
    and log: "log_dev s = ROOTDEV" "log_start s + of_nat i + 1 = x" "lh_block s i = y"
  shows "\<exists>s'. write_log_block i s = Inr s' \<and> brefs p {} pin s' \<and> sync s [(x, ldisk s y)] s'"
proof -
  have xy: "x \<noteq> y" "pin x \<noteq> -1" "pin y \<noteq> -1" "pin x \<noteq> 0 \<or> card {n. pin n \<noteq> 0} < NBUF"
    "pin y \<noteq> 0 \<or> card {n. pin n \<noteq> 0} + 1 < NBUF" using x y card by auto
  obtain a s1 b s2 where R: "bread ROOTDEV x s = Inr (a, s1)" "bread ROOTDEV y s1 = Inr (b, s2)" "a \<noteq> b"
    "brefs p {a, b} pin s2" "bio_frame s s1" "quiet s s2" "b_blockno (bufs s2 a) = x" "b_blockno (bufs s2 b) = y"
    "b_data (bufs s2 a) = ldisk s x" "b_data (bufs s2 b) = ldisk s y"
    using brefs_two_reads [OF ok xy] by (elim exE conjE) (rule that)
  obtain s3 where W: "bwrite a (set_data a (ldisk s y) s2) = Inr s3" "brefs p {a, b} pin s3" "bio_frame s2 s3"
    "b_data (bufs s3 a) = ldisk s y" "b_blockno (bufs s3 a) = x" "held_same ({a, b} - {a}) s2 s3" "disk s3 = (disk s2)(x := ldisk s y)"
    "dwrites s3 = dwrites s2 @ [(x, ldisk s y)]" "ldisk s3 = (ldisk s2)(x := ldisk s y)"
    using brefs_fill_write [OF R(4) _ R(7), of "ldisk s y"] by auto
  have b: "b_blockno (bufs s3 b) = y" using held_sameD(1) [OF W(6), of b] R(3,8) by auto
  obtain s4 where F: "brelse b s3 = Inr s4" "brefs p {a} pin s4" "quiet s3 s4" "held_same {a, b} s3 s4"
    using brefs_brelse [OF W(2), of b] b y R(3) by (auto simp: insert_Diff_if)
  have "b_data (bufs s4 a) = disk s4 (b_blockno (bufs s4 a))"
    using held_sameD [OF F(4), of a] W(4,5,7) quietD(2) [OF F(3)] by simp
  then obtain s5 where G: "brelse a s4 = Inr s5" "brefs p {} pin s5" "quiet s4 s5"
    using brefs_brelse [OF F(2), of a] by auto
  have "sync s2 [(x, ldisk s y)] s3" using W(3,7-9) by (simp add: sync_def)
  then have "sync s [(x, ldisk s y)] s5"
    using sync_quiet(1) [OF R(6)] sync_quiet(2) [OF _ F(3)] sync_quiet(2) [OF _ G(3)] by blast
  then show ?thesis using R W F G log log_fields(5,7) [OF R(5)] by (intro exI [of _ s5]) (simp add: write_log_block_def)
qed

lemma length_logged [simp]: "length (logged s) = nat (sint (lh_n s))"
  by (simp add: logged_def)

lemma nth_logged: "i < nat (sint (lh_n s)) \<Longrightarrow> logged s ! i = lh_block s i"
  by (simp add: logged_def)

definition log_at :: "u32 \<Rightarrow> 'a klog_scheme \<Rightarrow> bool" where
  "log_at st s \<longleftrightarrow> log_dev s = ROOTDEV \<and> log_start s = st \<and> blocks_ok st (logged s)"

lemma log_atD:
  assumes "log_at st s"
  shows "log_dev s = ROOTDEV" "log_start s = st" "log_room st" "length (logged s) < LOGSIZE" "distinct (logged s)"
    "set (logged s) \<inter> log_area st = {}" "blocks_ok st (logged s)"
    "i < length (logged s) \<Longrightarrow> logged s ! i \<notin> log_area st"
proof -
  show d: "log_dev s = ROOTDEV" "log_start s = st" "log_room st" "length (logged s) < LOGSIZE" "distinct (logged s)"
    "set (logged s) \<inter> log_area st = {}" "blocks_ok st (logged s)"
    using assms by (simp_all add: log_at_def blocks_ok_def del: length_logged)
  show "i < length (logged s) \<Longrightarrow> logged s ! i \<notin> log_area st"
    using d(6) nth_mem [of i "logged s"] by blast
qed

lemma log_at_frame: "bio_frame s s' \<Longrightarrow> log_at st s' = log_at st s"
  by (simp add: log_at_def log_fields)

lemma write_log_spec:
  assumes ok: "brefs p {} (pins 1 (logged s)) s" and l: "log_at st s"
  shows "\<exists>s'. write_log s = Inr s' \<and> brefs p {} (pins 1 (logged s)) s' \<and>
    sync s (to_log st (logged s) (ldisk s) (length (logged s))) s'"
  unfolding write_log_def length_logged
proof (rule loop_upto [where P = "\<lambda>i s'. brefs p {} (pins 1 (logged s)) s' \<and> sync s (to_log st (logged s) (ldisk s) i) s'"])
  fix i t
  assume i: "i < nat (sint (lh_n s))" and P: "brefs p {} (pins 1 (logged s)) t \<and> sync s (to_log st (logged s) (ldisk s) i) t"
  note L = log_atD [OF l] and F = log_fields [OF syncD(1) [OF conjunct2 [OF P]]]
  have il: "i < length (logged s)" using i by simp
  have x: "logblk st i \<in> log_area st" using logblk_facts(1) [OF L(3), of i] il L(4) by simp
  have "lh_block t i = logged s ! i" "log_dev t = ROOTDEV" "log_start t + of_nat i + 1 = logblk st i"
    using i L(1,2) F by (simp_all add: nth_logged logblk_def)
  moreover have "pins 1 (logged s) (logblk st i) = 0" "pins 1 (logged s) (logged s ! i) = 1"
    "card {n. pins 1 (logged s) n \<noteq> 0} < NBUF"
    using x L(4,6) il card_pins [of 1 "logged s"] by (auto simp: pins_def simp del: length_logged)
  moreover have "ldisk t (logged s ! i) = ldisk s (logged s ! i)"
    using syncD(4) [OF conjunct2 [OF P]] L(7,8) il by (simp add: to_log_at)
  ultimately show "\<exists>t'. write_log_block i t = Inr t' \<and>
     brefs p {} (pins 1 (logged s)) t' \<and> sync s (to_log st (logged s) (ldisk s) (Suc i)) t'"
    using write_log_block_spec [OF conjunct1 [OF P], of "logblk st i" "logged s ! i" i] sync_trans [OF conjunct2 [OF P]]
    by (auto simp: to_log_Suc)
qed (use ok in \<open>simp add: to_log_def\<close>)

section \<open>Installing it\<close>

lemma install_block_spec:
  assumes ok: "brefs p {} pin s" and xy: "x \<noteq> y" and x: "pin x = 0" and y: "pin y \<noteq> -1"
    and room: "card {n. pin n \<noteq> 0} < NBUF" "pin y \<noteq> 0 \<or> card {n. pin n \<noteq> 0} + 1 < NBUF"
    and clean: "ldisk s x = disk s x"
    and log: "log_dev s = ROOTDEV" "log_start s + of_nat i + 1 = x" "lh_block s i = y"
  shows "\<exists>s'. install_block i s = Inr s' \<and> brefs p {} (pin(y := pin y - 1)) s' \<and> sync s [(y, ldisk s x)] s'"
proof -
  have *: "pin x \<noteq> -1" "pin x \<noteq> 0 \<or> card {n. pin n \<noteq> 0} < NBUF" using x room by auto
  obtain a s1 b s2 where R: "bread ROOTDEV x s = Inr (a, s1)" "bread ROOTDEV y s1 = Inr (b, s2)" "a \<noteq> b"
    "brefs p {a, b} pin s2" "bio_frame s s1" "quiet s s2" "b_blockno (bufs s2 a) = x" "b_blockno (bufs s2 b) = y"
    "b_data (bufs s2 a) = ldisk s x" "b_data (bufs s2 b) = ldisk s y"
    using brefs_two_reads [OF ok xy *(1) y *(2) room(2)] by (elim exE conjE) (rule that)
  obtain s3 where W: "bwrite b (set_data b (ldisk s x) s2) = Inr s3" "brefs p {a, b} pin s3" "bio_frame s2 s3"
    "b_data (bufs s3 b) = ldisk s x" "b_blockno (bufs s3 b) = y" "held_same ({a, b} - {b}) s2 s3" "disk s3 = (disk s2)(y := ldisk s x)"
    "dwrites s3 = dwrites s2 @ [(y, ldisk s x)]" "ldisk s3 = (ldisk s2)(y := ldisk s x)"
    using brefs_fill_write [OF R(4) _ R(8), of "ldisk s x"] by auto
  have a3: "b_blockno (bufs s3 a) = x" "b_data (bufs s3 a) = ldisk s x" using held_sameD [OF W(6), of a] R(3,7,9) by auto
  let ?pin = "pin(y := pin y - 1)"
  obtain s4 where U: "bunpin b s3 = Inr s4" "quiet s3 s4" "held_same {a, b} s3 s4" "brefs p {a, b} ?pin s4"
    using brefs_bunpin [OF W(2), of b] W(5) by auto
  have a4: "b_data (bufs s4 a) = disk s4 (b_blockno (bufs s4 a))"
    using held_sameD [OF U(3), of a] a3 W(7) quietD(2) [OF U(2)] quietD(2) [OF R(6)] clean xy by simp
  obtain s5 where F: "brelse a s4 = Inr s5" "brefs p {b} ?pin s5" "quiet s4 s5" "held_same {a, b} s4 s5"
    using brefs_brelse [OF U(4), of a] a4 R(3) by (auto simp: insert_Diff_if)
  have "b_data (bufs s5 b) = disk s5 (b_blockno (bufs s5 b))"
    using held_sameD [OF F(4), of b] held_sameD [OF U(3), of b] W(4,5,7) quietD(2) [OF U(2)] quietD(2) [OF F(3)] by simp
  then obtain s6 where G: "brelse b s5 = Inr s6" "brefs p {} ?pin s6" "quiet s5 s6"
    using brefs_brelse [OF F(2), of b] by auto
  have "sync s2 [(y, ldisk s x)] s3" using W(3,7-9) by (simp add: sync_def)
  then have "sync s [(y, ldisk s x)] s6"
    using sync_quiet(1) [OF R(6)] sync_quiet(2) [OF _ quiet_trans [OF quiet_trans [OF U(2) F(3)] G(3)]] by blast
  then show ?thesis using R W U F G log log_fields(5,7) [OF R(5)]
    by (intro exI [of _ s6]) (simp add: install_block_def)
qed

text \<open>
  The reference counts while blocks are installed: those done have lost one. With \<open>c = 1\<close> this is
  a commit, with \<open>c = 0\<close> recovery.
\<close>

definition install_pins :: "u32 \<Rightarrow> u32 list \<Rightarrow> nat \<Rightarrow> u32 \<Rightarrow> u32" where
  "install_pins c bs k n = (if n \<in> set (take k bs) then c - 1 else if n \<in> set bs then c else 0)"

lemma install_pins_ends: "install_pins c bs 0 = pins c bs" "install_pins c bs (length bs) = pins (c - 1) bs"
  by (auto simp: install_pins_def pins_def)

lemma install_pins_Suc:
  assumes "k < length bs" "distinct bs"
  shows "install_pins c bs k (bs ! k) = c" "(install_pins c bs k)(bs ! k := c - 1) = install_pins c bs (Suc k)"
proof -
  have "bs ! k \<notin> set (take k bs)" using assms by (auto simp: in_set_conv_nth nth_eq_iff_index_eq)
  then show "install_pins c bs k (bs ! k) = c" "(install_pins c bs k)(bs ! k := c - 1) = install_pins c bs (Suc k)"
    using assms(1) by (auto simp: install_pins_def take_Suc_conv_app_nth)
qed

lemma install_pins_room:
  assumes "c = 0 \<or> c = 1" "k < length bs" "length bs < LOGSIZE"
  shows "card {n. install_pins c bs k n \<noteq> 0} < NBUF" "c \<noteq> 0 \<or> card {n. install_pins c bs k n \<noteq> 0} + 1 < NBUF"
proof -
  have "{n. install_pins c bs k n \<noteq> 0} \<subseteq> set bs" by (auto simp: install_pins_def dest: in_set_takeD)
  then have "card {n. install_pins c bs k n \<noteq> 0} \<le> length bs"
    by (rule card_le_length)
  then show "card {n. install_pins c bs k n \<noteq> 0} < NBUF" using assms(3) by simp
  have "{n. install_pins 0 bs k n \<noteq> 0} \<subseteq> set (take k bs)" by (auto simp: install_pins_def)
  then have "card {n. install_pins 0 bs k n \<noteq> 0} \<le> length (take k bs)"
    by (rule card_le_length)
  then show "c \<noteq> 0 \<or> card {n. install_pins c bs k n \<noteq> 0} + 1 < NBUF" using assms by auto
qed

lemma install_trans_spec:
  assumes c: "c = 0 \<or> c = 1" and ok: "brefs p {} (pins c (logged s)) s" and l: "log_at st s"
    and clean: "\<And>i. i < length (logged s) \<Longrightarrow> ldisk s (logblk st i) = disk s (logblk st i)"
  shows "\<exists>s'. install_trans s = Inr s' \<and> brefs p {} (pins (c - 1) (logged s)) s' \<and>
    sync s (to_home st (logged s) (ldisk s) (length (logged s))) s'"
proof -
  let ?bs = "logged s"
  let ?P = "\<lambda>i s'. brefs p {} (install_pins c ?bs i) s' \<and> sync s (to_home st ?bs (ldisk s) i) s'"
  note L = log_atD [OF l]
  have "\<exists>s'. loop install_block [0..<length ?bs] s = Inr s' \<and> ?P (length ?bs) s'"
  proof (rule loop_upto)
    show "?P 0 s" using ok by (simp add: install_pins_ends to_home_def)
    fix i t
    assume il: "i < length ?bs" and P: "?P i t"
    note F = log_fields [OF syncD(1) [OF conjunct2 [OF P]]]
    have x: "logblk st i \<in> log_area st" using logblk_facts(1) [OF L(3), of i] il L(4) by simp
    have t: "ldisk t (logblk st i) = ldisk s (logblk st i)" "disk t (logblk st i) = disk s (logblk st i)"
      using syncD(2,4) [OF conjunct2 [OF P]] to_home_at [OF x L(7), of i] il by simp_all
    have a1: "logblk st i \<noteq> ?bs ! i" using x L(8) [OF il] by metis
    have a2: "install_pins c ?bs i (logblk st i) = 0"
      using x L(6) by (auto simp: install_pins_def dest: in_set_takeD)
    have a3: "install_pins c ?bs i (?bs ! i) = c" by (rule install_pins_Suc(1) [OF il L(5)])
    have a4: "install_pins c ?bs i (?bs ! i) \<noteq> -1" using c a3 by auto
    note room = install_pins_room [OF c il L(4)]
    have "ldisk t (logblk st i) = disk t (logblk st i)" using t clean [OF il] by simp
    moreover have "log_dev t = ROOTDEV" "log_start t + of_nat i + 1 = logblk st i" "lh_block t i = ?bs ! i"
      using il L(1,2) F by (simp_all add: nth_logged logblk_def)
    ultimately obtain t' where t': "install_block i t = Inr t'" "brefs p {} (install_pins c ?bs (Suc i)) t'"
      "sync t [(?bs ! i, ldisk t (logblk st i))] t'"
      using install_block_spec [OF conjunct1 [OF P] a1 a2 a4 room(1), of i] room(2) a3 install_pins_Suc(2) [OF il L(5), of c] by auto
    from sync_trans [OF conjunct2 [OF P] t'(3)] t(1) have "sync s (to_home st ?bs (ldisk s) (Suc i)) t'" by (simp add: to_home_Suc)
    with t' show "\<exists>t'. install_block i t = Inr t' \<and> ?P (Suc i) t'" by blast
  qed
  then show ?thesis by (simp add: install_trans_def install_pins_ends flip: length_logged)
qed

section \<open>The header\<close>

lemma write_head_spec:
  assumes ok: "brefs p {} pin s" and st: "pin st = 0" "card {n. pin n \<noteq> 0} < NBUF"
    and log: "log_dev s = ROOTDEV" "log_start s = st" "lh_n s = of_nat (length (logged s))"
  shows "\<exists>s'. write_head s = Inr s' \<and> brefs p {} pin s' \<and> sync s [(st, head_block (logged s) (ldisk s st))] s'"
proof -
  obtain b s1 where R: "bread ROOTDEV st s = Inr (b, s1)" "brefs p {b} pin s1" "quiet s s1"
    "b_blockno (bufs s1 b) = st" "b_data (bufs s1 b) = ldisk s st"
    using brefs_bread [OF ok _ _ , of st] st by auto
  note F = log_fields [OF quietD(1) [OF R(3)]]
  define hb where "hb = head_block (logged s) (ldisk s st)"
  have hb: "fold (\<lambda>i. put_le (4 + 4 * i) 4 (lh_block s1 i)) [0..<nat (sint (lh_n s1))] (put_le 0 4 (lh_n s1) (b_data (bufs s1 b))) = hb"
    unfolding hb_def head_block_def R(5) F(6,7)
    by (rule fold_cong) (simp_all add: nth_logged log(3) [unfolded length_logged, symmetric])
  obtain s2 where W: "bwrite b (set_data b hb s1) = Inr s2" "brefs p {b} pin s2" "bio_frame s1 s2"
    "b_data (bufs s2 b) = hb" "b_blockno (bufs s2 b) = st" "disk s2 = (disk s1)(st := hb)"
    "dwrites s2 = dwrites s1 @ [(st, hb)]" "ldisk s2 = (ldisk s1)(st := hb)"
    using brefs_fill_write [OF R(2) _ R(4), of hb] by auto
  obtain s3 where G: "brelse b s2 = Inr s3" "brefs p {} pin s3" "quiet s2 s3"
    using brefs_brelse [OF W(2), of b] W(4-6) by auto
  have "sync s1 [(st, hb)] s2" using W(3,6-8) by (simp add: sync_def)
  then have "sync s [(st, hb)] s3" using sync_quiet(1) [OF R(3)] sync_quiet(2) [OF _ G(3)] by blast
  moreover have "write_head s = Inr s3"
    using R(1) W(1) G(1) log(1,2) by (simp add: write_head_def Let_def hb)
  ultimately show ?thesis using G(2) by (auto simp: hb_def)
qed

lemma fold_lh_block:
  "fold (\<lambda>i s. s\<lparr>lh_block := (lh_block s)(i := f i)\<rparr>) [0..<k] s =
   s\<lparr>lh_block := \<lambda>i. if i < k then f i else lh_block s i\<rparr>"
proof (induction k)
  case (Suc k)
  then show ?case
    by (auto simp: less_Suc_eq fun_eq_iff intro!: arg_cong [where f = "\<lambda>g. s\<lparr>lh_block := g\<rparr>"])
qed simp

lemma read_head_spec:
  assumes ok: "brefs p {} (\<lambda>_. 0) s" and log: "log_dev s = ROOTDEV" "log_start s = st" and clean: "ldisk s st = disk s st"
  shows "\<exists>s' t. read_head s = Inr s' \<and> quiet s t \<and> brefs p {} (\<lambda>_. 0) s' \<and>
    s' = t\<lparr>lh_n := lh_n s', lh_block := lh_block s'\<rparr> \<and> lh_n s' = head_n (ldisk s st) \<and> logged s' = head_blocks (ldisk s st)"
proof -
  obtain b s1 where R: "bread ROOTDEV st s = Inr (b, s1)" "brefs p {b} (\<lambda>_. 0) s1" "quiet s s1"
    "b_blockno (bufs s1 b) = st" "b_data (bufs s1 b) = ldisk s st"
    using brefs_bread [OF ok, of st] by auto
  define h where "h = ldisk s st"
  define n f where "n = head_n h" and "f = (\<lambda>i. if i < nat (sint n) then get_le (4 + 4 * i) 4 h else lh_block s1 i)"
  let ?u = "s1\<lparr>lh_n := n, lh_block := f\<rparr>"
  have u: "brefs p {b} (\<lambda>_. 0) ?u" using R(2) by simp
  have c: "b_data (bufs ?u b) = disk ?u (b_blockno (bufs ?u b))" using R(4,5) quietD(2) [OF R(3)] clean by simp
  obtain s' where G: "brelse b ?u = Inr s'" "brefs p {} (\<lambda>_. 0) s'" "quiet ?u s'"
    using brefs_brelse [OF u _ c] by auto
  note F = log_fields [OF quietD(1) [OF G(3)]]
  define t where "t = s'\<lparr>lh_n := lh_n s1, lh_block := lh_block s1\<rparr>"
  have "bio_frame s1 t"
    using quietD(1) [OF G(3)] unfolding bio_frame_def t_def by (cases s', cases s1) simp
  then have "quiet s1 t"
    using quietD(2-4) [OF G(3)] unfolding quiet_def t_def by simp
  then have "quiet s t" using R(3) quiet_trans by blast
  moreover have "read_head s = Inr s'"
    using R(1) G(1) log unfolding n_def f_def h_def head_n_def R(5) [symmetric]
    by (simp add: read_head_def Let_def fold_lh_block cong: if_cong)
  moreover have "s' = t\<lparr>lh_n := lh_n s', lh_block := lh_block s'\<rparr>" by (simp add: t_def)
  moreover have "lh_n s' = n" "logged s' = head_blocks h"
    using F by (simp_all add: logged_def head_blocks_def f_def n_def)
  ultimately show ?thesis using G(2) by (auto simp: n_def h_def)
qed

end
