(* ===== verification/Txn.thy ===== *)
theory Txn
  imports Commit
begin

text \<open>
  The rules by which a file system call works on blocks inside a transaction: \<open>bread\<close>, change the
  data, \<open>log_write\<close>, \<open>brelse\<close>. \<open>txn p st H s\<close> says that process \<open>p\<close> runs alone, holds the buffers
  \<open>H\<close>, that the blocks of the transaction are pinned and all other blocks are clean, and that
  the log on the disk, at block \<open>st\<close>, is empty.
\<close>

definition txn :: "nat \<Rightarrow> u32 \<Rightarrow> nat set \<Rightarrow> 'a klog_scheme \<Rightarrow> bool" where
  "txn p st H s \<longleftrightarrow> brefs p H (pins 1 (logged s)) s \<and> log_at st s \<and> lh_n s = of_nat (length (logged s)) \<and>
     (\<forall>n. n \<notin> set (logged s) \<longrightarrow> (\<forall>b\<in>H. b_blockno (bufs s b) \<noteq> n) \<longrightarrow> ldisk s n = disk s n) \<and>
     head_n (disk s st) = 0 \<and> sized (disk s) \<and> sized (ldisk s)"

lemma txnD:
  assumes "txn p st H s"
  shows "brefs p H (pins 1 (logged s)) s" "log_at st s" "lh_n s = of_nat (length (logged s))"
    "n \<notin> set (logged s) \<Longrightarrow> (\<And>b. b \<in> H \<Longrightarrow> b_blockno (bufs s b) \<noteq> n) \<Longrightarrow> ldisk s n = disk s n"
    "head_n (disk s st) = 0" "sized (disk s)" "sized (ldisk s)"
  using assms unfolding txn_def by blast+

lemma txnI:
  assumes "brefs p H (pins 1 (logged s)) s" "log_at st s" "lh_n s = of_nat (length (logged s))"
    "\<And>n. n \<notin> set (logged s) \<Longrightarrow> (\<And>b. b \<in> H \<Longrightarrow> b_blockno (bufs s b) \<noteq> n) \<Longrightarrow> ldisk s n = disk s n"
    "head_n (disk s st) = 0" "sized (disk s)" "sized (ldisk s)"
  shows "txn p st H s"
  using assms unfolding txn_def by blast

text \<open>What a transaction changes besides blocks: the log's list.\<close>

definition log_frame :: "'a klog_scheme \<Rightarrow> 'a klog_scheme \<Rightarrow> bool" where
  "log_frame s s' \<longleftrightarrow> bio_frame (s\<lparr>lh_n := lh_n s', lh_block := lh_block s'\<rparr>) s'"

lemma bio_frame_lh: "bio_frame s t \<Longrightarrow> bio_frame (s\<lparr>lh_n := x\<rparr>) (t\<lparr>lh_n := x\<rparr>)"
  unfolding bio_frame_def by (cases s, cases t) simp

lemma bio_frame_lh2: "bio_frame s t \<Longrightarrow> bio_frame (s\<lparr>lh_n := x, lh_block := y\<rparr>) (t\<lparr>lh_n := x, lh_block := y\<rparr>)"
  unfolding bio_frame_def by (cases s, cases t) simp

lemma log_frame_bio: "bio_frame s s' \<Longrightarrow> log_frame s s'"
  using log_fields(6,7) [of s s'] by (simp add: log_frame_def)

lemma log_frame_refl [simp]: "log_frame s s"
  by (simp add: log_frame_def)

lemma log_frame_trans [trans]: "log_frame s t \<Longrightarrow> log_frame t u \<Longrightarrow> log_frame s u"
proof -
  assume *: "log_frame s t" "log_frame t u"
  from bio_frame_lh2 [OF * (1) [unfolded log_frame_def], where x = "lh_n u" and y = "lh_block u"]
  have "bio_frame (s\<lparr>lh_n := lh_n u, lh_block := lh_block u\<rparr>) (t\<lparr>lh_n := lh_n u, lh_block := lh_block u\<rparr>)" by simp
  with * (2) show ?thesis by (auto simp: log_frame_def intro: bio_frame_trans)
qed

lemma log_frameD:
  assumes "log_frame s s'"
  shows "log_start s' = log_start s" "log_size s' = log_size s" "log_outstanding s' = log_outstanding s"
    "log_committing s' = log_committing s" "log_dev s' = log_dev s" "klog.more s' = klog.more s"
    "ram s' = ram s" "cur s' = cur s" "p_pagetable (procs s' i) = p_pagetable (procs s i)" "held s' = held s"
    "sleeplocks s' (InodeSL i) = sleeplocks s (InodeSL i)" "p_pid (procs s' i) = p_pid (procs s i)"
    "running p s' = running p s" "lock_of p s' = lock_of p s" "freelist s' = freelist s" "kend s' = kend s"
  using log_fields(1-5,8) [OF assms [unfolded log_frame_def]] bio_frameD [OF assms [unfolded log_frame_def]]
  by (simp_all add: running_def lock_of_def)

section \<open>Rules\<close>

lemma txn_held:
  assumes "txn p st H s" "b \<in> H"
  shows "ldisk s (b_blockno (bufs s b)) = b_data (bufs s b)" "length (b_data (bufs s b)) = BSIZE" "b < NBUF" "running p s"
proof -
  have ok: "cache_ok p H {c \<in> H. pins 1 (logged s) (b_blockno (bufs s c)) = - 1} s" using brefsD(1) [OF txnD(1) [OF assms(1)]] .
  show *: "ldisk s (b_blockno (bufs s b)) = b_data (bufs s b)" by (rule ldisk_held [OF ok assms(2)])
  show "length (b_data (bufs s b)) = BSIZE" using sizedD [OF txnD(7) [OF assms(1)]] by (metis *)
  show "b < NBUF" "running p s" using cache_okD(2,3) [OF ok] assms(2) by auto
qed

lemma pins_ne: "pins 1 bs n \<noteq> -1"
  by (simp add: pins_def)

lemma txn_bread:
  assumes t: "txn p st H s" and n: "\<And>b. b \<in> H \<Longrightarrow> b_blockno (bufs s b) \<noteq> n"
    and room: "length (logged s) + card H < NBUF"
  shows "\<exists>b s'. bread ROOTDEV n s = Inr (b, s') \<and> b \<notin> H \<and> txn p st (insert b H) s' \<and> quiet s s' \<and>
    held_same H s s' \<and> b_blockno (bufs s' b) = n \<and> b_data (bufs s' b) = ldisk s n"
proof -
  have "card {n. pins 1 (logged s) n \<noteq> 0} + card H < NBUF" using card_pins [of 1 "logged s"] room by linarith
  then obtain b s' where R: "bread ROOTDEV n s = Inr (b, s')" "b \<notin> H" "brefs p (insert b H) (pins 1 (logged s)) s'" "quiet s s'"
    "held_same H s s'" "b_blockno (bufs s' b) = n" "b_data (bufs s' b) = ldisk s n"
    using brefs_bread [OF txnD(1) [OF t], of n] n pins_ne by meson
  note F = log_fields [OF quietD(1) [OF R(4)]]
  have "txn p st (insert b H) s'"
  proof (rule txnI)
    show "brefs p (insert b H) (pins 1 (logged s')) s'" using R(3) F(9) by simp
    show "ldisk s' m = disk s' m" if "m \<notin> set (logged s')" "\<And>c. c \<in> insert b H \<Longrightarrow> b_blockno (bufs s' c) \<noteq> m" for m
      using txnD(4) [OF t, of m] that held_sameD(1) [OF R(5)] quietD(2,4) [OF R(4)] F(9) by auto
  qed (use txnD [OF t] quietD [OF R(4)] F log_at_frame [OF quietD(1) [OF R(4)]] in simp_all)
  with R show ?thesis by blast
qed

lemma txn_set_data:
  assumes t: "txn p st H s" and b: "b \<in> H" and d: "length d = BSIZE"
  shows "txn p st H (set_data b d s)" "bio_frame s (set_data b d s)" "disk (set_data b d s) = disk s"
    "dwrites (set_data b d s) = dwrites s" "ldisk (set_data b d s) = (ldisk s)(b_blockno (bufs s b) := d)"
    "b_data (bufs (set_data b d s) b) = d" "b_blockno (bufs (set_data b d s) c) = b_blockno (bufs s c)"
    "held_same (H - {b}) s (set_data b d s)" "logged (set_data b d s) = logged s"
proof -
  note S = brefs_set_data [OF txnD(1) [OF t] b, of d]
  note F = log_fields [OF S(2)]
  show "bio_frame s (set_data b d s)" "disk (set_data b d s) = disk s"
    "dwrites (set_data b d s) = dwrites s" "ldisk (set_data b d s) = (ldisk s)(b_blockno (bufs s b) := d)"
    "b_data (bufs (set_data b d s) b) = d" "b_blockno (bufs (set_data b d s) c) = b_blockno (bufs s c)"
    "held_same (H - {b}) s (set_data b d s)" "logged (set_data b d s) = logged s"
    using S F(9) by blast+
  show "txn p st H (set_data b d s)"
  proof (rule txnI)
    show "ldisk (set_data b d s) n = disk (set_data b d s) n"
      if "n \<notin> set (logged (set_data b d s))" "\<And>c. c \<in> H \<Longrightarrow> b_blockno (bufs (set_data b d s) c) \<noteq> n" for n
      using txnD(4) [OF t, of n] that b S(3,5,7) F(9) by auto
    show "sized (ldisk (set_data b d s))" using txnD(7) [OF t] d S(5) by (simp add: sized_def)
  qed (use txnD [OF t] S F log_at_frame [OF S(2)] in simp_all)
qed

lemma txn_brelse:
  assumes t: "txn p st H s" and b: "b \<in> H"
    and clean: "b_blockno (bufs s b) \<notin> set (logged s) \<Longrightarrow> b_data (bufs s b) = disk s (b_blockno (bufs s b))"
  shows "\<exists>s'. brelse b s = Inr s' \<and> txn p st (H - {b}) s' \<and> quiet s s' \<and> held_same H s s'"
proof -
  have "pins 1 (logged s) (b_blockno (bufs s b)) = 0 \<Longrightarrow> b_data (bufs s b) = disk s (b_blockno (bufs s b))"
    using clean by (auto simp: pins_def split: if_splits)
  then obtain s' where R: "brelse b s = Inr s'" "brefs p (H - {b}) (pins 1 (logged s)) s'" "quiet s s'" "held_same H s s'"
    using brefs_brelse [OF txnD(1) [OF t] b] by blast
  note F = log_fields [OF quietD(1) [OF R(3)]]
  have "txn p st (H - {b}) s'"
  proof (rule txnI)
    show "ldisk s' m = disk s' m" if "m \<notin> set (logged s')" "\<And>c. c \<in> H - {b} \<Longrightarrow> b_blockno (bufs s' c) \<noteq> m" for m
    proof (cases "m = b_blockno (bufs s b)")
      case True
      then show ?thesis using clean that(1) txn_held(1) [OF t b] quietD(2,4) [OF R(3)] F(9) by simp
    next
      case False
      then have "b_blockno (bufs s c) \<noteq> m" if "c \<in> H" for c
        using that \<open>\<And>c. c \<in> H - {b} \<Longrightarrow> b_blockno (bufs s' c) \<noteq> m\<close> held_sameD(1) [OF R(4)] by (cases "c = b") auto
      then show ?thesis using txnD(4) [OF t, of m] that(1) quietD(2,4) [OF R(3)] F(9) by simp
    qed
  qed (use R(2) txnD [OF t] quietD [OF R(3)] F log_at_frame [OF quietD(1) [OF R(3)]] in simp_all)
  with R show ?thesis by blast
qed

text \<open>\<open>log_write\<close>: absorption, and a new block.\<close>

lemma first_idx_logged:
  assumes "lh_n s = of_nat (length (logged s))"
  shows "(\<exists>i. first_idx (\<lambda>i. lh_block s i = n) 0 (length (logged s)) = Some i \<and> i < length (logged s) \<and> lh_block s i = n) \<longleftrightarrow> n \<in> set (logged s)"
    "n \<notin> set (logged s) \<Longrightarrow> first_idx (\<lambda>i. lh_block s i = n) 0 (length (logged s)) = None"
proof -
  let ?f = "first_idx (\<lambda>i. lh_block s i = n) 0 (length (logged s))"
  have m: "n \<in> set (logged s) \<longleftrightarrow> (\<exists>i < length (logged s). lh_block s i = n)" by (auto simp: logged_def)
  show N: "n \<notin> set (logged s) \<Longrightarrow> ?f = None" using m by (simp add: first_idx_None_iff)
  show "(\<exists>i. ?f = Some i \<and> i < length (logged s) \<and> lh_block s i = n) \<longleftrightarrow> n \<in> set (logged s)"
  proof
    assume "n \<in> set (logged s)"
    with m first_idx_None_iff [of "\<lambda>i. lh_block s i = n" 0 "length (logged s)"] obtain i where "?f = Some i" by (cases ?f) auto
    with first_idx_SomeD [OF this] show "\<exists>i. ?f = Some i \<and> i < length (logged s) \<and> lh_block s i = n" by auto
  qed (use m in blast)
qed

lemma log_write_absorb:
  assumes "running p s" "lh_n s = of_nat (length (logged s))" "sint (log_outstanding s) \<ge> 1"
    "length (logged s) < LOGSIZE" "int (length (logged s)) < sint (log_size s - 1)" "b_blockno (bufs s b) \<in> set (logged s)"
  shows "log_write b s = Inr s"
proof -
  obtain i where i: "first_idx (\<lambda>i. lh_block s i = b_blockno (bufs s b)) 0 (length (logged s)) = Some i"
    "i < length (logged s)" "lh_block s i = b_blockno (bufs s b)"
    using first_idx_logged(1) [OF assms(2)] assms(6) by blast
  have sn: "sint (lh_n s) = int (length (logged s))"
    using assms(2,4) by (simp add: signed_of_nat signed_take_bit_int_eq_self del: length_logged)
  have nl: "nat (sint (lh_n s)) = length (logged s)" by simp
  have "(lh_block s)(i := b_blockno (bufs s b)) = lh_block s" using i(3) by auto
  then have "(s\<lparr>held := insert LkLog (held s)\<rparr>)\<lparr>lh_block := (lh_block s)(i := b_blockno (bufs s b))\<rparr> = s\<lparr>held := insert LkLog (held s)\<rparr>"
    by (cases s) simp
  then show ?thesis
    using assms(1,3-5) i sn by (simp add: log_write_def running_def Let_def nl del: length_logged)
qed

lemma log_write_new:
  assumes "running p s" "lh_n s = of_nat (length (logged s))" "sint (log_outstanding s) \<ge> 1"
    "length (logged s) < LOGSIZE" "int (length (logged s)) < sint (log_size s - 1)" "b_blockno (bufs s b) \<notin> set (logged s)"
  shows "log_write b s = Inr (set_ref b (b_refcnt (bufs s b) + 1)
    (s\<lparr>lh_n := lh_n s + 1, lh_block := (lh_block s)(length (logged s) := b_blockno (bufs s b))\<rparr>))"
proof -
  have sn: "sint (lh_n s) = int (length (logged s))"
    using assms(2,4) by (simp add: signed_of_nat signed_take_bit_int_eq_self del: length_logged)
  have nl: "nat (sint (lh_n s)) = length (logged s)" by simp
  show ?thesis
    using assms(1,3-5) first_idx_logged(2) [OF assms(2,6)] sn
    by (simp add: log_write_def running_def Let_def nl bpin_def set_ref_def upd_buf_def del: length_logged)
qed

lemma logged_snoc:
  assumes "lh_n s = of_nat (length (logged s))" "length (logged s) < LOGSIZE"
  shows "logged (s\<lparr>lh_n := lh_n s + 1, lh_block := (lh_block s)(length (logged s) := n)\<rparr>) = logged s @ [n]"
proof -
  have "nat (sint (lh_n s + 1)) = Suc (length (logged s))"
    using assms small_int [of "Suc (length (logged s))"] by (simp add: add.commute del: length_logged)
  then show ?thesis by (simp add: logged_def)
qed

definition log_ready :: "'a klog_scheme \<Rightarrow> bool" where
  "log_ready s \<longleftrightarrow> sint (log_outstanding s) \<ge> 1 \<and> sint (log_size s - 1) = int (LOGSIZE - 1)"

lemma txn_log_write:
  assumes t: "txn p st H s" and b: "b \<in> H" "b_blockno (bufs s b) \<notin> log_area st" and r: "log_ready s"
    and room: "length (logged s) < LOGSIZE - 1"
  shows "\<exists>s'. log_write b s = Inr s' \<and> txn p st H s' \<and> log_frame s s' \<and> held_same H s s' \<and> ldisk s' = ldisk s \<and>
    disk s' = disk s \<and> dwrites s' = dwrites s \<and>
    logged s' = (if b_blockno (bufs s b) \<in> set (logged s) then logged s else logged s @ [b_blockno (bufs s b)])"
proof (cases "b_blockno (bufs s b) \<in> set (logged s)")
  case True
  have "log_write b s = Inr s"
    using True r room by (intro log_write_absorb [OF txn_held(4) [OF t b(1)] txnD(3) [OF t]]) (auto simp: log_ready_def)
  then show ?thesis using True t by (auto simp: held_same_def)
next
  case False
  let ?n = "b_blockno (bufs s b)"
  let ?u = "s\<lparr>lh_n := lh_n s + 1, lh_block := (lh_block s)(length (logged s) := ?n)\<rparr>"
  let ?s = "set_ref b (b_refcnt (bufs ?u b) + 1) ?u"
  have lw: "log_write b s = Inr ?s"
    using False r room log_write_new [OF txn_held(4) [OF t b(1)] txnD(3) [OF t], of b] by (auto simp: log_ready_def simp del: length_logged)
  have lu: "logged ?u = logged s @ [?n]" using logged_snoc [OF txnD(3) [OF t]] room by simp
  have ub: "brefs p H (pins 1 (logged s)) ?u" using txnD(1) [OF t] by simp
  have "pins 1 (logged s) ?n = 0" using False by (simp add: pins_def)
  moreover have "(pins 1 (logged s))(?n := 1) = pins 1 (logged s @ [?n])" by (auto simp: pins_def)
  ultimately have B: "brefs p H (pins 1 (logged s @ [?n])) ?s" "quiet ?u ?s" "held_same H ?u ?s"
    using brefs_set_ref [OF ub b(1), of "b_refcnt (bufs ?u b) + 1" 1 "pins 1 (logged s @ [?n])"] brefsD(7) [OF ub b(1)] by simp_all
  note F = log_fields [OF quietD(1) [OF B(2)]]
  have ls: "logged ?s = logged s @ [?n]" using F(9) lu by simp
  have L: "log_at st s" using txnD(2) [OF t] .
  have "txn p st H ?s"
  proof (rule txnI)
    show "brefs p H (pins 1 (logged ?s)) ?s" using B(1) ls by simp
    have "log_dev ?s = ROOTDEV" "log_start ?s = st" using F(1,5) log_atD(1,2) [OF L] by simp_all
    moreover have "blocks_ok st (logged s @ [?n])"
      using log_atD(7) [OF L] False b(2) room by (auto simp: blocks_ok_def simp del: length_logged)
    ultimately show "log_at st ?s" using ls by (simp add: log_at_def)
    show "lh_n ?s = of_nat (length (logged ?s))" using F(6) ls txnD(3) [OF t] by (simp del: length_logged)
    show "ldisk ?s m = disk ?s m" if "m \<notin> set (logged ?s)" "\<And>c. c \<in> H \<Longrightarrow> b_blockno (bufs ?s c) \<noteq> m" for m
      using txnD(4) [OF t, of m] that ls held_sameD(1) [OF B(3)] quietD(2,4) [OF B(2)] by auto
  qed (use txnD [OF t] quietD [OF B(2)] in simp_all)
  moreover have "log_frame s ?s" using quietD(1) [OF B(2)] F(6,7) by (simp add: log_frame_def)
  moreover have "held_same H s ?s" using B(3) by (simp add: held_same_def)
  ultimately show ?thesis using lw False ls quietD [OF B(2)] by (intro exI [of _ ?s]) simp
qed

section \<open>Reading and changing one block\<close>

text \<open>The block numbers of a transaction after a \<open>log_write\<close> of block \<open>n\<close>.\<close>

definition logs :: "u32 \<Rightarrow> u32 list \<Rightarrow> u32 list" where
  "logs n ns = (if n \<in> set ns then ns else ns @ [n])"

lemma set_logs [simp]: "set (logs n ns) = insert n (set ns)"
  by (auto simp: logs_def)

lemma length_logs: "length ns \<le> length (logs n ns)" "length (logs n ns) \<le> Suc (length ns)"
  by (simp_all add: logs_def)

text \<open>A call that runs in a transaction with room: process, log and cache are in order.\<close>

definition ftx :: "nat \<Rightarrow> u32 \<Rightarrow> nat set \<Rightarrow> 'a klog_scheme \<Rightarrow> bool" where
  "ftx p st H s \<longleftrightarrow> txn p st H s \<and> log_ready s"

lemma ftxD:
  assumes "ftx p st H s"
  shows "txn p st H s" "log_ready s" "running p s" "length (ldisk s n) = BSIZE" "length (logged s) = card (set (logged s))"
  using assms sizedD [OF txnD(7)] cache_okD(2) [OF brefsD(1) [OF txnD(1)]] distinct_card [OF log_atD(5) [OF txnD(2)], symmetric]
  by (auto simp: ftx_def simp del: length_logged)

lemma log_ready_frame: "log_frame s s' \<Longrightarrow> log_ready s' = log_ready s"
  by (simp add: log_ready_def log_frameD)

lemma quiet_log_frame: "quiet s s' \<Longrightarrow> log_frame s s'"
  by (simp add: quiet_def log_frame_bio)

lemma quiet_logged: "quiet s s' \<Longrightarrow> logged s' = logged s"
  by (rule log_fields(9) [OF quietD(1)])

lemma held_same_trans: "held_same H s t \<Longrightarrow> held_same H t u \<Longrightarrow> held_same H s u"
  by (simp add: held_same_def)

lemma held_same_mono: "held_same H s t \<Longrightarrow> G \<subseteq> H \<Longrightarrow> held_same G s t"
  by (auto simp: held_same_def)

text \<open>A buffer fresh from \<open>bread\<close> holds the block, and is as on the disk unless the block is logged.\<close>

lemma ftx_bread:
  assumes t: "ftx p st H s" and n: "\<And>b. b \<in> H \<Longrightarrow> b_blockno (bufs s b) \<noteq> n"
    and room: "length (logged s) + card H < NBUF"
  shows "\<exists>b s'. bread ROOTDEV n s = Inr (b, s') \<and> b \<notin> H \<and> ftx p st (insert b H) s' \<and> quiet s s' \<and>
    held_same H s s' \<and> b_blockno (bufs s' b) = n \<and> b_data (bufs s' b) = ldisk s n \<and> logged s' = logged s \<and>
    (n \<notin> set (logged s) \<longrightarrow> ldisk s n = disk s n)"
proof -
  obtain b s' where B: "bread ROOTDEV n s = Inr (b, s')" "b \<notin> H" "txn p st (insert b H) s'" "quiet s s'" "held_same H s s'"
    "b_blockno (bufs s' b) = n" "b_data (bufs s' b) = ldisk s n"
    using txn_bread [OF ftxD(1) [OF t] n room] by blast
  then have "ftx p st (insert b H) s'" using ftxD(2) [OF t] log_ready_frame [OF quiet_log_frame [OF B(4)]] by (simp add: ftx_def)
  with B quiet_logged [OF B(4)] txnD(4) [OF ftxD(1) [OF t], of n] n show ?thesis by blast
qed

lemma ftx_brelse:
  assumes t: "ftx p st H s" and b: "b \<in> H"
    and clean: "b_blockno (bufs s b) \<notin> set (logged s) \<Longrightarrow> b_data (bufs s b) = disk s (b_blockno (bufs s b))"
  shows "\<exists>s'. brelse b s = Inr s' \<and> ftx p st (H - {b}) s' \<and> quiet s s' \<and> held_same H s s' \<and> logged s' = logged s"
proof -
  obtain s' where B: "brelse b s = Inr s'" "txn p st (H - {b}) s'" "quiet s s'" "held_same H s s'"
    using txn_brelse [OF ftxD(1) [OF t] b clean] by blast
  then show ?thesis using ftxD(2) [OF t] log_ready_frame [OF quiet_log_frame [OF B(3)]] quiet_logged [OF B(3)] by (simp add: ftx_def)
qed

lemma ftx_write:
  assumes t: "ftx p st H s" and b: "b \<in> H" "b_blockno (bufs s b) = n" "n \<notin> log_area st" and d: "length d = BSIZE"
    and room: "length (logged s) < LOGSIZE - 1"
  shows "\<exists>s'. log_write b (set_data b d s) = Inr s' \<and> ftx p st H s' \<and> log_frame s s' \<and> held_same (H - {b}) s s' \<and>
    b_blockno (bufs s' b) = n \<and> b_data (bufs s' b) = d \<and>
    ldisk s' = (ldisk s)(n := d) \<and> disk s' = disk s \<and> dwrites s' = dwrites s \<and> logged s' = logs n (logged s)"
proof -
  let ?u = "set_data b d s"
  note S = txn_set_data [OF ftxD(1) [OF t] b(1) d]
  have u: "log_frame s ?u" "log_ready ?u" using log_frame_bio [OF S(2)] ftxD(2) [OF t] log_ready_frame by blast+
  obtain s' where s': "log_write b ?u = Inr s'" "txn p st H s'" "log_frame ?u s'" "held_same H ?u s'" "ldisk s' = ldisk ?u"
    "disk s' = disk ?u" "dwrites s' = dwrites ?u" "logged s' = logs n (logged ?u)"
    using txn_log_write [OF S(1) b(1) _ u(2)] b(2,3) room S(7,9) by (auto simp: logs_def)
  have "held_same (H - {b}) s s'" using held_same_trans [OF S(8) held_same_mono [OF s'(4)]] by blast
  moreover have "b_blockno (bufs s' b) = n" "b_data (bufs s' b) = d" using held_sameD [OF s'(4) b(1)] S(6,7) b(2) by simp_all
  ultimately show ?thesis
    using s' S(3-5,9) b(2) log_frame_trans [OF u(1) s'(3)] log_ready_frame [OF s'(3)] u(2) by (simp add: ftx_def)
qed

text \<open>Look at a block; change a block.\<close>

lemma ftx_read:
  assumes t: "ftx p st H s" and n: "\<And>b. b \<in> H \<Longrightarrow> b_blockno (bufs s b) \<noteq> n"
    and room: "length (logged s) + card H < NBUF"
  shows "\<exists>b s1 s'. bread ROOTDEV n s = Inr (b, s1) \<and> quiet s s1 \<and> b_data (bufs s1 b) = ldisk s n \<and> brelse b s1 = Inr s' \<and>
    ftx p st H s' \<and> quiet s s' \<and> held_same H s s' \<and> logged s' = logged s"
proof -
  obtain b s1 where B: "bread ROOTDEV n s = Inr (b, s1)" "b \<notin> H" "ftx p st (insert b H) s1" "quiet s s1" "held_same H s s1"
    "b_blockno (bufs s1 b) = n" "b_data (bufs s1 b) = ldisk s n" "logged s1 = logged s" "n \<notin> set (logged s) \<longrightarrow> ldisk s n = disk s n"
    using ftx_bread [OF t n room] by blast
  obtain s' where R: "brelse b s1 = Inr s'" "ftx p st (insert b H - {b}) s'" "quiet s1 s'" "held_same (insert b H) s1 s'" "logged s' = logged s1"
    using ftx_brelse [OF B(3), of b] B(6-9) quietD(2) [OF B(4)] by auto
  have "held_same H s s'" using held_same_trans [OF B(5) held_same_mono [OF R(4)]] by blast
  then show ?thesis using B R quiet_trans [OF B(4) R(3)] by auto
qed

lemma ftx_modify:
  assumes t: "ftx p st H s" and n: "\<And>b. b \<in> H \<Longrightarrow> b_blockno (bufs s b) \<noteq> n" "n \<notin> log_area st" and d: "length d = BSIZE"
    and room: "length (logged s) < LOGSIZE - 1" "length (logged s) + card H < NBUF"
  shows "\<exists>b s1 s2 s'. bread ROOTDEV n s = Inr (b, s1) \<and> quiet s s1 \<and> b_data (bufs s1 b) = ldisk s n \<and>
    log_write b (set_data b d s1) = Inr s2 \<and> brelse b s2 = Inr s' \<and>
    ftx p st H s' \<and> log_frame s s' \<and> held_same H s s' \<and> ldisk s' = (ldisk s)(n := d) \<and> disk s' = disk s \<and>
    dwrites s' = dwrites s \<and> logged s' = logs n (logged s)"
proof -
  obtain b s1 where B: "bread ROOTDEV n s = Inr (b, s1)" "b \<notin> H" "ftx p st (insert b H) s1" "quiet s s1" "held_same H s s1"
    "b_blockno (bufs s1 b) = n" "b_data (bufs s1 b) = ldisk s n" "logged s1 = logged s"
    using ftx_bread [OF t n(1) room(2)] by blast
  obtain s2 where W: "log_write b (set_data b d s1) = Inr s2" "ftx p st (insert b H) s2" "log_frame s1 s2" "held_same (insert b H - {b}) s1 s2"
    "b_blockno (bufs s2 b) = n" "ldisk s2 = (ldisk s1)(n := d)" "disk s2 = disk s1" "dwrites s2 = dwrites s1" "logged s2 = logs n (logged s)"
    using ftx_write [OF B(3) _ B(6) n(2) d] room(1) B(8) by auto
  obtain s' where R: "brelse b s2 = Inr s'" "ftx p st (insert b H - {b}) s'" "quiet s2 s'" "held_same (insert b H) s2 s'" "logged s' = logged s2"
    using ftx_brelse [OF W(2), of b] W(5,9) by auto
  have e: "insert b H - {b} = H" using B(2) by simp
  have "held_same H s s'"
    using held_same_trans [OF held_same_trans [OF B(5) W(4) [unfolded e]] held_same_mono [OF R(4)]] by blast
  moreover have "log_frame s s'"
    using log_frame_trans [OF log_frame_trans [OF quiet_log_frame [OF B(4)] W(3)] quiet_log_frame [OF R(3)]] .
  ultimately show ?thesis using B(1,4,7) W(1,6-9) R(1,5) R(2) [unfolded e] quietD [OF B(4)] quietD [OF R(3)]
    by (intro exI [of _ b] exI [of _ s1] exI [of _ s2] exI [of _ s']) simp
qed

end
