(* ===== verification/Crash.thy ===== *)
theory Crash
  imports Txn
begin

text \<open>
  Crash safety. The disk after a crash is the disk before the commit with a prefix of the commit's
  writes applied. What recovery makes of it is computed by \<open>recovered\<close>; it is the state before the
  transaction, or the state after it. Recovery itself may be cut short and repeated.
\<close>

section \<open>The commit\<close>

definition home_writes :: "u32 list \<Rightarrow> dmap \<Rightarrow> (u32 \<times> block) list" where
  "home_writes bs e = map (\<lambda>b. (b, e b)) bs"

definition commit_writes :: "u32 \<Rightarrow> u32 list \<Rightarrow> dmap \<Rightarrow> block \<Rightarrow> (u32 \<times> block) list" where
  "commit_writes st bs e h =
     to_log st bs e (length bs) @ (st, head_block bs h) # home_writes bs e @ [(st, head_block [] (head_block bs h))]"

lemma apply_writes_cong: "d n = e n \<Longrightarrow> apply_writes d ws n = apply_writes e ws n"
proof (induction ws arbitrary: d e)
  case (Cons w ws)
  from Cons.prems have "(d(fst w := snd w)) n = (e(fst w := snd w)) n" by simp
  then have "apply_writes (d(fst w := snd w)) ws n = apply_writes (e(fst w := snd w)) ws n" by (rule Cons.IH)
  then show ?case by simp
qed simp

lemma to_log_fst: "fst ` set (to_log st bs d k) = logblk st ` {0..<k}"
  by (force simp: to_log_def)

lemma to_log_value:
  assumes "blocks_ok st bs" "i < length bs"
  shows "apply_writes d (to_log st bs e (length bs)) (logblk st i) = e (bs ! i)"
proof (rule apply_writes_at)
  have "inj_on (logblk st) {0..<length bs}"
    using assms(1) logblk_facts(3) [of st] by (intro inj_onI) (auto simp: blocks_ok_def)
  then show "distinct (map fst (to_log st bs e (length bs)))"
    by (simp add: to_log_def comp_def distinct_map)
  show "(logblk st i, e (bs ! i)) \<in> set (to_log st bs e (length bs))"
    using assms(2) by (auto simp: to_log_def)
qed

lemma st_not_logged: "blocks_ok st bs \<Longrightarrow> st \<notin> set bs" "blocks_ok st bs \<Longrightarrow> st \<notin> fst ` set (to_log st bs d (length bs))"
proof -
  assume ok: "blocks_ok st bs"
  then have "st \<in> log_area st" by (auto simp: log_area_def)
  with ok show "st \<notin> set bs" by (auto simp: blocks_ok_def)
  have "logblk st i \<noteq> st" if "i < length bs" for i
    using ok that logblk_facts(2) [of st i] by (simp add: blocks_ok_def)
  then show "st \<notin> fst ` set (to_log st bs d (length bs))" unfolding to_log_fst by (metis atLeastLessThan_iff imageE)
qed

lemma home_writes_value:
  assumes "distinct bs"
  shows "apply_writes d (home_writes bs e) n = (if n \<in> set bs then e n else d n)"
proof (cases "n \<in> set bs")
  case True
  have "distinct (map fst (home_writes bs e))" using assms by (simp add: home_writes_def comp_def)
  moreover have "(n, e n) \<in> set (home_writes bs e)" using True by (auto simp: home_writes_def)
  ultimately show ?thesis using True by (simp add: apply_writes_at)
next
  case False
  then show ?thesis by (subst apply_writes_other) (auto simp: home_writes_def)
qed

lemma to_home_home_writes:
  assumes "\<And>i. i < length bs \<Longrightarrow> d (logblk st i) = e (bs ! i)"
  shows "to_home st bs d (length bs) = home_writes bs e"
  by (rule nth_equalityI) (simp_all add: to_home_def home_writes_def assms)

lemma pins_0: "pins 0 bs = (\<lambda>_. 0)" "pins c [] = (\<lambda>_. 0)"
  by (auto simp: pins_def)

lemma commit_run:
  assumes t: "txn p st {} s" and ne: "logged s \<noteq> []"
  shows "\<exists>s'. commit s = Inr s' \<and> brefs p {} (\<lambda>_. 0) s' \<and> sync (s\<lparr>lh_n := 0\<rparr>) (commit_writes st (logged s) (ldisk s) (ldisk s st)) s'"
proof -
  let ?bs = "logged s" and ?e = "ldisk s"
  let ?L = "to_log st ?bs ?e (length ?bs)" and ?h = "head_block ?bs (?e st)"
  note T = txnD [OF t] and L = log_atD [OF txnD(2) [OF t]]
  obtain s1 where s1: "write_log s = Inr s1" "brefs p {} (pins 1 ?bs) s1" "sync s ?L s1"
    using write_log_spec [OF T(1,2)] by blast
  note F1 = log_fields [OF syncD(1) [OF s1(3)]]
  have st: "pins 1 ?bs st = 0" "card {n. pins 1 ?bs n \<noteq> 0} < NBUF" "ldisk s1 st = ?e st"
    using st_not_logged [OF L(7)] card_pins [of 1 ?bs] L(4) syncD(4) [OF s1(3)]
    by (auto simp: pins_def apply_writes_other simp del: length_logged)
  obtain s2 where s2: "write_head s1 = Inr s2" "brefs p {} (pins 1 ?bs) s2" "sync s1 [(st, ?h)] s2"
    using write_head_spec [OF s1(2) st(1,2)] L(1,2) T(3) F1 st(3) by (auto simp del: length_logged)
  note F2 = log_fields [OF syncD(1) [OF s2(3)]]
  have lb: "ldisk s2 (logblk st i) = ?e (?bs ! i)" "disk s2 (logblk st i) = ?e (?bs ! i)" if "i < length ?bs" for i
    using syncD(2,4) [OF s2(3)] syncD(2,4) [OF s1(3)] to_log_value [OF L(7) that] logblk_facts(2) [OF L(3), of i] that L(4)
    by (auto simp del: length_logged)
  have at2: "log_at st s2" "logged s2 = ?bs" using T(2) F1 F2 by (simp_all add: log_at_def)
  have hw: "to_home st ?bs (ldisk s2) (length ?bs) = home_writes ?bs ?e" by (rule to_home_home_writes) (rule lb(1))
  have cl: "ldisk s2 (logblk st i) = disk s2 (logblk st i)" if "i < length (logged s2)" for i
    using lb [of i] that at2(2) by simp
  have b2: "brefs p {} (pins 1 (logged s2)) s2" using s2(2) at2(2) by simp
  obtain s3 where s3: "install_trans s2 = Inr s3" "brefs p {} (pins (1 - 1) (logged s2)) s3"
    "sync s2 (to_home st (logged s2) (ldisk s2) (length (logged s2))) s3"
    using install_trans_spec [OF _ b2 at2(1) cl] by blast
  note F3 = log_fields [OF syncD(1) [OF s3(3)]]
  let ?s3 = "s3\<lparr>lh_n := 0\<rparr>"
  have b3: "brefs p {} (\<lambda>_. 0) ?s3" using s3(2) by (simp add: pins_0)
  have l3: "logged ?s3 = []" "log_dev ?s3 = ROOTDEV" "log_start ?s3 = st" "lh_n ?s3 = of_nat (length (logged ?s3))"
    using L(1,2) F1 F2 F3 by (simp_all add: logged_def)
  have d3: "sync s2 (home_writes ?bs ?e) s3" using s3(3) unfolding at2(2) hw .
  have h3: "ldisk ?s3 st = ?h"
    using syncD(4) [OF d3] syncD(4) [OF s2(3)] st_not_logged(1) [OF L(7)] L(5) by (simp add: home_writes_value)
  obtain s4 where s4: "write_head ?s3 = Inr s4" "brefs p {} (\<lambda>_. 0) s4" "sync ?s3 [(st, head_block [] ?h)] s4"
    using write_head_spec [OF b3 _ _ l3(2,3,4), unfolded l3(1) h3] by auto
  have "sync s (?L @ [(st, ?h)] @ home_writes ?bs ?e) s3"
    using sync_trans [OF s1(3) sync_trans [OF s2(3) d3]] .
  then have "sync (s\<lparr>lh_n := 0\<rparr>) (?L @ [(st, ?h)] @ home_writes ?bs ?e) ?s3"
    by (simp add: sync_def bio_frame_lh)
  from sync_trans [OF this s4(3)] have "sync (s\<lparr>lh_n := 0\<rparr>) (commit_writes st ?bs ?e (?e st)) s4"
    by (simp add: commit_writes_def)
  moreover have "sint (lh_n s) > 0" using ne by (simp add: logged_def)
  ultimately show ?thesis using s1(1) s2(1) s3(1) s4(1,2) by (intro exI [of _ s4]) (simp add: commit_def)
qed

section \<open>A crash during the commit\<close>

text \<open>A disk that recovery understands.\<close>

definition recoverable :: "u32 \<Rightarrow> dmap \<Rightarrow> bool" where
  "recoverable st d \<longleftrightarrow> sized d \<and> blocks_ok st (head_blocks (d st)) \<and> head_n (d st) = of_nat (length (head_blocks (d st)))"

lemma head_empty: "head_n h = 0 \<Longrightarrow> head_blocks h = []"
  by (simp add: head_blocks_def)

lemma recovered_empty: "head_n (d st) = 0 \<Longrightarrow> recovered st d = d"
  by (simp add: recovered_def head_empty to_home_def)

lemma recoverable_empty: "sized d \<Longrightarrow> log_room st \<Longrightarrow> head_n (d st) = 0 \<Longrightarrow> recoverable st d"
  by (simp add: recoverable_def head_empty blocks_ok_def)

lemma recovered_full:
  assumes "head_blocks (d st) = bs" "distinct bs" "\<And>i. i < length bs \<Longrightarrow> d (logblk st i) = e (bs ! i)"
  shows "recovered st d n = (if n \<in> set bs then e n else d n)"
  unfolding recovered_def Let_def assms(1) by (simp add: to_home_home_writes [where d = d and e = e and st = st and bs = bs, OF assms(3)] home_writes_value [OF assms(2)])

lemma take_commit_writes:
  "\<exists>j. take k (commit_writes st bs e h) = take j (to_log st bs e (length bs)) \<and> k \<le> length bs \<or>
    take k (commit_writes st bs e h) = to_log st bs e (length bs) @ (st, head_block bs h) # take j (home_writes bs e) \<and> k > length bs \<or>
    take k (commit_writes st bs e h) = commit_writes st bs e h \<and> k > length bs"
proof -
  have l: "length (to_log st bs e (length bs)) = length bs" by (simp add: to_log_def)
  consider "k \<le> length bs" | j where "k = Suc (length bs + j)" "j \<le> length bs" | "k > Suc (length bs + length bs)"
  proof -
    have "k \<le> length bs \<or> (k = Suc (length bs + (k - Suc (length bs))) \<and> k - Suc (length bs) \<le> length bs) \<or>
        k > Suc (length bs + length bs)" by arith
    then show thesis using that by blast
  qed
  then show ?thesis
  proof cases
    case 1
    then show ?thesis by (intro exI [of _ k]) (simp add: commit_writes_def l)
  next
    case 2
    then show ?thesis by (intro exI [of _ j]) (simp add: commit_writes_def l home_writes_def)
  next
    case 3
    then have "length (commit_writes st bs e h) \<le> k" by (simp add: commit_writes_def l home_writes_def)
    with 3 show ?thesis by (simp add: l)
  qed
qed

text \<open>\<open>d\<close> is the disk and \<open>e\<close> what readers see before the commit.\<close>

definition committing :: "u32 \<Rightarrow> u32 list \<Rightarrow> dmap \<Rightarrow> dmap \<Rightarrow> bool" where
  "committing st bs d e \<longleftrightarrow> blocks_ok st bs \<and> head_n (d st) = 0 \<and> sized d \<and> sized e \<and> (\<forall>n. n \<notin> set bs \<longrightarrow> e n = d n)"

lemma committingD:
  assumes "committing st bs d e"
  shows "blocks_ok st bs" "head_n (d st) = 0" "sized d" "sized e" "n \<notin> set bs \<Longrightarrow> e n = d n"
  using assms by (simp_all add: committing_def)

lemma commit_header:
  assumes "committing st bs d e"
  shows "length (head_block bs (d st)) = BSIZE" "head_n (head_block bs (d st)) = of_nat (length bs)"
  "head_blocks (head_block bs (d st)) = bs"
  using head_block_parse [of bs "d st"] committingD(1) [OF assms] sizedD [OF committingD(3) [OF assms]] by (simp_all add: blocks_ok_def)

lemma commit_before_header:
  assumes c: "committing st bs d e" and d': "d' = apply_writes d (take j (to_log st bs e (length bs)))"
  shows "recoverable st d'" "n \<notin> log_area st \<Longrightarrow> recovered st d' n = d n"
proof -
  note ok = committingD(1) [OF c] and empty = committingD(2) [OF c] and sz = committingD(3,4) [OF c]
    and clean = committingD(5) [OF c] and hb = commit_header [OF c]
  have "st \<notin> fst ` set (take j (to_log st bs e (length bs)))"
    using st_not_logged(2) [OF ok] by (auto dest: in_set_takeD)
  then have h: "head_n (d' st) = 0" using empty d' by (simp add: apply_writes_other)
  have "sized d'" unfolding d'
    by (rule sized_apply_writes [OF sz(1)]) (auto dest!: in_set_takeD simp: to_log_def sizedD [OF sz(2)])
  then show "recoverable st d'" using h ok by (simp add: recoverable_empty blocks_ok_def)
  assume "n \<notin> log_area st"
  then have "n \<notin> fst ` set (take j (to_log st bs e (length bs)))"
    using ok logblk_facts(1) [of st] by (auto simp: to_log_def blocks_ok_def dest!: in_set_takeD)
  then show "recovered st d' n = d n" using recovered_empty [of d' st, OF h] d' by (simp add: apply_writes_other)
qed

lemma commit_after_header:
  assumes c: "committing st bs d e" and d': "d' = apply_writes d (to_log st bs e (length bs) @ (st, head_block bs (d st)) # take j (home_writes bs e))"
  shows "recoverable st d'" "n \<notin> log_area st \<Longrightarrow> recovered st d' n = e n"
proof -
  note ok = committingD(1) [OF c] and empty = committingD(2) [OF c] and sz = committingD(3,4) [OF c]
    and clean = committingD(5) [OF c] and hb = commit_header [OF c]
  have ho: "apply_writes f (take j (home_writes bs e)) m = f m" if "m \<notin> set bs" for f m
    using that by (intro apply_writes_other) (auto simp: home_writes_def dest!: in_set_takeD)
  have area: "m \<in> log_area st \<Longrightarrow> m \<notin> set bs" for m using ok by (auto simp: blocks_ok_def)
  have st: "st \<in> log_area st" by (simp add: log_area_def)
  have s': "d' st = head_block bs (d st)"
    unfolding d' using ho [OF area [OF st]] by simp
  have lb: "d' (logblk st i) = e (bs ! i)" if "i < length bs" for i
  proof -
    have i: "logblk st i \<in> log_area st" "logblk st i \<noteq> st"
      using that ok logblk_facts(1,2) [of st i] by (simp_all add: blocks_ok_def)
    then show ?thesis unfolding d' using ho [OF area [OF i(1)]] to_log_value [OF ok that] by simp
  qed
  have "sized d'" unfolding d'
    by (rule sized_apply_writes [OF sz(1)])
      (auto dest!: in_set_takeD simp: to_log_def home_writes_def sizedD [OF sz(2)] hb)
  then show "recoverable st d'" using ok by (simp add: recoverable_def s' hb)
  assume n: "n \<notin> log_area st"
  have "d' n = d n" if "n \<notin> set bs"
  proof -
    have "n \<noteq> st" using n st by auto
    then show ?thesis unfolding d' using ho [OF that] to_log_at [OF n ok] by simp
  qed
  then show "recovered st d' n = e n"
    using recovered_full [of d' st bs e n] lb clean [of n] ok by (simp add: s' hb blocks_ok_def)
qed

lemma commit_finished:
  assumes c: "committing st bs d e" and d': "d' = apply_writes d (commit_writes st bs e (d st))"
  shows "recoverable st d'" "n \<notin> log_area st \<Longrightarrow> recovered st d' n = e n" "d' st = head_block [] (head_block bs (d st))"
    "head_n (d' st) = 0" "n \<notin> log_area st \<Longrightarrow> d' n = e n" "sized d'"
proof -
  note ok = committingD(1) [OF c] and empty = committingD(2) [OF c] and sz = committingD(3,4) [OF c]
    and clean = committingD(5) [OF c] and hb = commit_header [OF c]
  have st: "st \<in> log_area st" by (simp add: log_area_def)
  show s': "d' st = head_block [] (head_block bs (d st))" by (simp add: d' commit_writes_def)
  show z: "head_n (d' st) = 0" using head_block_parse(2) [of "[]" "head_block bs (d st)"] hb(1) s' by simp
  show sd: "sized d'" unfolding d' commit_writes_def
    by (rule sized_apply_writes [OF sz(1)])
      (auto simp: to_log_def home_writes_def sizedD [OF sz(2)] hb head_block_parse)
  then show "recoverable st d'" using z ok by (simp add: recoverable_empty blocks_ok_def)
  show n': "d' n = e n" if n: "n \<notin> log_area st"
  proof -
    have "n \<noteq> st" using n st by auto
    then show ?thesis unfolding d' commit_writes_def
      using ok to_log_at [OF n ok, of "length bs" d e] clean [of n] by (simp add: home_writes_value blocks_ok_def)
  qed
  show "recovered st d' n = e n" if "n \<notin> log_area st" using recovered_empty [of d' st, OF z] n' [OF that] by simp
qed

lemma commit_crash:
  assumes c: "committing st bs d e" and "d' = apply_writes d (take k (commit_writes st bs e (d st)))"
  shows "recoverable st d'" "n \<notin> log_area st \<Longrightarrow> recovered st d' n = (if k \<le> length bs then d n else e n)"
  using take_commit_writes [of k st bs e "d st"] commit_before_header [OF c, of d'] commit_after_header [OF c, of d'] commit_finished(1,2) [OF c, of d'] assms
  by (auto split: if_splits)

lemma txn_committing:
  assumes "txn p st {} s"
  shows "committing st (logged s) (disk s) (ldisk s)"
  using txnD [OF assms] log_atD(7) [OF txnD(2) [OF assms]] by (simp add: committing_def)

section \<open>Recovery\<close>

definition recover_writes :: "u32 \<Rightarrow> dmap \<Rightarrow> (u32 \<times> block) list" where
  "recover_writes st d = (let bs = head_blocks (d st) in to_home st bs d (length bs) @ [(st, head_block [] (d st))])"

lemma recoverableD:
  assumes "recoverable st d"
  shows "sized d" "blocks_ok st (head_blocks (d st))" "head_n (d st) = of_nat (length (head_blocks (d st)))"
  using assms by (simp_all add: recoverable_def)

lemma recovery_run:
  assumes ok: "brefs p {} (\<lambda>_. 0) s" and clean: "ldisk s = disk s" and rec: "recoverable st (disk s)" and sb: "sb_logstart sb = st"
  shows "\<exists>s'. initlog ROOTDEV sb s = Inr s' \<and> lh_n s' = 0 \<and> log_dev s' = ROOTDEV \<and> log_start s' = st \<and> log_size s' = sb_nlog sb \<and>
    brefs p {} (pins (- 1) (head_blocks (disk s st))) s' \<and> dwrites s' = dwrites s @ recover_writes st (disk s) \<and>
    disk s' = apply_writes (disk s) (recover_writes st (disk s)) \<and> ldisk s' = disk s'"
proof -
  let ?bs = "head_blocks (disk s st)"
  let ?s0 = "s\<lparr>log_start := sb_logstart sb, log_size := sb_nlog sb, log_dev := ROOTDEV\<rparr>"
  note R = recoverableD [OF rec]
  have c0: "brefs p {} (\<lambda>_. 0) ?s0" "log_dev ?s0 = ROOTDEV" "log_start ?s0 = st" "ldisk ?s0 st = disk ?s0 st"
    using ok sb clean by simp_all
  obtain s1 t where s1: "read_head ?s0 = Inr s1" "quiet ?s0 t" "brefs p {} (\<lambda>_. 0) s1"
    "s1 = t\<lparr>lh_n := lh_n s1, lh_block := lh_block s1\<rparr>" "lh_n s1 = head_n (ldisk ?s0 st)" "logged s1 = head_blocks (ldisk ?s0 st)"
    using read_head_spec [OF c0] by blast
  have e1: "ldisk s1 = ldisk t" "disk s1 = disk t" "dwrites s1 = dwrites t" "log_start s1 = log_start t" "log_dev s1 = log_dev t"
    "log_size s1 = log_size t" by (subst s1(4), simp)+
  note Q = quietD [OF s1(2)] and F = log_fields [OF quietD(1) [OF s1(2)]]
  have d1: "disk s1 = disk s" "ldisk s1 = disk s" "dwrites s1 = dwrites s" using e1 Q clean by simp_all
  have l1: "logged s1 = ?bs" "log_at st s1"
    using s1(6) clean e1 F sb R(2) by (simp_all add: log_at_def)
  have "brefs p {} (pins 0 (logged s1)) s1" using s1(3) by (simp add: pins_0)
  then obtain s2 where s2: "install_trans s1 = Inr s2" "brefs p {} (pins (0 - 1) (logged s1)) s2"
    "sync s1 (to_home st (logged s1) (ldisk s1) (length (logged s1))) s2"
    using install_trans_spec [OF _ _ l1(2), of 0 p] d1(1,2) by auto
  note F2 = log_fields [OF syncD(1) [OF s2(3)]]
  let ?s2 = "s2\<lparr>lh_n := 0\<rparr>" and ?hw = "to_home st ?bs (disk s) (length ?bs)"
  have b2: "brefs p {} (pins (-1) ?bs) ?s2" using s2(2) l1(1) by simp
  have l2: "log_dev ?s2 = ROOTDEV" "log_start ?s2 = st" "log_size ?s2 = sb_nlog sb" "logged ?s2 = []" "lh_n ?s2 = of_nat (length (logged ?s2))"
    using F2 e1 F sb by (simp_all add: logged_def)
  have st: "pins (-1) ?bs st = 0" "card {n. pins (-1) ?bs n \<noteq> 0} < NBUF"
    using st_not_logged(1) [OF R(2)] card_pins [of "-1" ?bs] R(2) by (auto simp: pins_def blocks_ok_def)
  have "st \<in> log_area st" by (simp add: log_area_def)
  then have h2: "ldisk ?s2 st = disk s st"
    using syncD(4) [OF s2(3)] d1(2) l1(1) to_home_at [OF _ R(2)] by simp
  obtain s3 where s3: "write_head ?s2 = Inr s3" "brefs p {} (pins (-1) ?bs) s3" "sync ?s2 [(st, head_block [] (disk s st))] s3"
    using write_head_spec [OF b2 st l2(1,2,5), unfolded l2(4) h2] by auto
  note F3 = log_fields [OF syncD(1) [OF s3(3)]]
  have "initlog ROOTDEV sb s = Inr s3"
    using s1(1) s2(1) s3(1) by (simp add: initlog_def recover_from_log_def)
  moreover have "disk s3 = apply_writes (disk s) (recover_writes st (disk s))" "ldisk s3 = apply_writes (disk s) (recover_writes st (disk s))"
    "dwrites s3 = dwrites s @ recover_writes st (disk s)"
    using syncD(2-4) [OF s3(3)] syncD(2-4) [OF s2(3)] d1 l1(1) by (simp_all add: recover_writes_def Let_def)
  ultimately show ?thesis using s3(2) F3 l2 by (intro exI [of _ s3]) simp
qed

lemma recover_writes_value:
  assumes rec: "recoverable st d" and n: "n \<notin> log_area st"
  shows "apply_writes d (recover_writes st d) n = recovered st d n"
proof -
  have "n \<noteq> st" using n by (auto simp: log_area_def)
  then show ?thesis by (simp add: recover_writes_def recovered_def Let_def)
qed

text \<open>A crash during recovery.\<close>

lemma recover_again:
  assumes rec: "recoverable st d" and d': "d' = apply_writes d (take k (recover_writes st d))"
  shows "recoverable st d'" "n \<notin> log_area st \<Longrightarrow> recovered st d' n = recovered st d n"
proof -
  let ?bs = "head_blocks (d st)"
  note R = recoverableD [OF rec]
  define e where "e m = (if m \<in> set ?bs then recovered st d m else d m)" for m
  have dist: "distinct ?bs" using R(2) by (simp add: blocks_ok_def)
  have st: "st \<in> log_area st" by (simp add: log_area_def)
  have sd: "sized d'" unfolding d'
    by (rule sized_apply_writes [OF R(1)])
      (auto dest!: in_set_takeD simp: recover_writes_def Let_def to_home_def sizedD [OF R(1)] head_block_parse)
  have whole: "d' = apply_writes d (recover_writes st d)" if "k > length ?bs"
    using that d' by (simp add: recover_writes_def Let_def to_home_def)
  have part: "d' = apply_writes d (to_home st ?bs d k)" if "k \<le> length ?bs"
    using that d' by (simp add: recover_writes_def Let_def to_home_def take_map)
  have area: "d' m = d m" if "k \<le> length ?bs" "m \<in> log_area st" for m
    using part [OF that(1)] to_home_at [OF that(2) R(2) that(1)] by simp
  have z: "head_n (d' st) = 0" if "k > length ?bs"
    using whole [OF that] head_block_parse(2) [of "[]" "d st"] sizedD [OF R(1)] by (simp add: recover_writes_def Let_def)
  show "recoverable st d'"
  proof (cases "k \<le> length ?bs")
    case True
    then show ?thesis using sd R area [OF True st] by (simp add: recoverable_def)
  next
    case False
    then show ?thesis using sd z R(2) by (intro recoverable_empty) (simp_all add: blocks_ok_def)
  qed
  assume n: "n \<notin> log_area st"
  show "recovered st d' n = recovered st d n"
  proof (cases "k \<le> length ?bs")
    case True
    have lb: "d' (logblk st i) = d (logblk st i)" if "i < length ?bs" for i
      using that R(2) logblk_facts(1) [of st i] area [OF True] by (simp add: blocks_ok_def)
    have "to_home st ?bs d' (length ?bs) = to_home st ?bs d (length ?bs)" by (simp add: to_home_def lb)
    then have r: "recovered st d' n = apply_writes d' (to_home st ?bs d (length ?bs)) n"
      using area [OF True st] by (simp add: recovered_def Let_def)
    have rd: "recovered st d n = apply_writes d (to_home st ?bs d (length ?bs)) n" by (simp add: recovered_def Let_def)
    show ?thesis
    proof (cases "n \<in> set ?bs")
      case True
      then obtain i where i: "i < length ?bs" "n = ?bs ! i" by (auto simp: in_set_conv_nth)
      have "apply_writes f (to_home st ?bs d (length ?bs)) n = d (logblk st i)" for f
        using dist i by (intro apply_writes_at) (auto simp: to_home_def comp_def map_nth)
      then show ?thesis by (simp add: r rd)
    next
      case out: False
      have o: "apply_writes f (to_home st ?bs d j) n = f n" if "j \<le> length ?bs" for f j
        using out that by (intro apply_writes_other) (auto simp: to_home_def)
      have "d' n = d n" unfolding part [OF True] by (rule o [OF True])
      then show ?thesis unfolding r rd by (simp only: o [OF order_refl])
    qed
  next
    case False
    then have "recovered st d' n = d' n" using recovered_empty [of d' st] z by simp
    then show ?thesis using whole False recover_writes_value [OF rec n] by simp
  qed
qed

text \<open>A machine that has just booted.\<close>

lemma boot_brefs:
  assumes "zero_bufs r" "running p r"
  shows "brefs p {} (\<lambda>_. 0) (binit r)" "ldisk (binit r) = disk (binit r)" "disk (binit r) = disk r" "dwrites (binit r) = dwrites r"
proof -
  note u = binit_uncached [OF assms(1)]
  show "brefs p {} (\<lambda>_. 0) (binit r)" using binit_ok [OF assms] u(2) by (simp add: brefs_def)
  show "ldisk (binit r) = disk (binit r)" using u(4) by (simp add: fun_eq_iff)
  show "disk (binit r) = disk r" "dwrites (binit r) = dwrites r" using binit_frame [of r] by auto
qed

lemma boot_recovery:
  assumes "zero_bufs r" "running p r" "recoverable st (disk r)" "sb_logstart sb = st"
  shows "\<exists>r'. initlog ROOTDEV sb (binit r) = Inr r' \<and> lh_n r' = 0 \<and> ldisk r' = disk r' \<and>
    dwrites r' = dwrites r @ recover_writes st (disk r) \<and> (\<forall>n. n \<notin> log_area st \<longrightarrow> disk r' n = recovered st (disk r) n)"
proof -
  note B = boot_brefs [OF assms(1,2)]
  from recovery_run [OF B(1,2) _ assms(4)] assms(3) B(3,4) obtain r' where
    "initlog ROOTDEV sb (binit r) = Inr r'" "lh_n r' = 0" "dwrites r' = dwrites r @ recover_writes st (disk r)"
    "disk r' = apply_writes (disk r) (recover_writes st (disk r))" "ldisk r' = disk r'" by auto
  then show ?thesis using recover_writes_value [OF assms(3)] by (intro exI [of _ r']) simp
qed

section \<open>Properties\<close>

text \<open>A system call inside a transaction writes a block: the building block of every update.\<close>

lemma txn_update:
  assumes t: "txn p st {} s" and n: "n \<notin> log_area st" and d: "length d = BSIZE" and r: "log_ready s"
    and room: "length (logged s) < LOGSIZE - 1"
  shows "\<exists>b s1 s2 s'. bread ROOTDEV n s = Inr (b, s1) \<and> b_data (bufs s1 b) = ldisk s n \<and> log_write b (set_data b d s1) = Inr s2 \<and>
    brelse b s2 = Inr s' \<and> txn p st {} s' \<and> log_frame s s' \<and> ldisk s' = (ldisk s)(n := d) \<and> disk s' = disk s \<and>
    dwrites s' = dwrites s \<and> logged s' = (if n \<in> set (logged s) then logged s else logged s @ [n])"
proof -
  have f: "ftx p st {} s" using t r by (simp add: ftx_def)
  show ?thesis using ftx_modify [OF f _ n d room] room by (fastforce simp: ftx_def logs_def)
qed

text \<open>A machine after boot with an empty log of 30 blocks at block 2, and one running system call.\<close>

definition boot_log :: klog where
  "boot_log = kbio.extend boot_bio (klog.fields 2 30 1 0 ROOTDEV 0 (\<lambda>_. 0))"

lemma get_le_zero: "get_le 0 4 (replicate 1024 (0 :: u8)) = (0 :: u32)"
  by (simp add: get_le_def get_bytes_def eval_nat_numeral)

lemma boot_log_fields:
  "zero_bufs boot_log" "running 0 boot_log" "disk boot_log = disk boot_bio" "log_start boot_log = 2" "log_dev boot_log = ROOTDEV"
  "lh_n boot_log = 0" "log_ready boot_log" "dwrites boot_log = []" "sized (disk boot_log)" "head_n (disk boot_log 2) = 0"
  by (simp_all add: boot_log_def boot_bio_def zero_bufs_def running_def log_ready_def sized_def head_n_def get_le_zero kbio.defs klog.defs)

lemma boot_txnI:
  assumes "zero_bufs r" "running p r" "log_start r = st" "log_room st" "log_dev r = ROOTDEV" "lh_n r = 0" "sized (disk r)" "head_n (disk r st) = 0"
  shows "txn p st {} (binit r)" "logged (binit r) = []" "log_ready (binit r) = log_ready r"
proof -
  obtain bs sl where b: "binit r = r\<lparr>sleeplocks := sl, bufs := bs\<rparr>" using binit_frame by blast
  note B = boot_brefs [OF assms(1,2)]
  show l: "logged (binit r) = []" using assms(6) by (simp add: b logged_def)
  show "log_ready (binit r) = log_ready r" by (simp add: b log_ready_def)
  show "txn p st {} (binit r)"
  proof (rule txnI)
    show "brefs p {} (pins 1 (logged (binit r))) (binit r)" using B(1) l by (simp add: pins_0)
    show "log_at st (binit r)" unfolding log_at_def l using assms(3-5) by (simp add: b blocks_ok_def)
    show "lh_n (binit r) = of_nat (length (logged (binit r)))" unfolding l using assms(6) by (simp add: b)
  qed (use B assms(7,8) in simp_all)
qed

lemma boot_txn: "txn 0 2 {} (binit boot_log)" "logged (binit boot_log) = []" "log_ready (binit boot_log)"
  using boot_txnI [where r = boot_log and p = 0 and st = 2] boot_log_fields by (simp_all add: log_room_def)

text \<open>
  C12. Commits are atomic with respect to crashes. \<open>commit\<close> returns, leaves an empty log, and
  afterwards the disk holds every block of the transaction. If the machine crashes after any number
  \<open>k\<close> of the disk writes \<open>commit\<close> makes, then a machine booting from that disk - fresh cache,
  any process running - gets through \<open>initlog\<close>, and afterwards every block outside the log is as
  before the transaction, or every one is as the transaction left it: the latter from the write of the
  header on.
\<close>

theorem commit_crash_safe:
  assumes "txn p st {} s" "logged s \<noteq> []"
  shows "\<exists>s'. commit s = Inr s' \<and> logged s' = [] \<and> txn p st {} s' \<and> (\<forall>n. n \<notin> log_area st \<longrightarrow> disk s' n = ldisk s n \<and> ldisk s' n = ldisk s n) \<and>
    (\<forall>k r q sb. zero_bufs r \<longrightarrow> running q r \<longrightarrow> sb_logstart sb = st \<longrightarrow>
       disk r = apply_writes (disk s) (take k (drop (length (dwrites s)) (dwrites s'))) \<longrightarrow>
       (\<exists>r'. initlog ROOTDEV sb (binit (r :: 'b klog_scheme)) = Inr r' \<and> ldisk r' = disk r' \<and> lh_n r' = 0 \<and>
          (\<forall>n. n \<notin> log_area st \<longrightarrow> disk r' n = (if k \<le> length (logged s) then disk s n else ldisk s n))))"
proof -
  note c = txn_committing [OF assms(1)] and T = txnD [OF assms(1)] and L = log_atD [OF txnD(2) [OF assms(1)]]
  have st: "ldisk s st = disk s st" using T(4) st_not_logged(1) [OF L(7)] by simp
  obtain s' where s': "commit s = Inr s'" "brefs p {} (\<lambda>_. 0) s'"
    "sync (s\<lparr>lh_n := 0\<rparr>) (commit_writes st (logged s) (ldisk s) (disk s st)) s'"
    using commit_run [OF assms] st by auto
  note S = syncD [OF s'(3)] and F = log_fields [OF syncD(1) [OF s'(3)]]
  have w: "drop (length (dwrites s)) (dwrites s') = commit_writes st (logged s) (ldisk s) (disk s st)" using S(3) by simp
  have d': "disk s' = apply_writes (disk s) (commit_writes st (logged s) (ldisk s) (disk s st))" using S(2) by simp
  note fin = commit_finished [OF c d']
  have l': "logged s' = []" using F(9) by (simp add: logged_def)
  have ld: "ldisk s' = disk s'"
  proof
    fix n
    show "ldisk s' n = disk s' n"
    proof (cases "n \<in> set (logged s)")
      case True
      then have "n \<notin> log_area st" using L(6) by auto
      then have "n \<noteq> st" "n \<notin> fst ` set (to_log st (logged s) (ldisk s) (length (logged s)))"
        using logblk_facts(1) [OF L(3)] L(4) by (auto simp: log_area_def to_log_fst)
      then show ?thesis using S(2,4) True L(5) by (simp add: commit_writes_def home_writes_value)
    next
      case False
      then have "ldisk s n = disk s n" using T(4) by simp
      from apply_writes_cong [where d = "ldisk s" and e = "disk s" and n = n, OF this] show ?thesis using S(2,4) by simp
    qed
  qed
  have "txn p st {} s'"
  proof (rule txnI)
    show "brefs p {} (pins 1 (logged s')) s'" using s'(2) l' by (simp add: pins_0)
    show "log_at st s'" unfolding log_at_def l' using F(1,5) L(1,2,3) by (simp add: blocks_ok_def)
    show "lh_n s' = of_nat (length (logged s'))" using F(6) l' by simp
  qed (use ld fin in simp_all)
  moreover have "\<exists>r'. initlog ROOTDEV sb (binit (r :: 'b klog_scheme)) = Inr r' \<and> ldisk r' = disk r' \<and> lh_n r' = 0 \<and>
      (\<forall>n. n \<notin> log_area st \<longrightarrow> disk r' n = (if k \<le> length (logged s) then disk s n else ldisk s n))"
    if "zero_bufs r" "running q r" "sb_logstart sb = st"
      "disk r = apply_writes (disk s) (take k (drop (length (dwrites s)) (dwrites s')))" for k r q sb
  proof -
    note C = commit_crash [OF c that(4) [unfolded w]]
    from boot_recovery [OF that(1,2) C(1) that(3)] C(2) show ?thesis by auto
  qed
  ultimately show ?thesis using s'(1) l' ld fin(5) by (intro exI [of _ s']) simp
qed

text \<open>A transaction that writes block 40.\<close>

lemma small_txn: "\<exists>s :: klog. txn 0 2 {} s \<and> logged s = [40] \<and> ldisk s 40 = replicate BSIZE 7 \<and> disk s = disk boot_bio"
proof -
  have "(40 :: u32) \<notin> log_area 2" by (simp add: log_area_def)
  from txn_update [OF boot_txn(1) this _ boot_txn(3), of "replicate BSIZE 7"] boot_txn(2) boot_brefs(3) [OF boot_log_fields(1,2)]
    boot_log_fields(3) show ?thesis by auto
qed

theorem commit_crash_safe_witness:
  "\<exists>s s' :: klog. txn 0 2 {} s \<and> logged s = [40] \<and> commit s = Inr s' \<and> disk s' 40 = replicate BSIZE 7"
proof -
  from small_txn obtain s :: klog where s: "txn 0 2 {} s" "logged s = [40]" "ldisk s 40 = replicate BSIZE 7" by blast
  have "(40 :: u32) \<notin> log_area 2" by (simp add: log_area_def)
  with commit_crash_safe [OF s(1), where ?'b = unit] s show ?thesis by auto
qed

text \<open>
  C13. Recovery can be interrupted. Booting from any disk whose log header is well formed succeeds;
  and if the machine crashes again after any number of the disk writes recovery makes, the next boot
  also succeeds and leaves the same contents outside the log.
\<close>

theorem recovery_idempotent:
  assumes "zero_bufs r" "running p r" "recoverable st (disk r)" "sb_logstart sb = st"
  shows "\<exists>r'. initlog ROOTDEV sb (binit r) = Inr r' \<and> lh_n r' = 0 \<and>
    (\<forall>n. n \<notin> log_area st \<longrightarrow> disk r' n = recovered st (disk r) n) \<and>
    (\<forall>k r2 q. zero_bufs r2 \<longrightarrow> running q r2 \<longrightarrow>
       disk r2 = apply_writes (disk r) (take k (drop (length (dwrites r)) (dwrites r'))) \<longrightarrow>
       (\<exists>r2'. initlog ROOTDEV sb (binit (r2 :: 'b klog_scheme)) = Inr r2' \<and>
          (\<forall>n. n \<notin> log_area st \<longrightarrow> disk r2' n = disk r' n)))"
proof -
  obtain r' where r': "initlog ROOTDEV sb (binit r) = Inr r'" "lh_n r' = 0" "dwrites r' = dwrites r @ recover_writes st (disk r)"
    "\<forall>n. n \<notin> log_area st \<longrightarrow> disk r' n = recovered st (disk r) n"
    using boot_recovery [OF assms] by blast
  have "\<exists>r2'. initlog ROOTDEV sb (binit (r2 :: 'b klog_scheme)) = Inr r2' \<and> (\<forall>n. n \<notin> log_area st \<longrightarrow> disk r2' n = disk r' n)"
    if "zero_bufs r2" "running q r2" "disk r2 = apply_writes (disk r) (take k (drop (length (dwrites r)) (dwrites r')))" for k r2 q
  proof -
    have d: "disk r2 = apply_writes (disk r) (take k (recover_writes st (disk r)))" using that(3) r'(3) by simp
    from boot_recovery [OF that(1,2) recover_again(1) [OF assms(3) d] assms(4)] recover_again(2) [OF assms(3) d] r'(4)
    show ?thesis by fastforce
  qed
  with r' show ?thesis by blast
qed

theorem recovery_idempotent_witness:
  "\<exists>r' :: klog. initlog ROOTDEV \<lparr>sb_magic = 0, sb_size = 1000, sb_nblocks = 900, sb_ninodes = 200, sb_nlog = 30, sb_logstart = 2,
     sb_inodestart = 32, sb_bmapstart = 45\<rparr> (binit boot_log) = Inr r' \<and> lh_n r' = 0"
proof -
  have "recoverable 2 (disk boot_log)"
    using boot_log_fields(9,10) by (intro recoverable_empty) (simp_all add: log_room_def)
  from recovery_idempotent [OF boot_log_fields(1,2) this, where ?'b = unit and sb = "\<lparr>sb_magic = 0, sb_size = 1000,
     sb_nblocks = 900, sb_ninodes = 200, sb_nlog = 30, sb_logstart = 2, sb_inodestart = 32, sb_bmapstart = 45\<rparr>"]
  show ?thesis by auto
qed

text \<open>
  C16. Writes of one block within a transaction are absorbed: two rounds of \<open>bread\<close>, store,
  \<open>log_write\<close>, \<open>brelse\<close> on block \<open>n\<close> all succeed, log the block once, leave the disk untouched and the
  second contents visible. Nothing reaches the disk before the commit.
\<close>

theorem log_absorption:
  assumes "txn p st {} s" "n \<notin> log_area st" "log_ready s" "length d = BSIZE" "length e = BSIZE"
    "length (logged s) < LOGSIZE - 2"
  shows "\<exists>b s1 s2 s3 c s4 s5 s6. bread ROOTDEV n s = Inr (b, s1) \<and> log_write b (set_data b d s1) = Inr s2 \<and> brelse b s2 = Inr s3 \<and>
    bread ROOTDEV n s3 = Inr (c, s4) \<and> b_data (bufs s4 c) = d \<and> log_write c (set_data c e s4) = Inr s5 \<and> brelse c s5 = Inr s6 \<and>
    txn p st {} s6 \<and> ldisk s6 = (ldisk s)(n := e) \<and> disk s6 = disk s \<and> dwrites s6 = dwrites s \<and>
    logged s6 = (if n \<in> set (logged s) then logged s else logged s @ [n])"
proof -
  have r: "length (logged s) < LOGSIZE - 1" using assms(6) by simp
  obtain b s1 s2 s3 where a: "bread ROOTDEV n s = Inr (b, s1)" "log_write b (set_data b d s1) = Inr s2" "brelse b s2 = Inr s3"
    "txn p st {} s3" "log_frame s s3" "ldisk s3 = (ldisk s)(n := d)" "disk s3 = disk s" "dwrites s3 = dwrites s"
    "logged s3 = (if n \<in> set (logged s) then logged s else logged s @ [n])"
    using txn_update [OF assms(1,2,4,3) r] by (elim exE conjE) (rule that)
  have r3: "log_ready s3" "length (logged s3) < LOGSIZE - 1"
    using log_frameD(2,3) [OF a(5)] assms(3,6) a(9) by (auto simp: log_ready_def simp del: length_logged)
  have m: "n \<in> set (logged s3)" using a(9) by simp
  obtain c s4 s5 s6 where b: "bread ROOTDEV n s3 = Inr (c, s4)" "b_data (bufs s4 c) = ldisk s3 n" "log_write c (set_data c e s4) = Inr s5"
    "brelse c s5 = Inr s6" "txn p st {} s6" "log_frame s3 s6" "ldisk s6 = (ldisk s3)(n := e)" "disk s6 = disk s3" "dwrites s6 = dwrites s3"
    "logged s6 = (if n \<in> set (logged s3) then logged s3 else logged s3 @ [n])"
    using txn_update [OF a(4) assms(2,5) r3] by (elim exE conjE) (rule that)
  show ?thesis
    by (rule exI [of _ b], rule exI [of _ s1], rule exI [of _ s2], rule exI [of _ s3], rule exI [of _ c], rule exI [of _ s4],
        rule exI [of _ s5], rule exI [of _ s6]) (use a b m in simp)
qed

theorem log_absorption_witness:
  "\<exists>s6 :: klog. txn 0 2 {} s6 \<and> ldisk s6 = (ldisk (binit boot_log))(40 := replicate BSIZE 9) \<and> logged s6 = [40]"
proof -
  have "(40 :: u32) \<notin> log_area 2" by (simp add: log_area_def)
  from log_absorption [OF boot_txn(1) this boot_txn(3), of "replicate BSIZE 7" "replicate BSIZE 9"] boot_txn(2)
  show ?thesis by auto
qed



text \<open>
  C18. Recovery gives up a reference it never took. After \<open>initlog\<close> has installed a block \<open>n\<close> from the log, the
  buffer that holds the block has reference count \<open>2^32 - 1\<close>, though nobody references it: \<open>install_trans\<close>
  calls \<open>bunpin\<close> also during recovery, where nothing was pinned. The next \<open>bread\<close> of the block returns a buffer
  it holds locked with count 0, which \<open>bget\<close> takes for free.
\<close>

theorem recovery_refcnt_underflow:
  assumes "zero_bufs r" "running p r" "recoverable st (disk r)" "sb_logstart sb = st" "n \<in> set (head_blocks (disk r st))"
  shows "\<exists>r' b. initlog ROOTDEV sb (binit r) = Inr r' \<and> cached r' n = Some b \<and> b_refcnt (bufs r' b) = 2 ^ 32 - 1 \<and>
    (\<exists>r2. bread ROOTDEV n r' = Inr (b, r2) \<and> b_refcnt (bufs r2 b) = 0 \<and> sl_locked (sleeplocks r2 (BufSL b)) = 1)"
proof -
  note B = boot_brefs [OF assms(1,2)]
  obtain r' where r': "initlog ROOTDEV sb (binit r) = Inr r'" "brefs p {} (pins (- 1) (head_blocks (disk r st))) r'"
    using recovery_run [OF B(1,2) _ assms(4)] assms(3) B(3) by auto
  have pn: "pins (-1) (head_blocks (disk r st)) n = -1" using assms(5) by (simp add: pins_def)
  then obtain b where b: "cached r' n = Some b" using brefsD(5) [OF r'(2), of n] by auto
  then have "b < NBUF" "b_dev (bufs r' b) = ROOTDEV" "b_blockno (bufs r' b) = n" using cached_Some_iff [OF brefsD(6) [OF r'(2)]] by auto
  then have ref: "b_refcnt (bufs r' b) = -1" using brefsD(3) [OF r'(2)] pn by simp
  obtain r2 where r2: "bread ROOTDEV n r' = Inr (b, r2)" "read_post p n r' b r2" using bread_hit [OF brefsD(1) [OF r'(2)] b] by auto
  have "b_refcnt (bufs r2 b) = 0" "sl_locked (sleeplocks r2 (BufSL b)) = 1"
    using read_post_fields(8,10) [OF r2(2)] b ref by (simp_all add: new_ref_def lock_of_def)
  with r' b ref r2(1) show ?thesis by auto
qed

text \<open>A machine that crashed after the header write of a transaction with block 40.\<close>

definition crashed_log :: klog where
  "crashed_log = boot_log\<lparr>disk := (disk boot_bio)(2 := head_block [40] (replicate BSIZE 0), 3 := replicate BSIZE 7)\<rparr>"

theorem recovery_refcnt_underflow_witness:
  "\<exists>r' b. initlog ROOTDEV \<lparr>sb_magic = 0, sb_size = 1000, sb_nblocks = 900, sb_ninodes = 200, sb_nlog = 30, sb_logstart = 2,
     sb_inodestart = 32, sb_bmapstart = 45\<rparr> (binit crashed_log) = Inr r' \<and> cached r' 40 = Some b \<and> b_refcnt (bufs r' b) = 2 ^ 32 - 1"
proof -
  have z: "zero_bufs crashed_log" "running 0 crashed_log"
    using boot_log_fields(1,2) by (simp_all add: crashed_log_def zero_bufs_def running_def)
  have h: "disk crashed_log 2 = head_block [40] (replicate BSIZE 0)" by (simp add: crashed_log_def)
  have P: "length (head_block [40] (replicate BSIZE 0)) = BSIZE" "head_n (head_block [40] (replicate BSIZE 0)) = 1"
    "head_blocks (head_block [40] (replicate BSIZE 0)) = [40]"
    using head_block_parse [of "[40]" "replicate BSIZE 0"] by simp_all
  have "recoverable 2 (disk crashed_log)"
    unfolding recoverable_def h P using boot_log_fields(9) P(1) boot_log_fields(3)
    by (simp add: sized_def crashed_log_def blocks_ok_def log_room_def log_area_def)
  from recovery_refcnt_underflow [OF z this, where n = 40 and sb = "\<lparr>sb_magic = 0, sb_size = 1000,
     sb_nblocks = 900, sb_ninodes = 200, sb_nlog = 30, sb_logstart = 2, sb_inodestart = 32, sb_bmapstart = 45\<rparr>"] h P(3)
  show ?thesis by auto
qed

end
