(* ===== verification/Fs.thy ===== *)
theory Fs
  imports Log
begin

unbundle bit_operations_syntax

text \<open>
  The file system of kernel/fs.c: block allocation, the inode cache, the contents of inodes,
  directories and path names. The routines run inside a transaction of the log; what they promise
  is proved in the theories that import this one.
\<close>

abbreviation (input) FSMAGIC :: u32 where "FSMAGIC \<equiv> 0x10203040"
abbreviation (input) NDIRECT :: nat where "NDIRECT \<equiv> 12"
abbreviation (input) NINDIRECT :: nat where "NINDIRECT \<equiv> 256"
abbreviation (input) MAXFILE :: nat where "MAXFILE \<equiv> 268"
abbreviation (input) IPB :: nat where "IPB \<equiv> 16"
abbreviation (input) BPB :: nat where "BPB \<equiv> 8192"
abbreviation (input) DIRSIZ :: nat where "DIRSIZ \<equiv> 14"
abbreviation (input) ROOTINO :: u32 where "ROOTINO \<equiv> 1"
abbreviation (input) T_DIR :: u16 where "T_DIR \<equiv> 1"
abbreviation (input) T_FILE :: u16 where "T_FILE \<equiv> 2"
abbreviation (input) T_DEVICE :: u16 where "T_DEVICE \<equiv> 3"

section \<open>State\<close>

record inode =
  i_dev :: u32
  i_inum :: u32
  i_ref :: u32
  i_valid :: u32
  i_type :: u16
  i_major :: u16
  i_minor :: u16
  i_nlink :: u16
  i_size :: u32
  i_addrs :: "u32 list"

record kfs = klog +
  sb :: superblock
  inodes :: "nat \<Rightarrow> inode"

definition upd_inode :: "nat \<Rightarrow> (inode \<Rightarrow> inode) \<Rightarrow> 'a kfs_scheme \<Rightarrow> 'a kfs_scheme" where
  "upd_inode ip f s = s\<lparr>inodes := (inodes s)(ip := f (inodes s ip))\<rparr>"

definition IBLOCK :: "u32 \<Rightarrow> superblock \<Rightarrow> u32" where
  "IBLOCK i x = i div 16 + sb_inodestart x"

definition BBLOCK :: "u32 \<Rightarrow> superblock \<Rightarrow> u32" where
  "BBLOCK b x = b div 8192 + sb_bmapstart x"

section \<open>The super block\<close>

definition readsb :: "u32 \<Rightarrow> 'a kfs_scheme \<Rightarrow> 'a kfs_scheme result" where
  "readsb dev s =
     bnd (bread dev 1 s) (\<lambda>(bp, s).
     let d = b_data (bufs s bp);
         s = s\<lparr>sb := \<lparr>sb_magic = get_le 0 4 d, sb_size = get_le 4 4 d, sb_nblocks = get_le 8 4 d, sb_ninodes = get_le 12 4 d,
                   sb_nlog = get_le 16 4 d, sb_logstart = get_le 20 4 d, sb_inodestart = get_le 24 4 d,
                   sb_bmapstart = get_le 28 4 d\<rparr>\<rparr>
     in brelse bp s)"

definition fsinit :: "u32 \<Rightarrow> 'a kfs_scheme \<Rightarrow> 'a kfs_scheme result" where
  "fsinit dev s =
     bnd (readsb dev s) (\<lambda>s.
     if sb_magic (sb s) \<noteq> FSMAGIC then Inl (Panic ''invalid file system'')
     else initlog dev (sb s) s)"

section \<open>Blocks\<close>

definition bzero :: "u32 \<Rightarrow> u32 \<Rightarrow> 'a kfs_scheme \<Rightarrow> 'a kfs_scheme result" where
  "bzero dev bno s =
     bnd (bread dev bno s) (\<lambda>(bp, s).
     bnd (log_write bp (set_data bp (replicate BSIZE 0) s)) (\<lambda>s.
     brelse bp s))"

definition bit_set :: "block \<Rightarrow> nat \<Rightarrow> bool" where
  "bit_set d bi \<longleftrightarrow> d ! (bi div 8) AND push_bit (bi mod 8) 1 \<noteq> 0"

definition set_bit_at :: "nat \<Rightarrow> block \<Rightarrow> block" where
  "set_bit_at bi d = d[bi div 8 := d ! (bi div 8) OR push_bit (bi mod 8) 1]"

definition clear_bit_at :: "nat \<Rightarrow> block \<Rightarrow> block" where
  "clear_bit_at bi d = d[bi div 8 := d ! (bi div 8) AND NOT (push_bit (bi mod 8) 1)]"

text \<open>\<open>balloc\<close>: the outer loop visits the blocks of the bitmap, the inner one the bits of one.\<close>

definition balloc :: "u32 \<Rightarrow> 'a kfs_scheme \<Rightarrow> (u32 \<times> 'a kfs_scheme) result" where
  "balloc dev s =
     bnd (scan (\<lambda>k s.
       let b = k * BPB in
       bnd (bread dev (BBLOCK (of_nat b) (sb s)) s) (\<lambda>(bp, s).
       case first_idx (\<lambda>bi. \<not> bit_set (b_data (bufs s bp)) bi) 0 (min BPB (unat (sb_size (sb s)) - b)) of
         Some bi \<Rightarrow>
           bnd (log_write bp (set_data bp (set_bit_at bi (b_data (bufs s bp))) s)) (\<lambda>s.
           bnd (brelse bp s) (\<lambda>s.
           bnd (bzero dev (of_nat (b + bi)) s) (\<lambda>s.
           Inr (Some (of_nat (b + bi)), s))))
       | None \<Rightarrow> bnd (brelse bp s) (\<lambda>s. Inr (None, s))))
       [0..<(unat (sb_size (sb s)) + BPB - 1) div BPB] s) (\<lambda>(r, s).
     case r of Some b \<Rightarrow> Inr (b, s) | None \<Rightarrow> Inl (Panic ''balloc: out of blocks''))"

definition bfree :: "u32 \<Rightarrow> u32 \<Rightarrow> 'a kfs_scheme \<Rightarrow> 'a kfs_scheme result" where
  "bfree dev b s =
     bnd (bread dev (BBLOCK b (sb s)) s) (\<lambda>(bp, s).
     let bi = unat b mod BPB in
     if \<not> bit_set (b_data (bufs s bp)) bi then Inl (Panic ''freeing free block'')
     else bnd (log_write bp (set_data bp (clear_bit_at bi (b_data (bufs s bp))) s)) (\<lambda>s.
       brelse bp s))"

section \<open>Inodes\<close>

definition iinit :: "'a kfs_scheme \<Rightarrow> 'a kfs_scheme" where
  "iinit s = fold (\<lambda>i s. initsleeplock (InodeSL i) s) [0..<NINODE] s"

text \<open>An inode on the disk: 64 bytes, 16 of them in a block.\<close>

definition dinode_off :: "u32 \<Rightarrow> nat" where
  "dinode_off inum = 64 * (unat inum mod IPB)"

definition put_addrs :: "nat \<Rightarrow> u32 list \<Rightarrow> block \<Rightarrow> block" where
  "put_addrs off as d = put_bytes off (concat (map (le_bytes 4) as)) d"

definition put_dinode :: "inode \<Rightarrow> block \<Rightarrow> block" where
  "put_dinode ip d =
     (let o' = dinode_off (i_inum ip);
          d = put_le o' 2 (i_type ip) d;
          d = put_le (o' + 2) 2 (i_major ip) d;
          d = put_le (o' + 4) 2 (i_minor ip) d;
          d = put_le (o' + 6) 2 (i_nlink ip) d;
          d = put_le (o' + 8) 4 (i_size ip) d
      in put_addrs (o' + 12) (i_addrs ip) d)"

definition get_dinode :: "block \<Rightarrow> inode \<Rightarrow> inode" where
  "get_dinode d ip =
     (let o' = dinode_off (i_inum ip) in
      ip\<lparr>i_type := get_le o' 2 d, i_major := get_le (o' + 2) 2 d, i_minor := get_le (o' + 4) 2 d,
        i_nlink := get_le (o' + 6) 2 d, i_size := get_le (o' + 8) 4 d,
        i_addrs := map (\<lambda>i. get_le (o' + 12 + 4 * i) 4 d) [0..<NDIRECT + 1]\<rparr>)"

text \<open>\<open>iget\<close>: one pass over the cache finds the inode or remembers the first empty slot.\<close>

definition iget :: "u32 \<Rightarrow> u32 \<Rightarrow> 'a kfs_scheme \<Rightarrow> (nat \<times> 'a kfs_scheme) result" where
  "iget dev inum s =
     bnd (acquire LkIcache s) (\<lambda>s.
     case first_idx (\<lambda>i. sint (i_ref (inodes s i)) > 0 \<and> i_dev (inodes s i) = dev \<and> i_inum (inodes s i) = inum) 0 NINODE of
       Some ip \<Rightarrow>
         bnd (release LkIcache (upd_inode ip (\<lambda>x. x\<lparr>i_ref := i_ref x + 1\<rparr>) s)) (\<lambda>s. Inr (ip, s))
     | None \<Rightarrow>
         (case first_idx (\<lambda>i. i_ref (inodes s i) = 0) 0 NINODE of
            None \<Rightarrow> Inl (Panic ''iget: no inodes'')
          | Some ip \<Rightarrow>
              bnd (release LkIcache (upd_inode ip (\<lambda>x. x\<lparr>i_dev := dev, i_inum := inum, i_ref := 1, i_valid := 0\<rparr>) s)) (\<lambda>s.
              Inr (ip, s))))"

definition ialloc :: "u32 \<Rightarrow> u16 \<Rightarrow> 'a kfs_scheme \<Rightarrow> (nat \<times> 'a kfs_scheme) result" where
  "ialloc dev type s =
     bnd (scan (\<lambda>inum s.
       bnd (bread dev (IBLOCK (of_nat inum) (sb s)) s) (\<lambda>(bp, s).
       let d = b_data (bufs s bp); off = dinode_off (of_nat inum) in
       if get_le off 2 d = (0 :: u16) then
         bnd (log_write bp (set_data bp (put_le off 2 type (put_bytes off (replicate 64 0) d)) s)) (\<lambda>s.
         bnd (brelse bp s) (\<lambda>s.
         bnd (iget dev (of_nat inum) s) (\<lambda>(ip, s).
         Inr (Some ip, s))))
       else bnd (brelse bp s) (\<lambda>s. Inr (None, s)))) [1..<unat (sb_ninodes (sb s))] s) (\<lambda>(r, s).
     case r of Some ip \<Rightarrow> Inr (ip, s) | None \<Rightarrow> Inl (Panic ''ialloc: no inodes''))"

definition iupdate :: "nat \<Rightarrow> 'a kfs_scheme \<Rightarrow> 'a kfs_scheme result" where
  "iupdate ip s =
     bnd (bread (i_dev (inodes s ip)) (IBLOCK (i_inum (inodes s ip)) (sb s)) s) (\<lambda>(bp, s).
     bnd (log_write bp (set_data bp (put_dinode (inodes s ip) (b_data (bufs s bp))) s)) (\<lambda>s.
     brelse bp s))"

definition idup :: "nat \<Rightarrow> 'a kfs_scheme \<Rightarrow> (nat \<times> 'a kfs_scheme) result" where
  "idup ip s =
     bnd (acquire LkIcache s) (\<lambda>s.
     bnd (release LkIcache (upd_inode ip (\<lambda>x. x\<lparr>i_ref := i_ref x + 1\<rparr>) s)) (\<lambda>s.
     Inr (ip, s)))"

definition ilock :: "nat \<Rightarrow> 'a kfs_scheme \<Rightarrow> 'a kfs_scheme result" where
  "ilock ip s =
     (if sint (i_ref (inodes s ip)) < 1 then Inl (Panic ''ilock'')
      else bnd (acquiresleep (InodeSL ip) s) (\<lambda>s.
        if i_valid (inodes s ip) = 0 then
          bnd (bread (i_dev (inodes s ip)) (IBLOCK (i_inum (inodes s ip)) (sb s)) s) (\<lambda>(bp, s).
          let s = upd_inode ip (get_dinode (b_data (bufs s bp))) s in
          bnd (brelse bp s) (\<lambda>s.
          let s = upd_inode ip (\<lambda>x. x\<lparr>i_valid := 1\<rparr>) s in
          if i_type (inodes s ip) = 0 then Inl (Panic ''ilock: no type'') else Inr s))
        else Inr s))"

definition iunlock :: "nat \<Rightarrow> 'a kfs_scheme \<Rightarrow> 'a kfs_scheme result" where
  "iunlock ip s =
     bnd (holdingsleep (InodeSL ip) s) (\<lambda>(r, s).
     if \<not> r \<or> sint (i_ref (inodes s ip)) < 1 then Inl (Panic ''iunlock'')
     else releasesleep (InodeSL ip) s)"

text \<open>\<open>itrunc\<close>: the direct blocks, then those of the indirect block and the block itself.\<close>

definition itrunc :: "nat \<Rightarrow> 'a kfs_scheme \<Rightarrow> 'a kfs_scheme result" where
  "itrunc ip s =
     bnd (loop (\<lambda>i s.
       if i_addrs (inodes s ip) ! i \<noteq> 0 then
         bnd (bfree (i_dev (inodes s ip)) (i_addrs (inodes s ip) ! i) s) (\<lambda>s.
         Inr (upd_inode ip (\<lambda>x. x\<lparr>i_addrs := (i_addrs x)[i := 0]\<rparr>) s))
       else Inr s) [0..<NDIRECT] s) (\<lambda>s.
     bnd (if i_addrs (inodes s ip) ! NDIRECT \<noteq> 0 then
            bnd (bread (i_dev (inodes s ip)) (i_addrs (inodes s ip) ! NDIRECT) s) (\<lambda>(bp, s).
            bnd (loop (\<lambda>j s.
              let a = get_le (4 * j) 4 (b_data (bufs s bp)) :: u32 in
              if a \<noteq> 0 then bfree (i_dev (inodes s ip)) a s else Inr s) [0..<NINDIRECT] s) (\<lambda>s.
            bnd (brelse bp s) (\<lambda>s.
            bnd (bfree (i_dev (inodes s ip)) (i_addrs (inodes s ip) ! NDIRECT) s) (\<lambda>s.
            Inr (upd_inode ip (\<lambda>x. x\<lparr>i_addrs := (i_addrs x)[NDIRECT := 0]\<rparr>) s)))))
          else Inr s) (\<lambda>s.
     iupdate ip (upd_inode ip (\<lambda>x. x\<lparr>i_size := 0\<rparr>) s)))"

definition iput :: "nat \<Rightarrow> 'a kfs_scheme \<Rightarrow> 'a kfs_scheme result" where
  "iput ip s =
     bnd (acquire LkIcache s) (\<lambda>s.
     bnd (if i_ref (inodes s ip) = 1 \<and> i_valid (inodes s ip) \<noteq> 0 \<and> i_nlink (inodes s ip) = 0 then
            bnd (acquiresleep (InodeSL ip) s) (\<lambda>s.
            bnd (release LkIcache s) (\<lambda>s.
            bnd (itrunc ip s) (\<lambda>s.
            bnd (iupdate ip (upd_inode ip (\<lambda>x. x\<lparr>i_type := 0\<rparr>) s)) (\<lambda>s.
            bnd (releasesleep (InodeSL ip) (upd_inode ip (\<lambda>x. x\<lparr>i_valid := 0\<rparr>) s)) (\<lambda>s.
            acquire LkIcache s)))))
          else Inr s) (\<lambda>s.
     release LkIcache (upd_inode ip (\<lambda>x. x\<lparr>i_ref := i_ref x - 1\<rparr>) s)))"

definition iunlockput :: "nat \<Rightarrow> 'a kfs_scheme \<Rightarrow> 'a kfs_scheme result" where
  "iunlockput ip s = bnd (iunlock ip s) (\<lambda>s. iput ip s)"

section \<open>Contents\<close>

definition bmap :: "nat \<Rightarrow> u32 \<Rightarrow> 'a kfs_scheme \<Rightarrow> (u32 \<times> 'a kfs_scheme) result" where
  "bmap ip bn s =
     (if unat bn < NDIRECT then
        let addr = i_addrs (inodes s ip) ! unat bn in
        if addr = 0 then
          bnd (balloc (i_dev (inodes s ip)) s) (\<lambda>(addr, s).
          Inr (addr, upd_inode ip (\<lambda>x. x\<lparr>i_addrs := (i_addrs x)[unat bn := addr]\<rparr>) s))
        else Inr (addr, s)
      else
        let bn = unat bn - NDIRECT in
        if bn < NINDIRECT then
          let addr = i_addrs (inodes s ip) ! NDIRECT in
          bnd (if addr = 0 then
                 bnd (balloc (i_dev (inodes s ip)) s) (\<lambda>(addr, s).
                 Inr (addr, upd_inode ip (\<lambda>x. x\<lparr>i_addrs := (i_addrs x)[NDIRECT := addr]\<rparr>) s))
               else Inr (addr, s)) (\<lambda>(addr, s).
          bnd (bread (i_dev (inodes s ip)) addr s) (\<lambda>(bp, s).
          let addr = get_le (4 * bn) 4 (b_data (bufs s bp)) in
          bnd (if addr = 0 then
                 bnd (balloc (i_dev (inodes s ip)) s) (\<lambda>(addr, s).
                 bnd (log_write bp (set_data bp (put_le (4 * bn) 4 addr (b_data (bufs s bp))) s)) (\<lambda>s.
                 Inr (addr, s)))
               else Inr (addr, s)) (\<lambda>(addr, s).
          bnd (brelse bp s) (\<lambda>s.
          Inr (addr, s)))))
        else Inl (Panic ''bmap: out of range''))"

record stat =
  st_dev :: u32
  st_ino :: u32
  st_type :: u16
  st_nlink :: u16
  st_size :: u64

definition stati :: "nat \<Rightarrow> 'a kfs_scheme \<Rightarrow> stat" where
  "stati ip s = (let x = inodes s ip in
     \<lparr>st_dev = i_dev x, st_ino = i_inum x, st_type = i_type x, st_nlink = i_nlink x, st_size = ucast (i_size x)\<rparr>)"

text \<open>
  Where \<open>readi\<close> puts bytes and \<open>writei\<close> takes them from: a user address, an address in RAM, or a
  variable of the calling kernel routine, whose bytes the model passes along.
\<close>

datatype place = User u64 | Ram u64 | Local "u8 list"

definition put_to :: "place \<Rightarrow> u8 list \<Rightarrow> 'a kproc_scheme \<Rightarrow> (int \<times> place \<times> 'a kproc_scheme) result" where
  "put_to dst data s = (case dst of
     User a \<Rightarrow> bnd (either_copyout True a data s) (\<lambda>(r, s). Inr (r, User (a + of_nat (length data)), s))
   | Ram a \<Rightarrow> bnd (either_copyout False a data s) (\<lambda>(r, s). Inr (r, Ram (a + of_nat (length data)), s))
   | Local xs \<Rightarrow> Inr (0, Local (xs @ data), s))"

definition get_from :: "place \<Rightarrow> nat \<Rightarrow> 'a kproc_scheme \<Rightarrow> (int \<times> u8 list \<times> place) result" where
  "get_from src n s = (case src of
     User a \<Rightarrow> bnd (either_copyin True a n s) (\<lambda>(r, data). Inr (r, data, User (a + of_nat n)))
   | Ram a \<Rightarrow> bnd (either_copyin False a n s) (\<lambda>(r, data). Inr (r, data, Ram (a + of_nat n)))
   | Local xs \<Rightarrow> Inr (0, take n xs, Local (drop n xs)))"

text \<open>The loop of \<open>readi\<close>; \<open>k\<close> is \<open>n - tot\<close>, the number of bytes still to copy.\<close>

function readi_from :: "nat \<Rightarrow> place \<Rightarrow> u32 \<Rightarrow> nat \<Rightarrow> 'a kfs_scheme \<Rightarrow> (place \<times> 'a kfs_scheme) result" where
  "readi_from ip dst off k s =
     (if k = 0 then Inr (dst, s)
      else bnd (bmap ip (off div 1024) s) (\<lambda>(addr, s).
        bnd (bread (i_dev (inodes s ip)) addr s) (\<lambda>(bp, s).
        let m = min k (BSIZE - unat off mod BSIZE) in
        bnd (put_to dst (get_bytes (unat off mod BSIZE) m (b_data (bufs s bp))) s) (\<lambda>(r, dst', s).
        if r = -1 then bnd (brelse bp s) (\<lambda>s. Inr (dst, s))
        else bnd (brelse bp s) (\<lambda>s.
          readi_from ip dst' (off + of_nat m) (k - m) s)))))"
  by pat_completeness auto
termination
  by (relation "measure (\<lambda>(_, _, _, k, _). k)") auto

declare readi_from.simps [simp del]

definition readi :: "nat \<Rightarrow> place \<Rightarrow> u32 \<Rightarrow> u32 \<Rightarrow> 'a kfs_scheme \<Rightarrow> (u32 \<times> place \<times> 'a kfs_scheme) result" where
  "readi ip dst off n s =
     (if off > i_size (inodes s ip) \<or> off + n < off then Inr (-1, dst, s)
      else let n = (if off + n > i_size (inodes s ip) then i_size (inodes s ip) - off else n) in
        bnd (readi_from ip dst off (unat n) s) (\<lambda>(dst, s). Inr (n, dst, s)))"

text \<open>
  The loop of \<open>writei\<close>, which also returns how far it got. When the copy from the source fails, the
  bytes copied until then are already in the buffer.
\<close>

function writei_from :: "nat \<Rightarrow> place \<Rightarrow> u32 \<Rightarrow> nat \<Rightarrow> 'a kfs_scheme \<Rightarrow> (u32 \<times> 'a kfs_scheme) result" where
  "writei_from ip src off k s =
     (if k = 0 then Inr (off, s)
      else bnd (bmap ip (off div 1024) s) (\<lambda>(addr, s).
        bnd (bread (i_dev (inodes s ip)) addr s) (\<lambda>(bp, s).
        let m = min k (BSIZE - unat off mod BSIZE) in
        bnd (get_from src m s) (\<lambda>(r, data, src').
        let s = set_data bp (put_bytes (unat off mod BSIZE) data (b_data (bufs s bp))) s in
        if r = -1 then bnd (brelse bp s) (\<lambda>s. Inr (off, s))
        else bnd (log_write bp s) (\<lambda>s.
          bnd (brelse bp s) (\<lambda>s.
          writei_from ip src' (off + of_nat m) (k - m) s))))))"
  by pat_completeness auto
termination
  by (relation "measure (\<lambda>(_, _, _, k, _). k)") auto

declare writei_from.simps [simp del]

definition writei :: "nat \<Rightarrow> place \<Rightarrow> u32 \<Rightarrow> u32 \<Rightarrow> 'a kfs_scheme \<Rightarrow> (u32 \<times> 'a kfs_scheme) result" where
  "writei ip src off n s =
     (if off > i_size (inodes s ip) \<or> off + n < off then Inr (-1, s)
      else if unat (off + n) > MAXFILE * BSIZE then Inr (-1, s)
      else bnd (writei_from ip src off (unat n) s) (\<lambda>(off, s).
        bnd (if n > 0 then
               let s = (if off > i_size (inodes s ip) then upd_inode ip (\<lambda>x. x\<lparr>i_size := off\<rparr>) s else s)
               in iupdate ip s
             else Inr s) (\<lambda>s.
        Inr (n, s))))"

section \<open>Directories\<close>

definition namecmp :: "cptr \<Rightarrow> cptr \<Rightarrow> int" where
  "namecmp s t = strncmp s t DIRSIZ"

text \<open>A directory entry: a 2-byte inode number and a name of 14 bytes.\<close>

definition de_inum :: "u8 list \<Rightarrow> u16" where
  "de_inum de = get_le 0 2 de"

definition de_name :: "u8 list \<Rightarrow> u8 list" where
  "de_name de = get_bytes 2 DIRSIZ de"

definition read_de :: "string \<Rightarrow> nat \<Rightarrow> u32 \<Rightarrow> 'a kfs_scheme \<Rightarrow> (u8 list \<times> 'a kfs_scheme) result" where
  "read_de msg dp off s =
     bnd (readi dp (Local []) off 16 s) (\<lambda>(n, dst, s).
     if n \<noteq> 16 then Inl (Panic msg)
     else case dst of Local de \<Rightarrow> Inr (de, s) | _ \<Rightarrow> Inl (Panic msg))"

definition dir_slots :: "inode \<Rightarrow> nat" where
  "dir_slots dp = (unat (i_size dp) + 15) div 16"

definition dirlookup :: "nat \<Rightarrow> u8 list \<Rightarrow> 'a kfs_scheme \<Rightarrow> ((nat \<times> u32) option \<times> 'a kfs_scheme) result" where
  "dirlookup dp name s =
     (if i_type (inodes s dp) \<noteq> T_DIR then Inl (Panic ''dirlookup not DIR'')
      else scan (\<lambda>k s.
        bnd (read_de ''dirlookup read'' dp (of_nat (16 * k)) s) (\<lambda>(de, s).
        if de_inum de = 0 then Inr (None, s)
        else if namecmp (at_buf name) (at_buf (de_name de)) = 0 then
          bnd (iget (i_dev (inodes s dp)) (ucast (de_inum de)) s) (\<lambda>(ip, s).
          Inr (Some (ip, of_nat (16 * k)), s))
        else Inr (None, s))) [0..<dir_slots (inodes s dp)] s)"

definition dirlink :: "nat \<Rightarrow> u8 list \<Rightarrow> u32 \<Rightarrow> 'a kfs_scheme \<Rightarrow> (int \<times> 'a kfs_scheme) result" where
  "dirlink dp name inum s =
     bnd (dirlookup dp name s) (\<lambda>(r, s).
     case r of
       Some (ip, _) \<Rightarrow> bnd (iput ip s) (\<lambda>s. Inr (-1, s))
     | None \<Rightarrow>
         bnd (scan (\<lambda>k s.
           bnd (read_de ''dirlink read'' dp (of_nat (16 * k)) s) (\<lambda>(de, s).
           if de_inum de = 0 then Inr (Some (of_nat (16 * k)), s) else Inr (None, s)))
           [0..<dir_slots (inodes s dp)] s) (\<lambda>(r, s).
         let off = (case r of Some off \<Rightarrow> off | None \<Rightarrow> of_nat (16 * dir_slots (inodes s dp)));
             de = le_bytes 2 (ucast inum :: u16) @ map (strncpy (\<lambda>_. 0) (at_buf name) DIRSIZ) [0..<DIRSIZ]
         in bnd (writei dp (Local de) off 16 s) (\<lambda>(n, s).
            if n \<noteq> 16 then Inl (Panic ''dirlink'') else Inr (0, s))))"

section \<open>Paths\<close>

text \<open>
  A path is the list of its bytes before the NUL, \<open>name\<close> the 14 bytes of the caller's buffer. Bytes 47
  are slashes.
\<close>

definition skipelem :: "u8 list \<Rightarrow> u8 list \<Rightarrow> (u8 list \<times> u8 list) option" where
  "skipelem path name =
     (let path = dropWhile (\<lambda>c. c = 47) path in
      if path = [] then None
      else
        let s = takeWhile (\<lambda>c. c \<noteq> 47) path;
            len = length s;
            name = (if len \<ge> DIRSIZ then put_bytes 0 (take DIRSIZ s) name
                    else (put_bytes 0 s name)[len := 0]);
            path = dropWhile (\<lambda>c. c \<noteq> 47) path
        in Some (dropWhile (\<lambda>c. c = 47) path, name))"

lemma skipelem_shorter: "skipelem path name = Some (rest, name') \<Longrightarrow> length rest < length path"
proof -
  assume a: "skipelem path name = Some (rest, name')"
  let ?p = "dropWhile (\<lambda>c. c = 47) path"
  from a have p: "?p \<noteq> []" "rest = dropWhile (\<lambda>c. c = 47) (dropWhile (\<lambda>c. c \<noteq> 47) ?p)"
    by (auto simp: skipelem_def Let_def split: if_splits)
  from hd_dropWhile [OF p(1)] have "hd ?p \<noteq> 47" .
  with p(1) have "length (dropWhile (\<lambda>c. c \<noteq> 47) ?p) < length ?p"
    by (cases ?p) (simp_all add: le_imp_less_Suc length_dropWhile_le)
  with p(2) show ?thesis
    using length_dropWhile_le [of "\<lambda>c. c = 47" path] length_dropWhile_le [of "\<lambda>c. c = 47" "dropWhile (\<lambda>c. c \<noteq> 47) ?p"] by simp
qed

function namex_from :: "nat \<Rightarrow> u8 list \<Rightarrow> bool \<Rightarrow> u8 list \<Rightarrow> 'a kfs_scheme \<Rightarrow> (nat option \<times> u8 list \<times> 'a kfs_scheme) result" where
  "namex_from ip path parent name s =
     (case skipelem path name of
        Some (path, name) \<Rightarrow>
          bnd (ilock ip s) (\<lambda>s.
          if i_type (inodes s ip) \<noteq> T_DIR then bnd (iunlockput ip s) (\<lambda>s. Inr (None, name, s))
          else if parent \<and> path = [] then bnd (iunlock ip s) (\<lambda>s. Inr (Some ip, name, s))
          else bnd (dirlookup ip name s) (\<lambda>(r, s).
            case r of
              None \<Rightarrow> bnd (iunlockput ip s) (\<lambda>s. Inr (None, name, s))
            | Some (nxt, _) \<Rightarrow>
                bnd (iunlockput ip s) (\<lambda>s. namex_from nxt path parent name s)))
      | None \<Rightarrow>
          if parent then bnd (iput ip s) (\<lambda>s. Inr (None, name, s)) else Inr (Some ip, name, s))"
  by pat_completeness auto
termination
  by (relation "measure (\<lambda>(_, path, _). length path)") (auto dest: skipelem_shorter)

declare namex_from.simps [simp del]

definition namex :: "u8 list \<Rightarrow> bool \<Rightarrow> u8 list \<Rightarrow> 'a kfs_scheme \<Rightarrow> (nat option \<times> u8 list \<times> 'a kfs_scheme) result" where
  "namex path parent name s =
     (if path \<noteq> [] \<and> hd path = 47
      then bnd (iget ROOTDEV ROOTINO s) (\<lambda>(ip, s). namex_from ip path parent name s)
      else bnd (myproc s) (\<lambda>p.
        case p_cwd (procs s p) of
          None \<Rightarrow> Inl (Panic ''kerneltrap'')
        | Some cwd \<Rightarrow> bnd (idup cwd s) (\<lambda>(ip, s). namex_from ip path parent name s)))"

definition namei :: "u8 list \<Rightarrow> 'a kfs_scheme \<Rightarrow> (nat option \<times> 'a kfs_scheme) result" where
  "namei path s = bnd (namex path False (replicate DIRSIZ 0) s) (\<lambda>(r, _, s). Inr (r, s))"

definition nameiparent :: "u8 list \<Rightarrow> u8 list \<Rightarrow> 'a kfs_scheme \<Rightarrow> (nat option \<times> u8 list \<times> 'a kfs_scheme) result" where
  "nameiparent path name s = namex path True name s"

end
