(* ===== verification/Blocks.thy ===== *)
theory Blocks
  imports Crash Fs
begin

unbundle bit_operations_syntax

text \<open>
  The block allocator of kernel/fs.c inside a transaction. The logical disk \<open>ldisk\<close> is what every
  reader of a block sees; on it the bitmap is a set of used blocks, \<open>balloc\<close> takes the least block
  that is not in the set and zeroes it, \<open>bfree\<close> takes a block out of the set, and nothing else of
  the disk changes.
\<close>

section \<open>Frames of the file system's state\<close>

lemma klog_more_fs:
  "klog.more s' = klog.more s \<Longrightarrow> sb s' = sb s \<and> inodes s' = inodes s \<and> kfs.more s' = kfs.more s"
  by (cases s, cases s') simp

lemma log_frame_fs:
  assumes "log_frame s s'"
  shows "sb s' = sb s" "inodes s' = inodes s" "kfs.more s' = kfs.more s"
  using klog_more_fs [OF log_frameD(6) [OF assms]] by simp_all

lemma quiet_fs:
  assumes "quiet s s'"
  shows "sb s' = sb s" "inodes s' = inodes s" "kfs.more s' = kfs.more s"
  using log_frame_fs [OF quiet_log_frame [OF assms]] by simp_all

text \<open>The inode table is no part of the cache and of the log.\<close>

lemma brefs_inodes [simp]: "brefs p H pin (s\<lparr>inodes := x\<rparr>) = brefs p H pin s"
  by (simp add: brefs_def cache_ok_def bio_inv_def cached_def running_def lock_of_def)

lemma ldisk_inodes [simp]: "ldisk (s\<lparr>inodes := x\<rparr>) = ldisk s"
  by (rule ldisk_cong; simp)

lemma ftx_inodes [simp]: "ftx p st H (s\<lparr>inodes := x\<rparr>) = ftx p st H s"
  by (simp add: ftx_def txn_def log_ready_def logged_def log_at_def)

section \<open>The bitmap\<close>

lemma bit_set_iff: "bit_set d i \<longleftrightarrow> bit (d ! (i div 8)) (i mod 8)"
  by (simp add: bit_set_def push_bit_of_1 and_exp_eq_0_iff_not_bit)

lemma length_bit_at [simp]: "length (set_bit_at i d) = length d" "length (clear_bit_at i d) = length d"
  by (simp_all add: set_bit_at_def clear_bit_at_def)

lemma div8_mod8: "i div 8 = j div 8 \<Longrightarrow> i mod 8 = j mod 8 \<Longrightarrow> i = (j :: nat)"
  by (metis div_mult_mod_eq)

lemma bit_set_set:
  "length d = BSIZE \<Longrightarrow> i < BPB \<Longrightarrow> j < BPB \<Longrightarrow> bit_set (set_bit_at i d) j \<longleftrightarrow> bit_set d j \<or> j = i"
  using div8_mod8 [of i j] by (auto simp: bit_set_iff set_bit_at_def nth_list_update bit_simps)

lemma bit_set_clear:
  "length d = BSIZE \<Longrightarrow> i < BPB \<Longrightarrow> j < BPB \<Longrightarrow> bit_set (clear_bit_at i d) j \<longleftrightarrow> bit_set d j \<and> j \<noteq> i"
  using div8_mod8 [of i j] by (auto simp: bit_set_iff clear_bit_at_def nth_list_update bit_simps)

definition used :: "(u32 \<Rightarrow> block) \<Rightarrow> superblock \<Rightarrow> u32 \<Rightarrow> bool" where
  "used d x b \<longleftrightarrow> bit_set (d (BBLOCK b x)) (unat b mod BPB)"

text \<open>
  The layout of the disk that mkfs makes: log, inodes, bitmap, data. The bitmap is one block, since
  the disk has at most 8192 blocks, and every block before the data is marked used.
\<close>

definition layout :: "u32 \<Rightarrow> superblock \<Rightarrow> bool" where
  "layout st x \<longleftrightarrow> 2 \<le> unat st \<and> unat st + LOGSIZE \<le> unat (sb_inodestart x) \<and>
     unat (sb_inodestart x) + unat (sb_ninodes x) div IPB < unat (sb_bmapstart x) \<and>
     unat (sb_bmapstart x) < unat (sb_size x) \<and> unat (sb_size x) \<le> BPB"

definition data_block :: "superblock \<Rightarrow> u32 \<Rightarrow> bool" where
  "data_block x b \<longleftrightarrow> unat (sb_bmapstart x) < unat b \<and> unat b < unat (sb_size x)"

definition meta_used :: "(u32 \<Rightarrow> block) \<Rightarrow> superblock \<Rightarrow> bool" where
  "meta_used d x \<longleftrightarrow> (\<forall>b. unat b \<le> unat (sb_bmapstart x) \<longrightarrow> used d x b)"

lemma layoutD:
  assumes "layout st x"
  shows "unat (sb_size x) \<le> BPB" "data_block x b \<Longrightarrow> b \<notin> log_area st" "sb_bmapstart x \<notin> log_area st"
    "data_block x b \<Longrightarrow> b \<noteq> sb_bmapstart x" "data_block x b \<Longrightarrow> b \<noteq> 0" "data_block x b \<Longrightarrow> unat b < BPB"
    "sb_bmapstart x \<noteq> 0"
  using assms by (auto simp: layout_def data_block_def log_area_def)

lemma BBLOCK_small: "unat b < BPB \<Longrightarrow> BBLOCK b x = sb_bmapstart x"
proof -
  assume "unat b < BPB"
  then have "b div 8192 = 0" by (simp add: word_unat_eq_iff unat_div)
  then show ?thesis by (simp add: BBLOCK_def)
qed

lemma used_small: "unat b < BPB \<Longrightarrow> used d x b \<longleftrightarrow> bit_set (d (sb_bmapstart x)) (unat b)"
  by (simp add: used_def BBLOCK_small)

lemma used_upd:
  "length (d (sb_bmapstart x)) = BSIZE \<Longrightarrow> unat b < BPB \<Longrightarrow> unat c < BPB \<Longrightarrow>
     used (d(sb_bmapstart x := set_bit_at (unat b) (d (sb_bmapstart x)))) x c \<longleftrightarrow> used d x c \<or> c = b"
  "length (d (sb_bmapstart x)) = BSIZE \<Longrightarrow> unat b < BPB \<Longrightarrow> unat c < BPB \<Longrightarrow>
     used (d(sb_bmapstart x := clear_bit_at (unat b) (d (sb_bmapstart x)))) x c \<longleftrightarrow> used d x c \<and> c \<noteq> b"
  by (simp_all add: used_small bit_set_set bit_set_clear word_unat_eq_iff)

lemma used_cong: "d' (sb_bmapstart x) = d (sb_bmapstart x) \<Longrightarrow> unat b < BPB \<Longrightarrow> used d' x b = used d x b"
  by (simp add: used_small)

text \<open>A block that is not used is a data block.\<close>

lemma unused_data: "layout st x \<Longrightarrow> meta_used d x \<Longrightarrow> \<not> used d x b \<Longrightarrow> unat b < unat (sb_size x) \<Longrightarrow> data_block x b"
  by (auto simp: meta_used_def data_block_def not_le [symmetric])

section \<open>Zeroing, freeing, allocating\<close>

text \<open>What all three change: blocks of the logical disk, and the log's list.\<close>

definition fs_step :: "nat \<Rightarrow> u32 \<Rightarrow> nat set \<Rightarrow> 'a kfs_scheme \<Rightarrow> 'a kfs_scheme \<Rightarrow> bool" where
  "fs_step p st H s s' \<longleftrightarrow> ftx p st H s' \<and> log_frame s s' \<and> held_same H s s' \<and> disk s' = disk s \<and> dwrites s' = dwrites s"

lemma fs_stepD:
  assumes "fs_step p st H s s'"
  shows "ftx p st H s'" "log_frame s s'" "held_same H s s'" "disk s' = disk s" "dwrites s' = dwrites s"
    "sb s' = sb s" "inodes s' = inodes s"
  using assms log_frame_fs [of s s'] by (simp_all add: fs_step_def)

lemma fs_step_refl: "ftx p st H s \<Longrightarrow> fs_step p st H s s"
  by (simp add: fs_step_def held_same_def)

lemma fs_step_trans: "fs_step p st H s t \<Longrightarrow> fs_step p st H t u \<Longrightarrow> fs_step p st H s u"
  by (auto simp: fs_step_def intro: log_frame_trans held_same_trans)

lemma bzero_spec:
  assumes t: "ftx p st H s" and n: "\<And>b. b \<in> H \<Longrightarrow> b_blockno (bufs s b) \<noteq> n" "n \<notin> log_area st"
    and room: "length (logged s) < LOGSIZE - 1" "card H \<le> 1"
  shows "\<exists>s'. bzero ROOTDEV n s = Inr s' \<and> fs_step p st H s s' \<and> ldisk s' = (ldisk s)(n := replicate BSIZE 0) \<and>
    logged s' = logs n (logged s)"
proof -
  obtain b s1 s2 s' where *: "bread ROOTDEV n s = Inr (b, s1)" "log_write b (set_data b (replicate BSIZE 0) s1) = Inr s2" "brelse b s2 = Inr s'"
    "ftx p st H s'" "log_frame s s'" "held_same H s s'" "ldisk s' = (ldisk s)(n := replicate BSIZE 0)" "disk s' = disk s"
    "dwrites s' = dwrites s" "logged s' = logs n (logged s)"
    using ftx_modify [OF t n, of "replicate BSIZE 0"] room by auto
  then show ?thesis by (simp add: bzero_def fs_step_def)
qed

lemma bfree_spec:
  assumes t: "ftx p st H s" and l: "layout st (sb s)" and b: "unat b < BPB" "used (ldisk s) (sb s) b"
    and n: "\<And>b. b \<in> H \<Longrightarrow> b_blockno (bufs s b) \<noteq> sb_bmapstart (sb s)"
    and room: "length (logged s) < LOGSIZE - 1" "card H \<le> 1"
  shows "\<exists>s'. bfree ROOTDEV b s = Inr s' \<and> fs_step p st H s s' \<and> logged s' = logs (sb_bmapstart (sb s)) (logged s) \<and>
    ldisk s' = (ldisk s)(sb_bmapstart (sb s) := clear_bit_at (unat b) (ldisk s (sb_bmapstart (sb s))))"
proof -
  let ?n = "sb_bmapstart (sb s)" let ?d = "clear_bit_at (unat b) (ldisk s ?n)"
  obtain c s1 s2 s' where *: "bread ROOTDEV ?n s = Inr (c, s1)" "b_data (bufs s1 c) = ldisk s ?n" "quiet s s1"
    "log_write c (set_data c ?d s1) = Inr s2" "brelse c s2 = Inr s'"
    "ftx p st H s'" "log_frame s s'" "held_same H s s'" "ldisk s' = (ldisk s)(?n := ?d)" "disk s' = disk s"
    "dwrites s' = dwrites s" "logged s' = logs ?n (logged s)"
    using ftx_modify [OF t n layoutD(3) [OF l], of ?d] ftxD(4) [OF t] room by auto
  then show ?thesis using b by (simp add: bfree_def fs_step_def BBLOCK_small used_small)
qed

text \<open>With one block of bitmap the outer loop of \<open>balloc\<close> runs once.\<close>

lemma balloc_loop:
  assumes "layout st x"
  shows "[0..<(unat (sb_size x) + BPB - 1) div BPB] = [0]"
proof -
  have "(unat (sb_size x) + BPB - 1) div BPB = 1"
    using assms by (intro div_nat_eqI) (auto simp: layout_def)
  then show ?thesis by simp
qed

text \<open>The least block of the disk that is not used.\<close>

definition first_free :: "(u32 \<Rightarrow> block) \<Rightarrow> superblock \<Rightarrow> u32 option" where
  "first_free d x = map_option of_nat (first_idx (\<lambda>i. \<not> used d x (of_nat i)) 0 (unat (sb_size x)))"

lemma unat_small: "i < BPB \<Longrightarrow> unat (of_nat i :: u32) = i"
  by (simp add: unsigned_of_nat take_bit_nat_eq_self)

lemma first_idx_cong:
  "(\<And>k. i \<le> k \<Longrightarrow> k < i + n \<Longrightarrow> P k = Q k) \<Longrightarrow> first_idx P i n = first_idx Q i n"
  by (induction n arbitrary: i) auto

lemma first_free_bits:
  assumes "layout st x"
  shows "first_free d x = map_option of_nat (first_idx (\<lambda>bi. \<not> bit_set (d (sb_bmapstart x)) bi) 0 (unat (sb_size x)))"
proof -
  have "first_idx (\<lambda>i. \<not> used d x (of_nat i)) 0 (unat (sb_size x)) = first_idx (\<lambda>bi. \<not> bit_set (d (sb_bmapstart x)) bi) 0 (unat (sb_size x))"
    using layoutD(1) [OF assms] by (intro first_idx_cong) (simp add: used_small unat_small)
  then show ?thesis by (simp add: first_free_def)
qed

lemma first_free_SomeD:
  assumes "layout st x" "first_free d x = Some b"
  shows "unat b < unat (sb_size x)" "\<not> used d x b" "unat c < unat b \<Longrightarrow> used d x c"
proof -
  from assms(2) obtain i where i: "first_idx (\<lambda>i. \<not> used d x (of_nat i)) 0 (unat (sb_size x)) = Some i" "b = of_nat i"
    by (auto simp: first_free_def)
  note * = first_idx_SomeD [OF i(1)]
  have u: "unat b = i" using * layoutD(1) [OF assms(1)] i(2) by (simp add: unat_small)
  show "unat b < unat (sb_size x)" "\<not> used d x b" using * u i(2) by auto
  show "used d x c" if "unat c < unat b" using * that u by (auto dest: spec [of _ "unat c"])
qed

lemma first_free_NoneD: "first_free d x = None \<Longrightarrow> unat b < unat (sb_size x) \<Longrightarrow> used d x b"
  by (auto simp: first_free_def first_idx_None_iff dest: spec [of _ "unat b"])

text \<open>
  \<open>balloc\<close> takes the least free block: its bit is set and it is zeroed. The buffers \<open>H\<close> that the
  caller holds must not be the bitmap or free blocks.
\<close>

definition allocated :: "superblock \<Rightarrow> u32 \<Rightarrow> (u32 \<Rightarrow> block) \<Rightarrow> u32 \<Rightarrow> block" where
  "allocated x b d = d(sb_bmapstart x := set_bit_at (unat b) (d (sb_bmapstart x)), b := replicate BSIZE 0)"

lemma balloc_spec:
  assumes t: "ftx p st H s" and l: "layout st (sb s)" and m: "meta_used (ldisk s) (sb s)"
    and b: "first_free (ldisk s) (sb s) = Some b"
    and n: "\<And>c. c \<in> H \<Longrightarrow> b_blockno (bufs s c) \<noteq> sb_bmapstart (sb s) \<and> used (ldisk s) (sb s) (b_blockno (bufs s c))"
    and room: "length (logs (sb_bmapstart (sb s)) (logged s)) < LOGSIZE - 1" "card H \<le> 1"
  shows "\<exists>s'. balloc ROOTDEV s = Inr (b, s') \<and> fs_step p st H s s' \<and> ldisk s' = allocated (sb s) b (ldisk s) \<and>
    logged s' = logs b (logs (sb_bmapstart (sb s)) (logged s))"
proof -
  let ?n = "sb_bmapstart (sb s)" let ?d = "set_bit_at (unat b) (ldisk s ?n)"
  note F = first_free_SomeD [OF l b]
  have B: "data_block (sb s) b" using unused_data [OF l m F(2,1)] .
  have r: "length (logged s) < LOGSIZE - 1" using room(1) length_logs(1) [of "logged s" ?n] by simp
  obtain c s1 s2 s3 where 1: "bread ROOTDEV ?n s = Inr (c, s1)" "b_data (bufs s1 c) = ldisk s ?n" "quiet s s1"
    "log_write c (set_data c ?d s1) = Inr s2" "brelse c s2 = Inr s3" "ftx p st H s3" "log_frame s s3" "held_same H s s3"
    "ldisk s3 = (ldisk s)(?n := ?d)" "disk s3 = disk s" "dwrites s3 = dwrites s" "logged s3 = logs ?n (logged s)"
    using ftx_modify [OF t _ layoutD(3) [OF l], of ?d] n ftxD(4) [OF t] r room(2) by auto
  have nb: "b_blockno (bufs s3 c) \<noteq> b" if "c \<in> H" for c using n [OF that] F(2) held_sameD(1) [OF 1(8) that] by auto
  have r3: "length (logged s3) < LOGSIZE - 1" unfolding 1(12) by (rule room(1))
  obtain s' where 2: "bzero ROOTDEV b s3 = Inr s'" "fs_step p st H s3 s'" "ldisk s' = (ldisk s3)(b := replicate BSIZE 0)"
    "logged s' = logs b (logged s3)"
    using bzero_spec [OF 1(6) nb layoutD(2) [OF l B] r3 room(2)] by blast
  obtain i where i: "first_idx (\<lambda>bi. \<not> bit_set (ldisk s ?n) bi) 0 (unat (sb_size (sb s))) = Some i" "b = of_nat i"
    using b by (auto simp: first_free_bits [OF l])
  have "unat b = i" using first_idx_SomeD [OF i(1)] layoutD(1) [OF l] i(2) by (simp add: unat_small)
  then have f: "first_idx (\<lambda>bi. \<not> bit_set (ldisk s ?n) bi) 0 (min BPB (unat (sb_size (sb s)))) = Some (unat b)"
    using i layoutD(1) [OF l] by (simp add: min_absorb2)
  have "fs_step p st H s s'" using fs_step_trans [of p st H s s3 s'] 1 2(2) by (simp add: fs_step_def)
  then show ?thesis
    using 1(1,2,4,5,9,12) 2(1,3,4) f quiet_fs(1) [OF 1(3)] unfolding balloc_def balloc_loop [OF l]
    by (simp add: BBLOCK_def allocated_def)
qed

lemma balloc_full:
  assumes t: "ftx p st H s" and l: "layout st (sb s)" and b: "first_free (ldisk s) (sb s) = None"
    and n: "\<And>c. c \<in> H \<Longrightarrow> b_blockno (bufs s c) \<noteq> sb_bmapstart (sb s)" and room: "length (logged s) + card H < NBUF"
  shows "balloc ROOTDEV s = Inl (Panic ''balloc: out of blocks'')"
proof -
  let ?n = "sb_bmapstart (sb s)"
  obtain c s1 s2 where 1: "bread ROOTDEV ?n s = Inr (c, s1)" "b_data (bufs s1 c) = ldisk s ?n" "quiet s s1" "brelse c s1 = Inr s2"
    using ftx_read [OF t n room] by auto
  have f: "first_idx (\<lambda>bi. \<not> bit_set (ldisk s ?n) bi) 0 (min BPB (unat (sb_size (sb s)))) = None"
    using b layoutD(1) [OF l] by (simp add: first_free_bits [OF l] min_absorb2)
  show ?thesis using 1 f quiet_fs(1) [OF 1(3)] unfolding balloc_def balloc_loop [OF l] by (simp add: BBLOCK_def)
qed

lemma used_allocated:
  assumes "layout st x" "sized d" "data_block x b" "unat c < BPB"
  shows "used (allocated x b d) x c \<longleftrightarrow> used d x c \<or> c = b"
proof -
  note L = layoutD [OF assms(1)]
  have "used (allocated x b d) x c = used (d(sb_bmapstart x := set_bit_at (unat b) (d (sb_bmapstart x)))) x c"
    using L(4) [OF assms(3)] by (intro used_cong assms(4)) (simp add: allocated_def)
  then show ?thesis using used_upd(1) [OF sizedD [OF assms(2)] L(6) [OF assms(3)] assms(4)] by simp
qed

lemma allocated_other: "n \<noteq> b \<Longrightarrow> n \<noteq> sb_bmapstart x \<Longrightarrow> allocated x b d n = d n"
  by (simp add: allocated_def)

lemma allocated_self: "layout st x \<Longrightarrow> data_block x b \<Longrightarrow> allocated x b d b = replicate BSIZE 0"
  by (simp add: allocated_def)

lemma bfree_free:
  assumes t: "ftx p st {} s" and l: "layout st (sb s)" and b: "unat b < BPB" "\<not> used (ldisk s) (sb s) b"
    and room: "length (logged s) < LOGSIZE"
  shows "bfree ROOTDEV b s = Inl (Panic ''freeing free block'')"
proof -
  let ?n = "sb_bmapstart (sb s)"
  obtain c s1 where 1: "bread ROOTDEV ?n s = Inr (c, s1)" "b_data (bufs s1 c) = ldisk s ?n"
    using ftx_read [OF t, of ?n] room by auto
  then show ?thesis using b by (simp add: bfree_def BBLOCK_small used_small)
qed

section \<open>Properties\<close>

text \<open>A machine after boot, inside a system call: the image of a disk with 1000 blocks, the first 48 of them used.\<close>

definition boot_sb :: superblock where
  "boot_sb = \<lparr>sb_magic = FSMAGIC, sb_size = 1000, sb_nblocks = 954, sb_ninodes = 200, sb_nlog = 30, sb_logstart = 2, sb_inodestart = 32,
     sb_bmapstart = 45\<rparr>"

definition boot_map :: block where
  "boot_map = replicate 6 255 @ replicate 1018 0"

definition no_inode :: inode where
  "no_inode = \<lparr>i_dev = 0, i_inum = 0, i_ref = 0, i_valid = 0, i_type = 0, i_major = 0, i_minor = 0, i_nlink = 0, i_size = 0, i_addrs = []\<rparr>"

definition boot_fs :: "(u32 \<Rightarrow> block) \<Rightarrow> kfs" where
  "boot_fs img = klog.extend (boot_log\<lparr>disk := img(2 := replicate BSIZE 0, 45 := boot_map)\<rparr>) (kfs.fields boot_sb (\<lambda>_. no_inode))"

lemma boot_fs_ftx:
  assumes "sized img"
  shows "ftx 0 2 {} (binit (boot_fs img))" "logged (binit (boot_fs img)) = []" "sb (binit (boot_fs img)) = boot_sb"
    "ldisk (binit (boot_fs img)) = img(2 := replicate BSIZE 0, 45 := boot_map)" "inodes (binit (boot_fs img)) = (\<lambda>_. no_inode)"
    "sl_locked (sleeplocks (boot_fs img) l) = 0"
proof -
  let ?r = "boot_fs img"
  note d = boot_fs_def boot_log_def boot_bio_def kbio.defs klog.defs kfs.defs
  have z: "zero_bufs ?r" "running 0 ?r" by (simp_all add: d zero_bufs_def running_def)
  have b: "log_start ?r = 2" "log_room 2" "log_dev ?r = ROOTDEV" "lh_n ?r = 0" "sized (disk ?r)" "head_n (disk ?r 2) = 0" "log_ready ?r"
    using assms by (simp_all add: d log_room_def sized_def head_n_def get_le_zero log_ready_def boot_map_def)
  note T = boot_txnI [OF z b(1-6)]
  show "ftx 0 2 {} (binit ?r)" "logged (binit ?r) = []" using T b(7) by (simp_all add: ftx_def)
  obtain bs sl where bi: "binit ?r = ?r\<lparr>sleeplocks := sl, bufs := bs\<rparr>" using binit_frame by blast
  show "sb (binit ?r) = boot_sb" "inodes (binit ?r) = (\<lambda>_. no_inode)" unfolding bi by (simp_all add: d)
  show "ldisk (binit ?r) = img(2 := replicate BSIZE 0, 45 := boot_map)" unfolding boot_brefs(2,3) [OF z] by (simp add: d)
  show "sl_locked (sleeplocks ?r l) = 0" by (simp add: d)
qed

lemma boot_layout: "layout 2 boot_sb"
  by (simp add: layout_def boot_sb_def)

lemma boot_map_bits: "i < BPB \<Longrightarrow> bit_set boot_map i \<longleftrightarrow> i < 48"
proof -
  have m: "bit (255 :: u8) k" if "k < 8" for k
  proof -
    have "(255 :: u8) = mask 8" by (simp add: mask_eq_exp_minus_1)
    then show ?thesis using that by (simp only: bit_mask_iff) simp
  qed
  assume "i < BPB"
  then show "bit_set boot_map i \<longleftrightarrow> i < 48" using m [of "i mod 8"] by (auto simp: bit_set_iff boot_map_def nth_append)
qed

lemma boot_used: "unat b < BPB \<Longrightarrow> used (img(45 := boot_map)) boot_sb b \<longleftrightarrow> unat b < 48"
  by (simp add: used_small boot_sb_def boot_map_bits)

lemma boot_meta: "meta_used (img(45 := boot_map)) boot_sb"
proof -
  have "sb_bmapstart boot_sb = 45" by (simp add: boot_sb_def)
  then show ?thesis by (simp add: meta_used_def boot_used)
qed

lemma boot_first_free: "first_free (img(45 := boot_map)) boot_sb = Some 48"
proof -
  let ?P = "\<lambda>i. \<not> used (img(45 := boot_map)) boot_sb (of_nat i)"
  have u: "?P i \<longleftrightarrow> \<not> i < 48" if "i < 1000" for i using that boot_used [of "of_nat i"] by (simp add: unat_small)
  obtain j where j: "first_idx ?P 0 1000 = Some j" using first_idx_SomeI [of 0 48 1000 ?P] u [of 48] by auto
  have j2: "j < 1000" "?P j" "\<forall>k. k < j \<longrightarrow> \<not> ?P k" using first_idx_SomeD [OF j] by auto
  have "\<not> j < 48" using u [OF j2(1)] j2(2) by blast
  moreover have "\<not> 48 < j" using u [of 48] j2(3) by auto
  ultimately have "j = 48" by simp
  with j show ?thesis by (simp add: first_free_def boot_sb_def)
qed

text \<open>
  C24. The block allocator. In a transaction with room in the log, on a disk whose bitmap marks the log, the
  inodes and the bitmap itself as used: \<open>balloc\<close> panics if every block is used; otherwise it
  returns the least unused block, a data block, which is marked used and full of zeroes, while every
  other block but the bitmap stays as it was and no other block's mark changes; the disk itself is not written.
  \<open>bfree\<close> of that block then restores all marks, and freeing it a second time panics.
\<close>

theorem block_allocator:
  assumes t: "ftx p st {} s" and l: "layout st (sb s)" and m: "meta_used (ldisk s) (sb s)" and room: "length (logged s) + 2 < LOGSIZE - 1"
  shows "case first_free (ldisk s) (sb s) of
      None \<Rightarrow> (\<forall>b. unat b < unat (sb_size (sb s)) \<longrightarrow> used (ldisk s) (sb s) b) \<and> balloc ROOTDEV s = Inl (Panic ''balloc: out of blocks'')
    | Some b \<Rightarrow> \<not> used (ldisk s) (sb s) b \<and> (\<forall>c. unat c < unat b \<longrightarrow> used (ldisk s) (sb s) c) \<and> data_block (sb s) b \<and>
        (\<exists>s1 s2. balloc ROOTDEV s = Inr (b, s1) \<and> ldisk s1 b = replicate BSIZE 0 \<and> disk s1 = disk s \<and>
           (\<forall>n. n \<noteq> b \<longrightarrow> n \<noteq> sb_bmapstart (sb s) \<longrightarrow> ldisk s1 n = ldisk s n) \<and>
           (\<forall>c. unat c < BPB \<longrightarrow> used (ldisk s1) (sb s) c \<longleftrightarrow> used (ldisk s) (sb s) c \<or> c = b) \<and>
           bfree ROOTDEV b s1 = Inr s2 \<and> ftx p st {} s2 \<and> (\<forall>c. unat c < BPB \<longrightarrow> used (ldisk s2) (sb s) c = used (ldisk s) (sb s) c) \<and>
           bfree ROOTDEV b s2 = Inl (Panic ''freeing free block''))"
proof (cases "first_free (ldisk s) (sb s)")
  case None
  then show ?thesis using balloc_full [OF t l None] room first_free_NoneD [OF None] by simp
next
  case (Some b)
  let ?n = "sb_bmapstart (sb s)"
  note F = first_free_SomeD [OF l Some] and L = layoutD [OF l]
  have B: "data_block (sb s) b" using unused_data [OF l m F(2,1)] .
  have r: "length (logs ?n (logged s)) < LOGSIZE - 1" using room length_logs(2) [of ?n "logged s"] by linarith
  obtain s1 where 1: "balloc ROOTDEV s = Inr (b, s1)" "fs_step p st {} s s1" "ldisk s1 = allocated (sb s) b (ldisk s)"
    "logged s1 = logs b (logs ?n (logged s))"
    using balloc_spec [OF t l m Some _ r] by auto
  note S1 = fs_stepD [OF 1(2)]
  have l1: "layout st (sb s1)" "sb s1 = sb s" using l S1(6) by simp_all
  have U: "used (ldisk s1) (sb s) c \<longleftrightarrow> used (ldisk s) (sb s) c \<or> c = b" if "unat c < BPB" for c
    unfolding 1(3) by (rule used_allocated [OF l txnD(7) [OF ftxD(1) [OF t]] B that])
  have r1: "length (logged s1) < LOGSIZE - 1"
    using room length_logs(2) [of ?n "logged s"] length_logs(2) [of b "logs ?n (logged s)"] unfolding 1(4) by linarith
  have ub: "used (ldisk s1) (sb s1) b" using U [OF L(6) [OF B]] l1(2) by simp
  obtain s2 where 2: "bfree ROOTDEV b s1 = Inr s2" "fs_step p st {} s1 s2" "logged s2 = logs ?n (logged s1)"
    "ldisk s2 = (ldisk s1)(?n := clear_bit_at (unat b) (ldisk s1 ?n))"
    using bfree_spec [OF S1(1) l1(1) L(6) [OF B] ub _ r1] l1(2) by auto
  note S2 = fs_stepD [OF 2(2)]
  have U2: "used (ldisk s2) (sb s) c \<longleftrightarrow> used (ldisk s) (sb s) c" if "unat c < BPB" for c
    unfolding 2(4) using used_upd(2) [where d = "ldisk s1" and x = "sb s", OF ftxD(4) [OF S1(1)] L(6) [OF B] that] U [OF that] F(2) by auto
  have l2: "layout st (sb s2)" "sb s2 = sb s" using l1 S2(6) by simp_all
  have r2: "length (logged s2) < LOGSIZE" using r1 length_logs(2) [of ?n "logged s1"] unfolding 2(3) by linarith
  have p2: "bfree ROOTDEV b s2 = Inl (Panic ''freeing free block'')"
    by (rule bfree_free [OF S2(1) l2(1) L(6) [OF B] _ r2]) (simp add: U2 [OF L(6) [OF B]] F(2) l2(2))
  have k: "ldisk s1 b = replicate BSIZE 0" "n \<noteq> b \<Longrightarrow> n \<noteq> ?n \<Longrightarrow> ldisk s1 n = ldisk s n" for n
    unfolding 1(3) by (rule allocated_self [OF l B]) (rule allocated_other)
  show ?thesis using Some F B 1(1) 2(1) S1(4) S2(1) U U2 p2 k by auto
qed

theorem block_allocator_witness:
  "\<exists>s1 s2. balloc ROOTDEV (binit (boot_fs (\<lambda>_. replicate BSIZE 7))) = Inr (48, s1) \<and> ldisk s1 48 = replicate BSIZE 0 \<and>
     bfree ROOTDEV 48 s1 = Inr s2 \<and> bfree ROOTDEV 48 s2 = Inl (Panic ''freeing free block'')"
proof -
  let ?s = "binit (boot_fs (\<lambda>_. replicate BSIZE 7))"
  have z: "sized (\<lambda>_. replicate BSIZE 7)" by (simp add: sized_def)
  note B = boot_fs_ftx [OF z]
  have p: "layout 2 (sb ?s)" "meta_used (ldisk ?s) (sb ?s)" "length (logged ?s) + 2 < LOGSIZE - 1" "first_free (ldisk ?s) (sb ?s) = Some 48"
    unfolding B(2-4) by (simp_all add: boot_layout boot_meta boot_first_free)
  show ?thesis using block_allocator [OF B(1) p(1-3)] unfolding p(4) by auto
qed

end
