(* ===== verification/Inodes.thy ===== *)
theory Inodes
  imports Blocks
begin

unbundle bit_operations_syntax

text \<open>
  The contents of inodes: \<open>bmap\<close>, \<open>readi\<close> and \<open>writei\<close> of kernel/fs.c. A file is the function from
  offsets to bytes that the block addresses of its inode and the logical disk define; a block that
  is not allocated counts as zeroes. Reading returns these bytes, writing changes them in the range written
  only, blocks are allocated on the way, and the blocks of other files stay as they are.
\<close>

section \<open>Files on the logical disk\<close>

text \<open>
  The blocks of an inode: indices below 12 are direct, up to 267 go through the indirect block, and
  index 268 is the indirect block itself.
\<close>

definition faddr :: "(u32 \<Rightarrow> block) \<Rightarrow> inode \<Rightarrow> nat \<Rightarrow> u32" where
  "faddr d I i =
     (if i < NDIRECT then i_addrs I ! i
      else if i < MAXFILE then (if i_addrs I ! NDIRECT = 0 then 0 else get_le (4 * (i - NDIRECT)) 4 (d (i_addrs I ! NDIRECT)))
      else i_addrs I ! NDIRECT)"

definition fbyte :: "(u32 \<Rightarrow> block) \<Rightarrow> inode \<Rightarrow> nat \<Rightarrow> u8" where
  "fbyte d I off = (let a = faddr d I (off div BSIZE) in if a = 0 then 0 else d a ! (off mod BSIZE))"

definition fdata :: "(u32 \<Rightarrow> block) \<Rightarrow> inode \<Rightarrow> u8 list" where
  "fdata d I = map (fbyte d I) [0..<unat (i_size I)]"

definition iblocks :: "(u32 \<Rightarrow> block) \<Rightarrow> inode \<Rightarrow> u32 set" where
  "iblocks d I = {a. a \<noteq> 0 \<and> (\<exists>i \<le> MAXFILE. a = faddr d I i)}"

text \<open>A sound file: its blocks are used data blocks, no two of them the same, and it has no holes.\<close>

definition file_ok :: "superblock \<Rightarrow> (u32 \<Rightarrow> block) \<Rightarrow> inode \<Rightarrow> bool" where
  "file_ok x d I \<longleftrightarrow> i_dev I = ROOTDEV \<and> length (i_addrs I) = NDIRECT + 1 \<and> unat (i_size I) \<le> MAXFILE * BSIZE \<and>
     (\<forall>a \<in> iblocks d I. data_block x a \<and> used d x a) \<and>
     (\<forall>i \<le> MAXFILE. \<forall>j \<le> MAXFILE. faddr d I i \<noteq> 0 \<longrightarrow> faddr d I i = faddr d I j \<longrightarrow> i = j) \<and>
     (\<forall>i. i * BSIZE < unat (i_size I) \<longrightarrow> faddr d I i \<noteq> 0)"

lemma file_okD:
  assumes "file_ok x d I"
  shows "i_dev I = ROOTDEV" "length (i_addrs I) = NDIRECT + 1" "unat (i_size I) \<le> MAXFILE * BSIZE"
    "a \<in> iblocks d I \<Longrightarrow> data_block x a" "a \<in> iblocks d I \<Longrightarrow> used d x a"
    "faddr d I i \<noteq> 0 \<Longrightarrow> faddr d I i = faddr d I j \<Longrightarrow> i \<le> MAXFILE \<Longrightarrow> j \<le> MAXFILE \<Longrightarrow> i = j"
    "i * BSIZE < unat (i_size I) \<Longrightarrow> faddr d I i \<noteq> 0"
  using assms unfolding file_ok_def by blast+

lemma iblocksI: "i \<le> MAXFILE \<Longrightarrow> faddr d I i \<noteq> 0 \<Longrightarrow> faddr d I i \<in> iblocks d I"
  by (auto simp: iblocks_def)

lemma faddr_simps [simp]:
  "i < NDIRECT \<Longrightarrow> faddr d I i = i_addrs I ! i" "faddr d I MAXFILE = i_addrs I ! NDIRECT"
  by (simp_all add: faddr_def)

lemma faddr_indirect:
  "i_addrs I ! NDIRECT \<noteq> 0 \<Longrightarrow> j < NINDIRECT \<Longrightarrow> faddr d I (NDIRECT + j) = get_le (4 * j) 4 (d (i_addrs I ! NDIRECT))"
  by (simp add: faddr_def)

lemma faddr_cong:
  "i_addrs I' = i_addrs I \<Longrightarrow> (i_addrs I ! NDIRECT \<noteq> 0 \<Longrightarrow> d' (i_addrs I ! NDIRECT) = d (i_addrs I ! NDIRECT)) \<Longrightarrow> faddr d' I' = faddr d I"
  by (auto simp: faddr_def fun_eq_iff)

text \<open>How a file and the disk change when blocks are added to the file.\<close>

definition grows :: "superblock \<Rightarrow> (u32 \<Rightarrow> block) \<Rightarrow> inode \<Rightarrow> (u32 \<Rightarrow> block) \<Rightarrow> inode \<Rightarrow> bool" where
  "grows x d I d' I' \<longleftrightarrow> I' = I\<lparr>i_addrs := i_addrs I'\<rparr> \<and>
     (\<forall>i \<le> MAXFILE. faddr d I i \<noteq> 0 \<longrightarrow> faddr d' I' i = faddr d I i) \<and>
     (\<forall>a \<in> iblocks d' I'. a \<in> iblocks d I \<or> data_block x a \<and> \<not> used d x a) \<and>
     (\<forall>b. data_block x b \<longrightarrow> (used d' x b \<longleftrightarrow> used d x b \<or> b \<in> iblocks d' I')) \<and>
     (\<forall>n. n \<notin> iblocks d' I' \<longrightarrow> n \<noteq> sb_bmapstart x \<longrightarrow> d' n = d n)"

lemma growsD:
  assumes "grows x d I d' I'"
  shows "I' = I\<lparr>i_addrs := i_addrs I'\<rparr>" "i \<le> MAXFILE \<Longrightarrow> faddr d I i \<noteq> 0 \<Longrightarrow> faddr d' I' i = faddr d I i"
    "a \<in> iblocks d' I' \<Longrightarrow> a \<in> iblocks d I \<or> data_block x a \<and> \<not> used d x a"
    "data_block x b \<Longrightarrow> used d' x b \<longleftrightarrow> used d x b \<or> b \<in> iblocks d' I'"
    "n \<notin> iblocks d' I' \<Longrightarrow> n \<noteq> sb_bmapstart x \<Longrightarrow> d' n = d n" "iblocks d I \<subseteq> iblocks d' I'"
proof -
  show "I' = I\<lparr>i_addrs := i_addrs I'\<rparr>" using assms unfolding grows_def by blast
  show *: "i \<le> MAXFILE \<Longrightarrow> faddr d I i \<noteq> 0 \<Longrightarrow> faddr d' I' i = faddr d I i" for i using assms unfolding grows_def by blast
  show "iblocks d I \<subseteq> iblocks d' I'"
  proof
    fix a
    assume "a \<in> iblocks d I"
    then obtain i where "i \<le> MAXFILE" "a = faddr d I i" "a \<noteq> 0" unfolding iblocks_def by blast
    then show "a \<in> iblocks d' I'" using * [of i] iblocksI [of i d' I'] by simp
  qed
  note G = assms [unfolded grows_def]
  show "a \<in> iblocks d' I' \<Longrightarrow> a \<in> iblocks d I \<or> data_block x a \<and> \<not> used d x a" using G by simp
  show "data_block x b \<Longrightarrow> used d' x b \<longleftrightarrow> used d x b \<or> b \<in> iblocks d' I'" using G by simp
  show "n \<notin> iblocks d' I' \<Longrightarrow> n \<noteq> sb_bmapstart x \<Longrightarrow> d' n = d n" using G by simp
qed

lemma grows_trans:
  assumes 1: "grows x d I d' I'" and 2: "grows x d' I' d'' I''" and ok: "file_ok x d I"
  shows "grows x d I d'' I''"
  unfolding grows_def
proof (intro conjI allI ballI impI)
  show "I'' = I\<lparr>i_addrs := i_addrs I''\<rparr>" using growsD(1) [OF 1] growsD(1) [OF 2] by (cases I, cases I', cases I'') simp
  show "faddr d'' I'' i = faddr d I i" if "i \<le> MAXFILE" "faddr d I i \<noteq> 0" for i
    using growsD(2) [OF 1 that] growsD(2) [OF 2, of i] that by simp
  show "a \<in> iblocks d I \<or> data_block x a \<and> \<not> used d x a" if "a \<in> iblocks d'' I''" for a
    using growsD(3) [OF 2 that] growsD(3) [OF 1, of a] growsD(4) [OF 1, of a] by blast
  show "used d'' x b \<longleftrightarrow> used d x b \<or> b \<in> iblocks d'' I''" if "data_block x b" for b
    using growsD(4) [OF 2 that] growsD(4) [OF 1 that] growsD(6) [OF 2] by blast
  show "d'' n = d n" if "n \<notin> iblocks d'' I''" "n \<noteq> sb_bmapstart x" for n
    using growsD(5) [OF 2 that] growsD(5) [OF 1, of n] growsD(6) [OF 2] that by auto
qed

text \<open>The blocks that are still free.\<close>

definition free_blocks :: "(u32 \<Rightarrow> block) \<Rightarrow> superblock \<Rightarrow> u32 set" where
  "free_blocks d x = {b. data_block x b \<and> \<not> used d x b}"

lemma free_blocks_first:
  assumes "layout st x" "meta_used d x" "free_blocks d x \<noteq> {}"
  obtains b where "first_free d x = Some b" "b \<in> free_blocks d x"
proof -
  have "first_free d x \<noteq> None" using assms(3) first_free_NoneD [of d x] by (fastforce simp: free_blocks_def data_block_def)
  then obtain b where b: "first_free d x = Some b" by blast
  have "b \<in> free_blocks d x"
    using first_free_SomeD [OF assms(1) b] unused_data [OF assms(1,2)] by (simp add: free_blocks_def)
  with b that show thesis by blast
qed

text \<open>
  One block more: the block \<open>b\<close>, free before, becomes block \<open>k\<close> of the file. The disk changes in the
  bitmap, in the new block, and in the indirect block at most.
\<close>

lemma add_block:
  assumes ok: "file_ok x d I" and l: "layout st x" and m: "meta_used d x" and b: "b \<in> free_blocks d x"
    and k: "k \<le> MAXFILE" "faddr d I k = 0" and a: "\<And>i. i \<le> MAXFILE \<Longrightarrow> faddr d' I' i = ((faddr d I)(k := b)) i"
    and I': "I' = I\<lparr>i_addrs := i_addrs I'\<rparr>" "length (i_addrs I') = NDIRECT + 1"
    and u: "\<And>c. unat c < BPB \<Longrightarrow> used d' x c \<longleftrightarrow> used d x c \<or> c = b"
    and o: "\<And>n. n \<noteq> b \<Longrightarrow> n \<noteq> sb_bmapstart x \<Longrightarrow> n = 0 \<or> n \<noteq> i_addrs I' ! NDIRECT \<Longrightarrow> d' n = d n"
    and z: "k < MAXFILE \<Longrightarrow> d' b = replicate BSIZE 0"
  shows "file_ok x d' I'" "grows x d I d' I'" "meta_used d' x" "free_blocks d' x = free_blocks d x - {b}"
    "off < MAXFILE * BSIZE \<Longrightarrow> fbyte d' I' off = fbyte d I off"
proof -
  note L = layoutD [OF l] and F = file_okD [OF ok]
  have b': "data_block x b" "\<not> used d x b" "b \<noteq> 0" using b L(5) by (auto simp: free_blocks_def)
  have ib: "iblocks d' I' = insert b (iblocks d I)"
  proof -
    have "c \<in> iblocks d' I' \<longleftrightarrow> c = b \<or> c \<in> iblocks d I" for c
      using a k b'(3) by (auto simp: iblocks_def)
    then show ?thesis by blast
  qed
  have new: "b \<notin> iblocks d I" using F(5) b'(2) by blast
  show "file_ok x d' I'"
    unfolding file_ok_def
  proof (intro conjI allI ballI impI)
    have e: "i_dev I' = i_dev I" "i_size I' = i_size I" using I'(1) by (cases I, cases I', simp)+
    show "i_dev I' = ROOTDEV" "unat (i_size I') \<le> MAXFILE * BSIZE" "length (i_addrs I') = NDIRECT + 1" using e F(1,3) I'(2) by simp_all
    show "data_block x c" "used d' x c" if "c \<in> iblocks d' I'" for c
      using that ib b'(1) F(4,5) u [OF L(6)] by auto
    show "i = j" if "i \<le> MAXFILE" "j \<le> MAXFILE" "faddr d' I' i \<noteq> 0" "faddr d' I' i = faddr d' I' j" for i j
      using that a F(6) [of i j] new iblocksI [of i d I] iblocksI [of j d I] b'(3) by (auto split: if_splits)
    show "faddr d' I' i \<noteq> 0" if "i * BSIZE < unat (i_size I')" for i
      using F(7) [of i] F(3) that a [of i] e b'(3) by auto
  qed
  show "grows x d I d' I'"
    unfolding grows_def
  proof (intro conjI allI ballI impI)
    show "faddr d' I' i = faddr d I i" if "i \<le> MAXFILE" "faddr d I i \<noteq> 0" for i using that a k by auto
    show "c \<in> iblocks d I \<or> data_block x c \<and> \<not> used d x c" if "c \<in> iblocks d' I'" for c using that ib b' by auto
    show "used d' x c \<longleftrightarrow> used d x c \<or> c \<in> iblocks d' I'" if "data_block x c" for c
      using u [OF L(6) [OF that]] ib F(5) by auto
    show "d' n = d n" if "n \<notin> iblocks d' I'" "n \<noteq> sb_bmapstart x" for n
    proof (rule o)
      show "n = 0 \<or> n \<noteq> i_addrs I' ! NDIRECT" using that(1) iblocksI [of MAXFILE d' I'] by auto
    qed (use that ib in auto)
  qed (rule I'(1))
  show "meta_used d' x" using m u L(1) l by (auto simp: meta_used_def layout_def)
  show "free_blocks d' x = free_blocks d x - {b}" using u L(6) by (auto simp: free_blocks_def)
  show "fbyte d' I' off = fbyte d I off" if "off < MAXFILE * BSIZE"
  proof -
    let ?i = "off div BSIZE"
    have i: "?i < MAXFILE" using that by (simp add: less_mult_imp_div_less)
    show ?thesis
    proof (cases "?i = k")
      case True
      then show ?thesis using a [of k] k z i b'(3) by (simp add: fbyte_def Let_def)
    next
      case False
      then have e: "faddr d' I' ?i = faddr d I ?i" using a [of ?i] i by simp
      have "d' (faddr d I ?i) = d (faddr d I ?i)" if "faddr d I ?i \<noteq> 0"
      proof (rule o)
        have in1: "faddr d I ?i \<in> iblocks d I" using iblocksI that i by simp
        show "faddr d I ?i \<noteq> b" "faddr d I ?i \<noteq> sb_bmapstart x" using in1 new L(4) F(4) by auto
        show "faddr d I ?i = 0 \<or> faddr d I ?i \<noteq> i_addrs I' ! NDIRECT"
          using F(6) [of ?i MAXFILE] a [of MAXFILE] that i in1 new by (auto split: if_splits)
      qed
      then show ?thesis by (simp add: fbyte_def Let_def e)
    qed
  qed
qed

section \<open>\<open>bmap\<close>\<close>

text \<open>What a call on the inode in slot \<open>ip\<close> may change: that inode, the cache, and the log's list.\<close>

definition fs_move :: "nat \<Rightarrow> u32 \<Rightarrow> nat \<Rightarrow> 'a kfs_scheme \<Rightarrow> 'a kfs_scheme \<Rightarrow> bool" where
  "fs_move p st ip s s' \<longleftrightarrow> ftx p st {} s' \<and> log_frame (s\<lparr>inodes := (inodes s)(ip := inodes s' ip)\<rparr>) s' \<and> disk s' = disk s \<and>
     dwrites s' = dwrites s"

lemma fs_moveD:
  assumes "fs_move p st ip s s'"
  shows "ftx p st {} s'" "disk s' = disk s" "dwrites s' = dwrites s" "sb s' = sb s" "j \<noteq> ip \<Longrightarrow> inodes s' j = inodes s j"
    "kfs.more s' = kfs.more s" "ram s' = ram s" "cur s' = cur s" "p_pagetable (procs s' i) = p_pagetable (procs s i)"
    "sleeplocks s' (InodeSL i) = sleeplocks s (InodeSL i)" "p_pid (procs s' i) = p_pid (procs s i)"
proof -
  have *: "log_frame (s\<lparr>inodes := (inodes s)(ip := inodes s' ip)\<rparr>) s'" and "ftx p st {} s'" "disk s' = disk s" "dwrites s' = dwrites s"
    using assms by (simp_all add: fs_move_def)
  then show "ftx p st {} s'" "disk s' = disk s" "dwrites s' = dwrites s" by simp_all
  show "sb s' = sb s" "kfs.more s' = kfs.more s" using log_frame_fs [OF *] by simp_all
  show "j \<noteq> ip \<Longrightarrow> inodes s' j = inodes s j" using fun_cong [OF log_frame_fs(2) [OF *], of j] by simp
  show "ram s' = ram s" "cur s' = cur s" "p_pagetable (procs s' i) = p_pagetable (procs s i)"
    "sleeplocks s' (InodeSL i) = sleeplocks s (InodeSL i)" "p_pid (procs s' i) = p_pid (procs s i)"
    using log_frameD(7-9,11,12) [OF *] by simp_all
qed

lemma log_frame_inodes: "log_frame s t \<Longrightarrow> log_frame (s\<lparr>inodes := x\<rparr>) (t\<lparr>inodes := x\<rparr>)"
  unfolding log_frame_def bio_frame_def by (cases s, cases t) simp

lemma fs_moveI:
  assumes "ftx p st {} s'" "log_frame s t" "s' = t\<lparr>inodes := (inodes s)(ip := x)\<rparr>" "disk s' = disk s" "dwrites s' = dwrites s"
  shows "fs_move p st ip s s'"
  using log_frame_inodes [OF assms(2), of "(inodes s)(ip := x)"] assms by (simp add: fs_move_def)

lemma fs_move_refl: "ftx p st {} s \<Longrightarrow> fs_move p st ip s s"
  by (simp add: fs_move_def)

lemma fs_move_step: "fs_step p st {} s s' \<Longrightarrow> fs_move p st ip s s'"
  using fs_stepD(7) [of p st "{}" s s'] by (simp add: fs_step_def fs_move_def)

lemma fs_move_trans:
  assumes 1: "fs_move p st ip s t" and 2: "fs_move p st ip t u"
  shows "fs_move p st ip s u"
proof -
  have "inodes t = (inodes s)(ip := inodes t ip)" using fs_moveD(5) [OF 1] by (auto simp: fun_eq_iff)
  then have e: "(inodes s)(ip := inodes u ip) = (inodes t)(ip := inodes u ip)" by (metis fun_upd_upd)
  from log_frame_inodes [OF 1 [unfolded fs_move_def, THEN conjunct2, THEN conjunct1], of "(inodes s)(ip := inodes u ip)"]
  have "log_frame (s\<lparr>inodes := (inodes s)(ip := inodes u ip)\<rparr>) (t\<lparr>inodes := (inodes t)(ip := inodes u ip)\<rparr>)" by (simp add: e)
  from log_frame_trans [OF this] 1 2 show ?thesis by (simp add: fs_move_def)
qed

text \<open>A file of the file system that an open transaction works on.\<close>

definition fs_file :: "nat \<Rightarrow> u32 \<Rightarrow> nat \<Rightarrow> 'a kfs_scheme \<Rightarrow> bool" where
  "fs_file p st ip s \<longleftrightarrow> ftx p st {} s \<and> layout st (sb s) \<and> meta_used (ldisk s) (sb s) \<and> file_ok (sb s) (ldisk s) (inodes s ip)"

lemma fs_fileD:
  assumes "fs_file p st ip s"
  shows "ftx p st {} s" "layout st (sb s)" "meta_used (ldisk s) (sb s)" "file_ok (sb s) (ldisk s) (inodes s ip)"
  using assms by (simp_all add: fs_file_def)

lemma u32_mod: "unat (of_nat n :: u32) = n" if "n < 2 ^ 32"
  using that by (simp add: unsigned_of_nat take_bit_nat_eq_self)

lemma bmap_mapped:
  assumes t: "ftx p st {} s" and ok: "file_ok x (ldisk s) (inodes s ip)" and i: "unat bn < MAXFILE" "faddr (ldisk s) (inodes s ip) (unat bn) \<noteq> 0"
    and room: "length (logged s) < NBUF"
  shows "\<exists>s'. bmap ip bn s = Inr (faddr (ldisk s) (inodes s ip) (unat bn), s') \<and> ftx p st {} s' \<and> quiet s s'"
proof (cases "unat bn < NDIRECT")
  case True
  then show ?thesis using t i(2) by (simp add: bmap_def Let_def quiet_def)
next
  case False
  let ?n = "i_addrs (inodes s ip) ! NDIRECT"
  have n: "?n \<noteq> 0" "get_le (4 * (unat bn - NDIRECT)) 4 (ldisk s ?n) = faddr (ldisk s) (inodes s ip) (unat bn)"
    using i False by (auto simp: faddr_def split: if_splits)
  obtain b s1 s' where *: "bread ROOTDEV ?n s = Inr (b, s1)" "b_data (bufs s1 b) = ldisk s ?n" "brelse b s1 = Inr s'"
    "ftx p st {} s'" "quiet s s'"
    using ftx_read [OF t, of ?n] room by auto
  then show ?thesis using False i n file_okD(1) [OF ok] by (simp add: bmap_def Let_def)
qed

lemma length_logs_card: "ftx p st H s \<Longrightarrow> length (logs m (logged s)) = card (insert m (set (logged s)))"
  using log_atD(5) [OF txnD(2) [OF ftxD(1) [of p st H s]]] distinct_card [of "logged s"]
  by (simp add: logs_def insert_absorb del: length_logged)

lemma le_word_zero: "le_word (replicate n (0 :: u8)) = 0"
  by (induction n) simp_all

text \<open>Allocation into a slot of the inode itself: a direct block, or the indirect one.\<close>

definition upd_addr :: "nat \<Rightarrow> u32 \<Rightarrow> inode \<Rightarrow> inode" where
  "upd_addr k b I = I\<lparr>i_addrs := (i_addrs I)[k := b]\<rparr>"

lemma alloc_slot:
  assumes ok: "fs_file p st ip s" and k: "k \<le> NDIRECT" "i_addrs (inodes s ip) ! k = 0" and f: "free_blocks (ldisk s) (sb s) \<noteq> {}"
    and room: "length (logs (sb_bmapstart (sb s)) (logged s)) < LOGSIZE - 1"
  shows "\<exists>b t s'. balloc ROOTDEV s = Inr (b, t) \<and> inodes t = inodes s \<and> s' = upd_inode ip (upd_addr k b) t \<and> fs_move p st ip s s' \<and> fs_file p st ip s' \<and>
    b \<in> free_blocks (ldisk s) (sb s) \<and> free_blocks (ldisk s') (sb s) = free_blocks (ldisk s) (sb s) - {b} \<and>
    inodes s' ip = upd_addr k b (inodes s ip) \<and> logged s' = logs b (logs (sb_bmapstart (sb s)) (logged s)) \<and>
    grows (sb s) (ldisk s) (inodes s ip) (ldisk s') (inodes s' ip) \<and>
    (\<forall>off < MAXFILE * BSIZE. fbyte (ldisk s') (inodes s' ip) off = fbyte (ldisk s) (inodes s ip) off) \<and>
    (\<forall>i \<le> MAXFILE. faddr (ldisk s') (inodes s' ip) i = ((faddr (ldisk s) (inodes s ip))(if k < NDIRECT then k else MAXFILE := b)) i)"
proof -
  let ?x = "sb s" and ?d = "ldisk s" and ?I = "inodes s ip"
  note S = fs_fileD [OF ok] and L = layoutD [OF fs_fileD(2) [OF ok]] and F = file_okD [OF fs_fileD(4) [OF ok]]
  obtain b where b: "first_free ?d ?x = Some b" "b \<in> free_blocks ?d ?x" using free_blocks_first [OF S(2,3) f] .
  have B: "data_block ?x b" "\<not> used ?d ?x b" "b \<noteq> 0" using b(2) L(5) by (auto simp: free_blocks_def)
  obtain t where t: "balloc ROOTDEV s = Inr (b, t)" "fs_step p st {} s t" "ldisk t = allocated ?x b ?d"
    "logged t = logs b (logs (sb_bmapstart ?x) (logged s))"
    using balloc_spec [OF S(1-3) b(1) _ room] by auto
  note T = fs_stepD [OF t(2)]
  let ?s = "upd_inode ip (upd_addr k b) t" let ?I' = "upd_addr k b ?I" let ?d' = "allocated ?x b ?d"
  have s': "ldisk ?s = ?d'" "inodes ?s ip = ?I'" "logged ?s = logs b (logs (sb_bmapstart ?x) (logged s))" "sb ?s = ?x"
    using t(3,4) T(6,7) by (simp_all add: upd_inode_def logged_def)
  let ?k = "if k < NDIRECT then k else MAXFILE"
  have ind: "?d' (i_addrs ?I ! NDIRECT) = ?d (i_addrs ?I ! NDIRECT)" if "i_addrs ?I ! NDIRECT \<noteq> 0"
  proof (rule allocated_other)
    have "i_addrs ?I ! NDIRECT \<in> iblocks ?d ?I" using iblocksI [of MAXFILE ?d ?I] that by simp
    then show "i_addrs ?I ! NDIRECT \<noteq> b" "i_addrs ?I ! NDIRECT \<noteq> sb_bmapstart ?x" using F(4,5) L(4) B(2) by auto
  qed
  have z: "?d' b = replicate BSIZE 0" by (rule allocated_self [OF S(2) B(1)])
  have zero: "get_le (4 * j) 4 (replicate BSIZE (0 :: u8)) = (0 :: u32)" if "j < NINDIRECT" for j
    using that by (simp add: get_le_def get_bytes_def le_word_zero)
  have a: "faddr ?d' ?I' i = ((faddr ?d ?I)(?k := b)) i" if "i \<le> MAXFILE" for i
  proof (cases "k < NDIRECT")
    case True
    then show ?thesis using F(2) ind that by (auto simp: faddr_def upd_addr_def nth_list_update)
  next
    case False
    then show ?thesis using F(2) k that z zero [of "i - NDIRECT"] by (auto simp: faddr_def upd_addr_def nth_list_update)
  qed
  have I': "?I' = ?I\<lparr>i_addrs := i_addrs ?I'\<rparr>" "length (i_addrs ?I') = NDIRECT + 1" using F(2) by (simp_all add: upd_addr_def)
  have k': "?k \<le> MAXFILE" "faddr ?d ?I ?k = 0" using k by (auto simp: le_less)
  have u: "used ?d' ?x c \<longleftrightarrow> used ?d ?x c \<or> c = b" if "unat c < BPB" for c
    by (rule used_allocated [OF S(2) txnD(7) [OF ftxD(1) [OF S(1)]] B(1) that])
  have o: "?d' n = ?d n" if "n \<noteq> b" "n \<noteq> sb_bmapstart ?x" for n by (rule allocated_other [OF that])
  have "fs_file p st ip ?s"
    using add_block(1,3) [OF S(4,2,3) b(2) k' a I' u o z] T(1) S(2) s' by (simp add: fs_file_def upd_inode_def)
  moreover have "fs_move p st ip s ?s"
    by (rule fs_moveI [OF _ T(2)]) (use T in \<open>simp_all add: upd_inode_def\<close>)
  ultimately show ?thesis
    using t(1) T(7) b(2) s' a add_block(2,4,5) [OF S(4,2,3) b(2) k' a I' u o z]
    by (intro exI [of _ b] exI [of _ t] exI [of _ ?s]) simp
qed

text \<open>Allocation into an entry of the indirect block, whose buffer is held meanwhile.\<close>

definition linked :: "superblock \<Rightarrow> u32 \<Rightarrow> nat \<Rightarrow> u32 \<Rightarrow> (u32 \<Rightarrow> block) \<Rightarrow> u32 \<Rightarrow> block" where
  "linked x n j b d = (allocated x b d)(n := put_le (4 * j) 4 b (d n))"

lemma linked_file:
  assumes ok: "file_ok x d I" and l: "layout st x" and m: "meta_used d x" and sz: "sized d" and b: "b \<in> free_blocks d x"
    and n: "n = i_addrs I ! NDIRECT" "n \<noteq> 0" and j: "j < NINDIRECT" "faddr d I (NDIRECT + j) = 0"
  shows "file_ok x (linked x n j b d) I" "grows x d I (linked x n j b d) I" "meta_used (linked x n j b d) x"
    "free_blocks (linked x n j b d) x = free_blocks d x - {b}" "faddr (linked x n j b d) I (NDIRECT + j) = b"
    "off < MAXFILE * BSIZE \<Longrightarrow> fbyte (linked x n j b d) I off = fbyte d I off"
proof -
  note L = layoutD [OF l] and F = file_okD [OF ok]
  let ?d' = "linked x n j b d"
  have B: "data_block x b" "\<not> used d x b" "b \<noteq> 0" using b L(5) by (auto simp: free_blocks_def)
  have "n \<in> iblocks d I" using iblocksI [of MAXFILE d I] n by simp
  then have N: "n \<noteq> b" "n \<noteq> sb_bmapstart x" using F(4,5) L(4) B(2) by auto
  have len: "4 * j + 4 \<le> length (d n)" using j sizedD [OF sz, of n] by simp
  have w: "get_le (4 * j) 4 (put_le (4 * j) 4 b (d n)) = b" using get_put_le_same [OF len, of b] by simp
  have w': "get_le (4 * i) 4 (put_le (4 * j) 4 b (d n)) = (get_le (4 * i) 4 (d n) :: u32)" if "i \<noteq> j" "i < NINDIRECT" for i
    using that len sizedD [OF sz, of n] by (intro get_put_le_other) auto
  have a: "faddr ?d' I i = ((faddr d I)(NDIRECT + j := b)) i" if "i \<le> MAXFILE" for i
    using that n w w' [of "i - NDIRECT"] j by (auto simp: faddr_def linked_def)
  have u: "used ?d' x c \<longleftrightarrow> used d x c \<or> c = b" if "unat c < BPB" for c
    using used_allocated [OF l sz B(1) that] used_cong [of ?d' x "allocated x b d" c] that N by (simp add: linked_def)
  have o: "?d' k = d k" if "k \<noteq> b" "k \<noteq> sb_bmapstart x" "k = 0 \<or> k \<noteq> i_addrs I ! NDIRECT" for k
    using that allocated_other [of k b x d] n by (auto simp: linked_def)
  have z: "?d' b = replicate BSIZE 0" using allocated_self [OF l B(1)] N by (simp add: linked_def)
  have k: "NDIRECT + j \<le> MAXFILE" using j by simp
  have e: "I = I\<lparr>i_addrs := i_addrs I\<rparr>" by simp
  note A = add_block [OF ok l m b k j(2) a e F(2) u o z]
  show "file_ok x ?d' I" "grows x d I ?d' I" "meta_used ?d' x" "free_blocks ?d' x = free_blocks d x - {b}" using A(1-4) by blast+
  show "faddr ?d' I (NDIRECT + j) = b" using a [of "NDIRECT + j"] j by simp
  show "off < MAXFILE * BSIZE \<Longrightarrow> fbyte ?d' I off = fbyte d I off" by (rule A(5))
qed

lemma alloc_entry:
  assumes ok: "fs_file p st ip s" and n: "n = i_addrs (inodes s ip) ! NDIRECT" "n \<noteq> 0"
    and j: "j < NINDIRECT" "faddr (ldisk s) (inodes s ip) (NDIRECT + j) = 0" and f: "free_blocks (ldisk s) (sb s) \<noteq> {}"
    and room: "card (insert (sb_bmapstart (sb s)) (set (logged s))) + 1 < LOGSIZE - 1"
  shows "\<exists>c s1 b s2 s3 s'. bread ROOTDEV n s = Inr (c, s1) \<and> inodes s1 = inodes s \<and> b_data (bufs s1 c) = ldisk s n \<and>
    balloc ROOTDEV s1 = Inr (b, s2) \<and> log_write c (set_data c (put_le (4 * j) 4 b (b_data (bufs s2 c))) s2) = Inr s3 \<and>
    brelse c s3 = Inr s' \<and> fs_move p st ip s s' \<and> fs_file p st ip s' \<and>
    b \<in> free_blocks (ldisk s) (sb s) \<and> inodes s' = inodes s \<and> ldisk s' = linked (sb s) n j b (ldisk s) \<and>
    logged s' = logs n (logs b (logs (sb_bmapstart (sb s)) (logged s)))"
proof -
  let ?x = "sb s" and ?d = "ldisk s" and ?I = "inodes s ip" and ?bm = "sb_bmapstart (sb s)"
  note S = fs_fileD [OF ok] and L = layoutD [OF fs_fileD(2) [OF ok]] and F = file_okD [OF fs_fileD(4) [OF ok]]
  note sz = txnD(7) [OF ftxD(1) [OF S(1)]]
  have N: "n \<in> iblocks ?d ?I" using iblocksI [of MAXFILE ?d ?I] n by simp
  have r1: "length (logs ?bm (logged s)) < LOGSIZE - 2" using room length_logs_card [OF S(1), of ?bm] by linarith
  obtain c s1 where c: "bread ROOTDEV n s = Inr (c, s1)" "ftx p st (insert c {}) s1" "quiet s s1" "b_blockno (bufs s1 c) = n"
    "b_data (bufs s1 c) = ldisk s n" "logged s1 = logged s"
    using ftx_bread [OF S(1), of n] r1 length_logs(1) [of "logged s" ?bm] by auto
  note Q = quietD [OF c(3)] and Q2 = quiet_fs [OF c(3)]
  obtain b where b: "first_free ?d ?x = Some b" "b \<in> free_blocks ?d ?x" using free_blocks_first [OF S(2,3) f] .
  have pre: "layout st (sb s1)" "meta_used (ldisk s1) (sb s1)" "first_free (ldisk s1) (sb s1) = Some b"
    "length (logs (sb_bmapstart (sb s1)) (logged s1)) < LOGSIZE - 1"
    using S(2,3) b(1) r1 c(6) Q(4) Q2(1) by simp_all
  have h: "b_blockno (bufs s1 e) \<noteq> sb_bmapstart (sb s1) \<and> used (ldisk s1) (sb s1) (b_blockno (bufs s1 e))" if "e \<in> {c}" for e
    using that c(4) F(4,5) [OF N] L(4) Q(4) Q2(1) by simp
  obtain s2 where s2: "balloc ROOTDEV s1 = Inr (b, s2)" "fs_step p st {c} s1 s2" "ldisk s2 = allocated ?x b ?d"
    "logged s2 = logs b (logs ?bm (logged s))"
    using balloc_spec [OF c(2) pre(1-3) h pre(4)] Q(4) Q2(1) c(6) by auto
  note S2 = fs_stepD [OF s2(2)]
  have hc: "b_blockno (bufs s2 c) = n" "b_data (bufs s2 c) = ?d n" using held_sameD [OF S2(3), of c] c(4,5) by simp_all
  have r2: "length (logged s2) < LOGSIZE - 1" using r1 length_logs(2) [of b "logs ?bm (logged s)"] unfolding s2(4) by linarith
  let ?w = "put_le (4 * j) 4 b (?d n)"
  have lw: "length ?w = BSIZE" using j sizedD [OF sz, of n] by simp
  obtain s3 where s3: "log_write c (set_data c ?w s2) = Inr s3" "ftx p st {c} s3" "log_frame s2 s3" "b_blockno (bufs s3 c) = n"
    "ldisk s3 = (ldisk s2)(n := ?w)" "disk s3 = disk s2" "dwrites s3 = dwrites s2" "logged s3 = logs n (logged s2)"
    using ftx_write [OF S2(1) _ hc(1) L(2) [OF F(4) [OF N]] lw r2] by auto
  obtain s' where s': "brelse c s3 = Inr s'" "ftx p st {} s'" "quiet s3 s'" "logged s' = logged s3"
    using ftx_brelse [OF s3(2), of c] s3(4,8) by auto
  have lf: "log_frame s s'"
    using log_frame_trans [OF log_frame_trans [OF log_frame_trans [OF quiet_log_frame [OF c(3)] S2(2)] s3(3)] quiet_log_frame [OF s'(3)]] .
  have ld: "ldisk s' = linked ?x n j b ?d" using quietD(4) [OF s'(3)] s3(5) s2(3) by (simp add: linked_def)
  have mv: "fs_move p st ip s s'"
    using lf s'(2) quietD(2,3) [OF s'(3)] s3(6,7) S2(4,5) Q(2,3) log_frame_fs(2) [OF lf] by (simp add: fs_move_def)
  have "fs_file p st ip s'"
    using linked_file(1,3) [OF S(4,2,3) sz b(2) n j] s'(2) S(2) ld log_frame_fs [OF lf] by (simp add: fs_file_def)
  then show ?thesis
    using c(1,5) s2(1) s3(1) hc(2) s'(1) mv b(2) ld Q2(2) s'(4) s3(8) s2(4) log_frame_fs(2) [OF lf]
    by (intro exI [of _ c] exI [of _ s1] exI [of _ b] exI [of _ s2] exI [of _ s3] exI [of _ s']) simp
qed

text \<open>
  The blocks that a transaction has to log, or will, when it adds to a file: those logged already, the bitmap, and the indirect block,
  which counts as one block even if it does not exist yet.
\<close>

definition ind_slack :: "inode \<Rightarrow> nat" where
  "ind_slack I = (if i_addrs I ! NDIRECT = 0 then 1 else 0)"

definition pending :: "'a kfs_scheme \<Rightarrow> nat \<Rightarrow> u32 set" where
  "pending s ip = insert (sb_bmapstart (sb s)) (set (logged s) \<union> ({i_addrs (inodes s ip) ! NDIRECT} - {0}))"

definition fs_load :: "'a kfs_scheme \<Rightarrow> nat \<Rightarrow> nat" where
  "fs_load s ip = card (pending s ip) + ind_slack (inodes s ip)"

lemma finite_pending [simp]: "finite (pending s ip)"
  by (simp add: pending_def)

lemma card_insert_Suc: "finite A \<Longrightarrow> card (insert a A) \<le> card A + 1"
  by (simp add: card_insert_if)

definition bmapped :: "nat \<Rightarrow> u32 \<Rightarrow> nat \<Rightarrow> nat \<Rightarrow> u32 \<Rightarrow> 'a kfs_scheme \<Rightarrow> 'a kfs_scheme \<Rightarrow> bool" where
  "bmapped p st ip i a s s' \<longleftrightarrow> fs_move p st ip s s' \<and> fs_file p st ip s' \<and>
     a = faddr (ldisk s') (inodes s' ip) i \<and> a \<noteq> 0 \<and> grows (sb s) (ldisk s) (inodes s ip) (ldisk s') (inodes s' ip) \<and>
     (\<forall>off < MAXFILE * BSIZE. fbyte (ldisk s') (inodes s' ip) off = fbyte (ldisk s) (inodes s ip) off) \<and>
     card (insert a (pending s' ip)) + ind_slack (inodes s' ip) \<le> fs_load s ip + 1 \<and>
     card (free_blocks (ldisk s) (sb s)) + ind_slack (inodes s' ip) \<le> card (free_blocks (ldisk s') (sb s)) + ind_slack (inodes s ip) + 1"

lemma bmappedI:
  assumes "fs_move p st ip s s'" "fs_file p st ip s'" "a = faddr (ldisk s') (inodes s' ip) i" "a \<noteq> 0"
    "grows (sb s) (ldisk s) (inodes s ip) (ldisk s') (inodes s' ip)"
    "\<And>off. off < MAXFILE * BSIZE \<Longrightarrow> fbyte (ldisk s') (inodes s' ip) off = fbyte (ldisk s) (inodes s ip) off"
    "insert a (pending s' ip) = insert a (pending s ip)" "ind_slack (inodes s' ip) = ind_slack (inodes s ip)"
    "free_blocks (ldisk s) (sb s) = free_blocks (ldisk s') (sb s) \<or> free_blocks (ldisk s) (sb s) = insert a (free_blocks (ldisk s') (sb s))"
  shows "bmapped p st ip i a s s'"
proof -
  have "card (free_blocks (ldisk s) (sb s)) \<le> card (free_blocks (ldisk s') (sb s)) + 1"
    using assms(9) card_insert_Suc [of "free_blocks (ldisk s') (sb s)" a] by auto
  moreover have "card (insert a (pending s ip)) \<le> card (pending s ip) + 1" by (rule card_insert_Suc) simp
  ultimately show ?thesis using assms by (simp add: bmapped_def fs_load_def)
qed

lemma grows_refl: "file_ok x d I \<Longrightarrow> grows x d I d I"
  using file_okD(5) [of x d I] by (auto simp: grows_def)

lemma upd_addr_fold: "(\<lambda>x. x\<lparr>i_addrs := (i_addrs x)[k := b]\<rparr>) = upd_addr k b"
  by (simp add: fun_eq_iff upd_addr_def)

lemma free_blocks_insert: "b \<in> F \<Longrightarrow> F' = F - {b} \<Longrightarrow> F = insert b F'"
  by auto

text \<open>Three cases: the block is there; a direct block is allocated; an entry of the indirect block is filled.\<close>

lemma bmap_there:
  assumes ok: "fs_file p st ip s" and i: "unat bn < MAXFILE" "faddr (ldisk s) (inodes s ip) (unat bn) \<noteq> 0" and room: "fs_load s ip < LOGSIZE"
  shows "\<exists>a s'. bmap ip bn s = Inr (a, s') \<and> bmapped p st ip (unat bn) a s s'"
proof -
  note S = fs_fileD [OF ok]
  have "length (logged s) \<le> card (pending s ip)" unfolding ftxD(5) [OF S(1)] by (rule card_mono) (auto simp: pending_def)
  then have r: "length (logged s) < NBUF" using room by (simp add: fs_load_def)
  obtain s' where s': "bmap ip bn s = Inr (faddr (ldisk s) (inodes s ip) (unat bn), s')" "ftx p st {} s'" "quiet s s'"
    using bmap_mapped [OF S(1,4) i r] by blast
  note Q = quietD [OF s'(3)] and Q2 = quiet_fs [OF s'(3)]
  have "bmapped p st ip (unat bn) (faddr (ldisk s) (inodes s ip) (unat bn)) s s'"
    by (rule bmappedI) (use S s'(2) Q Q2 i(2) quiet_log_frame [OF s'(3)] quiet_logged [OF s'(3)] grows_refl [OF S(4)] in
      \<open>simp_all add: fs_move_def fs_file_def pending_def\<close>)
  with s'(1) show ?thesis by blast
qed

lemma bmap_direct:
  assumes ok: "fs_file p st ip s" and i: "unat bn < NDIRECT" "i_addrs (inodes s ip) ! unat bn = 0"
    and f: "free_blocks (ldisk s) (sb s) \<noteq> {}" and room: "fs_load s ip < LOGSIZE - 1"
  shows "\<exists>a s'. bmap ip bn s = Inr (a, s') \<and> bmapped p st ip (unat bn) a s s'"
proof -
  note S = fs_fileD [OF ok] and F = file_okD [OF fs_fileD(4) [OF ok]]
  have "card (insert (sb_bmapstart (sb s)) (set (logged s))) \<le> card (pending s ip)" by (rule card_mono) (auto simp: pending_def)
  then have r: "length (logs (sb_bmapstart (sb s)) (logged s)) < LOGSIZE - 1"
    using room length_logs_card [OF S(1), of "sb_bmapstart (sb s)"] by (simp add: fs_load_def)
  obtain b t s' where A: "balloc ROOTDEV s = Inr (b, t)" "inodes t = inodes s" "s' = upd_inode ip (upd_addr (unat bn) b) t"
    "fs_move p st ip s s'" "fs_file p st ip s'" "b \<in> free_blocks (ldisk s) (sb s)"
    "free_blocks (ldisk s') (sb s) = free_blocks (ldisk s) (sb s) - {b}" "inodes s' ip = upd_addr (unat bn) b (inodes s ip)"
    "logged s' = logs b (logs (sb_bmapstart (sb s)) (logged s))" "grows (sb s) (ldisk s) (inodes s ip) (ldisk s') (inodes s' ip)"
    "\<forall>off < MAXFILE * BSIZE. fbyte (ldisk s') (inodes s' ip) off = fbyte (ldisk s) (inodes s ip) off"
    using alloc_slot [OF ok _ i(2) f r] i(1) by (metis less_imp_le)
  have b: "b \<noteq> 0" using A(6) layoutD(5) [OF S(2)] by (auto simp: free_blocks_def)
  have ad: "i_addrs (inodes s' ip) = (i_addrs (inodes s ip))[unat bn := b]" using A(8) by (simp add: upd_addr_def)
  have "bmapped p st ip (unat bn) b s s'"
  proof (rule bmappedI [OF A(4,5) _ b A(10)])
    show "b = faddr (ldisk s') (inodes s' ip) (unat bn)" using i(1) ad F(2) by simp
    show "insert b (pending s' ip) = insert b (pending s ip)" "ind_slack (inodes s' ip) = ind_slack (inodes s ip)"
      using i(1) ad A(9) fs_moveD(4) [OF A(4)] by (auto simp: pending_def ind_slack_def)
  qed (use A(6,7,11) free_blocks_insert in auto)
  moreover have "bmap ip bn s = Inr (b, s')"
    using i F(1) A(1-3) by (simp add: bmap_def Let_def upd_addr_fold)
  ultimately show ?thesis by blast
qed

lemma bmap_entry:
  assumes ok: "fs_file p st ip s" and i: "NDIRECT \<le> unat bn" "unat bn < MAXFILE" "faddr (ldisk s) (inodes s ip) (unat bn) = 0"
    and n: "i_addrs (inodes s ip) ! NDIRECT \<noteq> 0"
    and f: "free_blocks (ldisk s) (sb s) \<noteq> {}" and room: "fs_load s ip + 1 < LOGSIZE - 1"
  shows "\<exists>a s'. bmap ip bn s = Inr (a, s') \<and> bmapped p st ip (unat bn) a s s'"
proof -
  let ?n = "i_addrs (inodes s ip) ! NDIRECT" let ?j = "unat bn - NDIRECT"
  note S = fs_fileD [OF ok] and F = file_okD [OF fs_fileD(4) [OF ok]]
  have j: "?j < NINDIRECT" "NDIRECT + ?j = unat bn" using i by auto
  have "card (insert (sb_bmapstart (sb s)) (set (logged s))) \<le> card (pending s ip)" by (rule card_mono) (auto simp: pending_def)
  then have r: "card (insert (sb_bmapstart (sb s)) (set (logged s))) + 1 < LOGSIZE - 1" using room by (simp add: fs_load_def)
  obtain c s1 b s2 s3 s' where A: "bread ROOTDEV ?n s = Inr (c, s1)" "inodes s1 = inodes s" "b_data (bufs s1 c) = ldisk s ?n"
    "balloc ROOTDEV s1 = Inr (b, s2)" "log_write c (set_data c (put_le (4 * ?j) 4 b (b_data (bufs s2 c))) s2) = Inr s3"
    "brelse c s3 = Inr s'" "fs_move p st ip s s'" "fs_file p st ip s'"
    "b \<in> free_blocks (ldisk s) (sb s)" "inodes s' = inodes s" "ldisk s' = linked (sb s) ?n ?j b (ldisk s)"
    "logged s' = logs ?n (logs b (logs (sb_bmapstart (sb s)) (logged s)))"
    using alloc_entry [OF ok refl n j(1) _ f r] i(3) j(2) by auto
  have fz: "faddr (ldisk s) (inodes s ip) (NDIRECT + ?j) = 0" using i(3) j(2) by simp
  note K = linked_file [OF S(4,2,3) txnD(7) [OF ftxD(1) [OF S(1)]] A(9) refl n j(1) fz]
  have b: "b \<noteq> 0" using A(9) layoutD(5) [OF S(2)] by (auto simp: free_blocks_def)
  have e: "get_le (4 * ?j) 4 (ldisk s ?n) = (0 :: u32)" using fz faddr_indirect [OF n j(1)] by simp
  have "bmapped p st ip (unat bn) b s s'"
  proof (rule bmappedI [OF A(7,8) _ b])
    show "b = faddr (ldisk s') (inodes s' ip) (unat bn)" using K(5) A(10,11) j(2) by simp
    show "grows (sb s) (ldisk s) (inodes s ip) (ldisk s') (inodes s' ip)" using K(2) A(10,11) by simp
    show "off < MAXFILE * BSIZE \<Longrightarrow> fbyte (ldisk s') (inodes s' ip) off = fbyte (ldisk s) (inodes s ip) off" for off using K(6) A(10,11) by simp
    show "insert b (pending s' ip) = insert b (pending s ip)" "ind_slack (inodes s' ip) = ind_slack (inodes s ip)"
      using n A(10,12) fs_moveD(4) [OF A(7)] by (auto simp: pending_def ind_slack_def)
    show "free_blocks (ldisk s) (sb s) = free_blocks (ldisk s') (sb s) \<or> free_blocks (ldisk s) (sb s) = insert b (free_blocks (ldisk s') (sb s))"
      using free_blocks_insert [OF A(9) K(4)] A(11) by simp
  qed
  moreover have "bmap ip bn s = Inr (b, s')"
    using i n F(1) A(1-6) e by (simp add: bmap_def Let_def)
  ultimately show ?thesis by blast
qed

text \<open>Allocating the indirect block first leads to the case before.\<close>

lemma bmap_indirect:
  assumes ok: "fs_file p st ip s" and i: "NDIRECT \<le> unat bn" "unat bn < MAXFILE" and n: "i_addrs (inodes s ip) ! NDIRECT = 0"
    and f: "2 \<le> card (free_blocks (ldisk s) (sb s))" and room: "fs_load s ip + 1 < LOGSIZE - 1"
  shows "\<exists>a s'. bmap ip bn s = Inr (a, s') \<and> bmapped p st ip (unat bn) a s s'"
proof -
  note S = fs_fileD [OF ok] and F = file_okD [OF fs_fileD(4) [OF ok]]
  have "card (insert (sb_bmapstart (sb s)) (set (logged s))) \<le> card (pending s ip)" by (rule card_mono) (auto simp: pending_def)
  then have r: "length (logs (sb_bmapstart (sb s)) (logged s)) < LOGSIZE - 1"
    using room length_logs_card [OF S(1), of "sb_bmapstart (sb s)"] by (simp add: fs_load_def)
  have ne: "free_blocks (ldisk s) (sb s) \<noteq> {}" using f by auto
  obtain b t s1 where A: "balloc ROOTDEV s = Inr (b, t)" "inodes t = inodes s" "s1 = upd_inode ip (upd_addr NDIRECT b) t"
    "fs_move p st ip s s1" "fs_file p st ip s1" "b \<in> free_blocks (ldisk s) (sb s)"
    "free_blocks (ldisk s1) (sb s) = free_blocks (ldisk s) (sb s) - {b}" "inodes s1 ip = upd_addr NDIRECT b (inodes s ip)"
    "logged s1 = logs b (logs (sb_bmapstart (sb s)) (logged s))" "grows (sb s) (ldisk s) (inodes s ip) (ldisk s1) (inodes s1 ip)"
    "\<forall>off < MAXFILE * BSIZE. fbyte (ldisk s1) (inodes s1 ip) off = fbyte (ldisk s) (inodes s ip) off"
    "\<forall>i \<le> MAXFILE. faddr (ldisk s1) (inodes s1 ip) i = ((faddr (ldisk s) (inodes s ip))(MAXFILE := b)) i"
    using alloc_slot [OF ok _ n ne r] by auto
  have b: "b \<noteq> 0" using A(6) layoutD(5) [OF S(2)] by (auto simp: free_blocks_def)
  have n1: "i_addrs (inodes s1 ip) ! NDIRECT = b" using A(8) F(2) by (simp add: upd_addr_def)
  have sb1: "sb s1 = sb s" using fs_moveD(4) [OF A(4)] .
  have "faddr (ldisk s) (inodes s ip) (unat bn) = 0" using i n by (simp add: faddr_def)
  then have z: "faddr (ldisk s1) (inodes s1 ip) (unat bn) = 0" using A(12) i by simp
  have c1: "card (free_blocks (ldisk s1) (sb s)) = card (free_blocks (ldisk s) (sb s)) - 1" using A(6,7) by simp
  have ne1: "free_blocks (ldisk s1) (sb s1) \<noteq> {}" using c1 f sb1 by auto
  have "pending s1 ip = insert b (pending s ip)" using n n1 b A(9) sb1 by (auto simp: pending_def)
  then have l1: "fs_load s1 ip \<le> fs_load s ip"
    using n n1 b card_insert_Suc [of "pending s ip" b] by (simp add: fs_load_def ind_slack_def)
  obtain a s' where B: "bmap ip bn s1 = Inr (a, s')" "bmapped p st ip (unat bn) a s1 s'"
    using bmap_entry [OF A(5) i z _ ne1] n1 b l1 room by auto
  have j: "unat bn - NDIRECT < NINDIRECT" using i by linarith
  have "bmap ip bn s = bmap ip bn s1"
    using i(1) j n n1 b F(1) A(1-3) by (simp add: bmap_def Let_def upd_addr_fold)
  moreover have "bmapped p st ip (unat bn) a s s'"
  proof -
    have k: "ind_slack (inodes s ip) = 1" "ind_slack (inodes s1 ip) = 0" using n n1 b by (simp_all add: ind_slack_def)
    note M = B(2) [unfolded bmapped_def sb1 k]
    have "card (insert a (pending s' ip)) + ind_slack (inodes s' ip) \<le> fs_load s ip + 1"
      "card (free_blocks (ldisk s) (sb s)) + ind_slack (inodes s' ip) \<le> card (free_blocks (ldisk s') (sb s)) + 1 + 1"
      using M l1 c1 by linarith+
    then show ?thesis
      using M grows_trans [OF A(10) _ S(4)] fs_move_trans [OF A(4)] A(11) k by (auto simp: bmapped_def)
  qed
  ultimately show ?thesis using B(1) by simp
qed

lemma bmap_spec:
  assumes ok: "fs_file p st ip s" and i: "unat bn < MAXFILE"
    and f: "1 + ind_slack (inodes s ip) \<le> card (free_blocks (ldisk s) (sb s))" and room: "fs_load s ip + 1 < LOGSIZE - 1"
  shows "\<exists>a s'. bmap ip bn s = Inr (a, s') \<and> bmapped p st ip (unat bn) a s s'"
proof (cases "faddr (ldisk s) (inodes s ip) (unat bn) = 0")
  case False
  then show ?thesis using bmap_there [OF ok i] room by simp
next
  case True
  have ne: "free_blocks (ldisk s) (sb s) \<noteq> {}" using f by auto
  show ?thesis
  proof (cases "unat bn < NDIRECT")
    case True
    then show ?thesis using bmap_direct [OF ok _ _ ne] room \<open>faddr _ _ _ = 0\<close> by simp
  next
    case False
    then show ?thesis
      using bmap_entry [OF ok _ i True _ ne room] bmap_indirect [OF ok _ i _ _ room] f
      by (cases "i_addrs (inodes s ip) ! NDIRECT = 0") (simp_all add: ind_slack_def)
  qed
qed

section \<open>\<open>readi\<close>\<close>

lemma block_split:
  fixes off k :: nat
  assumes "off mod BSIZE + k < BSIZE"
  shows "(off + k) div BSIZE = off div BSIZE" "(off + k) mod BSIZE = off mod BSIZE + k"
proof -
  have k: "k div BSIZE = 0" "k mod BSIZE = k" using assms by simp_all
  show "(off + k) div BSIZE = off div BSIZE" unfolding div_add1_eq [of off k BSIZE] k using assms by simp
  show "(off + k) mod BSIZE = off mod BSIZE + k" unfolding mod_add_left_eq [of off BSIZE k, symmetric] using assms by simp
qed

text \<open>A run of bytes of one block of a file.\<close>

lemma fbyte_run:
  assumes "length (d (faddr d I (off div BSIZE))) = BSIZE" "faddr d I (off div BSIZE) \<noteq> 0" "m \<le> BSIZE - off mod BSIZE"
  shows "get_bytes (off mod BSIZE) m (d (faddr d I (off div BSIZE))) = map (fbyte d I) [off..<off + m]"
proof (rule nth_equalityI)
  have mm: "off mod BSIZE + m \<le> BSIZE" using assms(3) mod_less_divisor [of BSIZE off] by linarith
  then show l: "length (get_bytes (off mod BSIZE) m (d (faddr d I (off div BSIZE)))) = length (map (fbyte d I) [off..<off + m])"
    using assms(1) by simp
  fix k
  assume "k < length (get_bytes (off mod BSIZE) m (d (faddr d I (off div BSIZE))))"
  with l have k: "k < m" by simp
  have "(off + k) div BSIZE = off div BSIZE" "(off + k) mod BSIZE = off mod BSIZE + k"
    using block_split [of off k] k mm by simp_all
  then show "get_bytes (off mod BSIZE) m (d (faddr d I (off div BSIZE))) ! k = map (fbyte d I) [off..<off + m] ! k"
    using assms k mm by (simp add: nth_get_bytes fbyte_def)
qed

lemma unat_div_BSIZE: "unat (off div 1024 :: u32) = unat off div BSIZE"
  by (simp add: unat_div)

lemma unat_plus_small: "unat off + m < 2 ^ 32 \<Longrightarrow> unat (off + of_nat m :: u32) = unat off + m"
  by (simp add: unat_plus_if' unsigned_of_nat take_bit_nat_eq_self)

text \<open>Into a variable of the kernel, \<open>readi\<close> copies the bytes of the file.\<close>

lemma readi_from_local:
  assumes "ftx p st {} s" "file_ok x (ldisk s) (inodes s ip)" "unat off + k \<le> unat (i_size (inodes s ip))" "length (logged s) < NBUF"
  shows "\<exists>s'. readi_from ip (Local xs) off k s = Inr (Local (xs @ map (fbyte (ldisk s) (inodes s ip)) [unat off..<unat off + k]), s') \<and>
    ftx p st {} s' \<and> quiet s s'"
  using assms
proof (induction k arbitrary: xs off s rule: less_induct)
  case (less k)
  let ?d = "ldisk s" and ?I = "inodes s ip" and ?o = "unat off"
  note F = file_okD [OF less.prems(2)]
  show ?case
  proof (cases "k = 0")
    case True
    then show ?thesis using less.prems(1) by (simp add: readi_from.simps quiet_def)
  next
    case False
    let ?m = "min k (BSIZE - ?o mod BSIZE)" let ?a = "faddr ?d ?I (?o div BSIZE)"
    have sz: "?o < unat (i_size ?I)" using less.prems(3) False by simp
    then have "?o div BSIZE < MAXFILE" using F(3) by (simp add: less_mult_imp_div_less)
    moreover have a: "?a \<noteq> 0" using F(7) [of "?o div BSIZE"] sz by (simp add: le_less_trans [OF div_times_less_eq_dividend])
    ultimately obtain s1 where s1: "bmap ip (off div 1024) s = Inr (?a, s1)" "ftx p st {} s1" "quiet s s1"
      using bmap_mapped [OF less.prems(1,2), of "off div 1024"] less.prems(4) by (auto simp: unat_div_BSIZE)
    note Q1 = quietD [OF s1(3)] quiet_fs [OF s1(3)] quiet_logged [OF s1(3)]
    obtain b s2 s3 where s3: "bread ROOTDEV ?a s1 = Inr (b, s2)" "b_data (bufs s2 b) = ?d ?a" "brelse b s2 = Inr s3" "ftx p st {} s3" "quiet s1 s3"
      using ftx_read [OF s1(2), of ?a] less.prems(4) Q1 by auto
    note Q3 = quietD [OF s3(5)] quiet_fs [OF s3(5)] quiet_logged [OF s3(5)]
    have m: "0 < ?m" "?m \<le> k" "?m \<le> BSIZE - ?o mod BSIZE" using False by auto
    have un: "unat (off + of_nat ?m) = ?o + ?m" using less.prems(3) F(3) m(2) by (intro unat_plus_small) simp
    have run: "get_bytes (?o mod BSIZE) ?m (?d ?a) = map (fbyte ?d ?I) [?o..<?o + ?m]"
      by (rule fbyte_run [OF ftxD(4) [OF less.prems(1)] a m(3)])
    have e: "ldisk s3 = ?d" "inodes s3 = inodes s" "logged s3 = logged s" using Q1 Q3 by simp_all
    have pre: "k - ?m < k" "file_ok x (ldisk s3) (inodes s3 ip)" "unat (off + of_nat ?m) + (k - ?m) \<le> unat (i_size (inodes s3 ip))"
      "length (logged s3) < NBUF" using m less.prems(2-4) un unfolding e by simp_all
    from less.IH [OF pre(1) s3(4) pre(2-4), of "xs @ map (fbyte ?d ?I) [?o..<?o + ?m]"] obtain s' where
      s': "readi_from ip (Local (xs @ map (fbyte ?d ?I) [?o..<?o + ?m])) (off + of_nat ?m) (k - ?m) s3 =
        Inr (Local ((xs @ map (fbyte ?d ?I) [?o..<?o + ?m]) @ map (fbyte ?d ?I) [?o + ?m..<?o + ?m + (k - ?m)]), s')"
        "ftx p st {} s'" "quiet s3 s'" unfolding e un by blast
    have app: "[?o..<?o + k] = [?o..<?o + ?m] @ [?o + ?m..<?o + ?m + (k - ?m)]" using m upt_add_eq_append [of ?o "?o + ?m" "k - ?m"] by simp
    have "readi_from ip (Local xs) off k s = Inr (Local (xs @ map (fbyte ?d ?I) [?o..<?o + k]), s')"
      using False s1(1) s3(1-3) s'(1) F(1) run Q1 app
      by (subst readi_from.simps) (simp add: put_to_def Let_def)
    then show ?thesis using s'(2) quiet_trans [OF quiet_trans [OF s1(3) s3(5)] s'(3)] by blast
  qed
qed

lemma fdata_slice:
  "off + k \<le> unat (i_size I) \<Longrightarrow> map (fbyte d I) [off..<off + k] = take k (drop off (fdata d I))"
  by (simp add: fdata_def take_map drop_map)

lemma readi_spec:
  assumes "ftx p st {} s" "file_ok x (ldisk s) (inodes s ip)" "length (logged s) < NBUF"
    and o: "off \<le> i_size (inodes s ip)" "off \<le> off + n"
  shows "\<exists>s'. readi ip (Local xs) off n s =
      Inr (of_nat (min (unat n) (unat (i_size (inodes s ip)) - unat off)),
        Local (xs @ take (unat n) (drop (unat off) (fdata (ldisk s) (inodes s ip)))), s') \<and>
    ftx p st {} s' \<and> quiet s s'"
proof -
  let ?I = "inodes s ip"
  let ?n = "if off + n > i_size ?I then i_size ?I - off else n"
  have w: "unat (off + n) = unat off + unat n" using o(2) by (simp add: unat_plus_simple)
  have so: "unat (i_size ?I - off) = unat (i_size ?I) - unat off" using o(1) by (simp add: unat_sub)
  have n: "unat ?n = min (unat n) (unat (i_size ?I) - unat off)" using w so by (auto simp: word_less_nat_alt)
  have k: "unat off + unat ?n \<le> unat (i_size ?I)" using n o(1) by (simp add: word_le_nat_alt)
  have "length (drop (unat off) (fdata (ldisk s) ?I)) = unat (i_size ?I) - unat off" by (simp add: fdata_def)
  then have e: "take (unat ?n) (drop (unat off) (fdata (ldisk s) ?I)) = take (unat n) (drop (unat off) (fdata (ldisk s) ?I))"
    unfolding n by (simp add: min_def)
  obtain s' where s': "readi_from ip (Local xs) off (unat ?n) s =
      Inr (Local (xs @ map (fbyte (ldisk s) ?I) [unat off..<unat off + unat ?n]), s')" "ftx p st {} s'" "quiet s s'"
    using readi_from_local [OF assms(1,2) k assms(3)] by blast
  have "?n = of_nat (min (unat n) (unat (i_size ?I) - unat off))" unfolding n [symmetric] by simp
  then show ?thesis
    using s' o e fdata_slice [OF k] by (auto simp: readi_def Let_def not_less)
qed

section \<open>\<open>iupdate\<close>\<close>

text \<open>An inode copied to its place on the disk and read back.\<close>

lemma length_le_concat: "length (concat (map (le_bytes 4) as)) = 4 * length as"
  by (induction as) simp_all

lemma nth_le_concat:
  "i < length as \<Longrightarrow> get_bytes (4 * i) 4 (concat (map (le_bytes 4) as)) = le_bytes 4 (as ! i)"
proof (induction as arbitrary: i)
  case (Cons a as)
  then show ?case by (cases i) (simp_all add: get_bytes_def)
qed simp

lemma get_bytes_put_bytes_inner:
  assumes "off + length vs \<le> length bs" "k + n \<le> length vs"
  shows "get_bytes (off + k) n (put_bytes off vs bs) = get_bytes k n vs"
  using assms by (simp add: get_bytes_def put_bytes_def drop_append take_append)

lemma get_put_addrs:
  assumes "off + 4 * length as \<le> length d" "i < length as"
  shows "get_le (off + 4 * i) 4 (put_addrs off as d) = as ! i"
proof -
  have "get_bytes (off + 4 * i) 4 (put_addrs off as d) = le_bytes 4 (as ! i)"
    using assms get_bytes_put_bytes_inner [of off "concat (map (le_bytes 4) as)" d "4 * i" 4] nth_le_concat [OF assms(2)]
    by (simp add: put_addrs_def length_le_concat)
  then show ?thesis by (simp add: get_le_def le_word_le_bytes)
qed

lemma dinode_off_le: "dinode_off n + 64 \<le> BSIZE"
proof -
  have "unat n mod IPB \<le> 15" using mod_less_divisor [of IPB "unat n"] by simp
  then show ?thesis by (simp add: dinode_off_def)
qed

lemma length_put_dinode [simp]: "length d = BSIZE \<Longrightarrow> length (i_addrs I) = NDIRECT + 1 \<Longrightarrow> length (put_dinode I d) = BSIZE"
  using dinode_off_le [of "i_inum I"] by (simp add: put_dinode_def put_addrs_def Let_def length_le_concat)

definition same_dinode :: "inode \<Rightarrow> inode \<Rightarrow> bool" where
  "same_dinode I J \<longleftrightarrow> i_type I = i_type J \<and> i_major I = i_major J \<and> i_minor I = i_minor J \<and> i_nlink I = i_nlink J \<and>
     i_size I = i_size J \<and> i_addrs I = i_addrs J"

lemma get_put_addrs_before:
  "off' + n \<le> off \<Longrightarrow> off + 4 * length as \<le> length d \<Longrightarrow> get_le off' n (put_addrs off as d) = get_le off' n d"
  by (simp add: put_addrs_def get_le_def get_put_bytes_other length_le_concat)

lemma get_put_dinode:
  assumes "length d = BSIZE" "length (i_addrs I) = NDIRECT + 1" "i_inum J = i_inum I"
  shows "same_dinode (get_dinode (put_dinode I d) J) I"
proof -
  let ?o = "dinode_off (i_inum I)"
  have o: "?o + 64 \<le> BSIZE" by (rule dinode_off_le)
  have a: "map (\<lambda>i. get_le (?o + 12 + 4 * i) 4 (put_dinode I d)) [0..<NDIRECT + 1] = i_addrs I"
    by (rule nth_equalityI) (use assms o in \<open>simp_all add: put_dinode_def Let_def get_put_addrs\<close>)
  show ?thesis
    using assms o a by (simp add: same_dinode_def get_dinode_def put_dinode_def Let_def get_put_addrs_before get_put_le_same get_put_le_other)
qed

text \<open>The bytes of the other inodes of the block stay.\<close>

lemma put_dinode_other:
  assumes "length d = BSIZE" "length (i_addrs I) = NDIRECT + 1" "unat n mod IPB \<noteq> unat (i_inum I) mod IPB"
  shows "get_bytes (dinode_off n) 64 (put_dinode I d) = get_bytes (dinode_off n) 64 d"
proof -
  have o: "dinode_off n + 64 \<le> dinode_off (i_inum I) \<or> dinode_off (i_inum I) + 64 \<le> dinode_off n"
    using assms(3) by (auto simp: dinode_off_def)
  then show ?thesis
    using assms(1,2) dinode_off_le [of n] dinode_off_le [of "i_inum I"]
    by (auto simp: put_dinode_def put_addrs_def put_le_def Let_def get_put_bytes_other length_le_concat)
qed

lemma IBLOCK_unat:
  assumes "layout st x" "unat n < unat (sb_ninodes x)"
  shows "unat (sb_inodestart x) \<le> unat (IBLOCK n x)" "unat (IBLOCK n x) < unat (sb_bmapstart x)" "IBLOCK n x \<notin> log_area st"
    "\<not> data_block x (IBLOCK n x)"
proof -
  have d: "unat (n div 16) = unat n div IPB" by (simp add: unat_div)
  have le: "unat n div IPB \<le> unat (sb_ninodes x) div IPB" using assms(2) by (intro div_le_mono) simp
  have "unat (IBLOCK n x) = unat n div IPB + unat (sb_inodestart x)"
    unfolding IBLOCK_def using assms(1) le d by (subst unat_plus_if') (auto simp: layout_def)
  then show "unat (sb_inodestart x) \<le> unat (IBLOCK n x)" "unat (IBLOCK n x) < unat (sb_bmapstart x)" "IBLOCK n x \<notin> log_area st"
    "\<not> data_block x (IBLOCK n x)"
    using assms(1) le by (auto simp: layout_def log_area_def data_block_def)
qed

lemma iupdate_spec:
  assumes ok: "fs_file p st ip s" and i: "unat (i_inum (inodes s ip)) < unat (sb_ninodes (sb s))" and room: "length (logged s) < LOGSIZE - 1"
  shows "\<exists>s'. iupdate ip s = Inr s' \<and> fs_step p st {} s s' \<and> fs_file p st ip s' \<and>
    logged s' = logs (IBLOCK (i_inum (inodes s ip)) (sb s)) (logged s) \<and>
    ldisk s' = (ldisk s)(IBLOCK (i_inum (inodes s ip)) (sb s) := put_dinode (inodes s ip) (ldisk s (IBLOCK (i_inum (inodes s ip)) (sb s))))"
proof -
  let ?I = "inodes s ip" let ?n = "IBLOCK (i_inum ?I) (sb s)" let ?d = "put_dinode ?I (ldisk s ?n)"
  note S = fs_fileD [OF ok] and F = file_okD [OF fs_fileD(4) [OF ok]] and N = IBLOCK_unat [OF fs_fileD(2) [OF ok] i]
  have d: "length ?d = BSIZE" using ftxD(4) [OF S(1)] F(2) by simp
  obtain b s1 s2 s' where *: "bread ROOTDEV ?n s = Inr (b, s1)" "quiet s s1" "b_data (bufs s1 b) = ldisk s ?n"
    "log_write b (set_data b ?d s1) = Inr s2" "brelse b s2 = Inr s'" "ftx p st {} s'" "log_frame s s'" "held_same {} s s'"
    "ldisk s' = (ldisk s)(?n := ?d)" "disk s' = disk s" "dwrites s' = dwrites s" "logged s' = logs ?n (logged s)"
    using ftx_modify [OF S(1) _ N(3) d room] room by auto
  have fs: "fs_step p st {} s s'" using * by (simp add: fs_step_def)
  have "?n \<noteq> sb_bmapstart (sb s)" using N(2) by auto
  then have u: "used (ldisk s') (sb s) c = used (ldisk s) (sb s) c" if "unat c < BPB" for c
    using *(9) that by (intro used_cong) auto
  have nb: "?n \<notin> iblocks (ldisk s) ?I" using F(4) N(4) by blast
  have fa: "faddr (ldisk s') ?I = faddr (ldisk s) ?I"
    using nb iblocksI [of MAXFILE "ldisk s" ?I] *(9) by (intro faddr_cong) auto
  then have "iblocks (ldisk s') ?I = iblocks (ldisk s) ?I" by (simp add: iblocks_def)
  then have "file_ok (sb s) (ldisk s') ?I"
    using S(4) fa u layoutD(6) [OF S(2)] F(4,5) by (auto simp: file_ok_def)
  moreover have "meta_used (ldisk s') (sb s)" using S(2,3) u by (auto simp: meta_used_def layout_def)
  ultimately have "fs_file p st ip s'" using S(2) *(6) fs_stepD(6,7) [OF fs] by (simp add: fs_file_def)
  then show ?thesis using * fs F(1) quiet_fs [OF *(2)] by (simp add: iupdate_def)
qed

end
