(* ===== verification/Iwrite.thy ===== *)
theory Iwrite
  imports Inodes
begin

text \<open>
  \<open>writei\<close> of kernel/fs.c, block by block, and what it does to a file: the bytes of the range written change, the
  size grows if the range ends behind it, the inode is copied to the disk, and no block of another file changes.
\<close>

section \<open>One block\<close>

lemma data_write:
  assumes ok: "file_ok x d I" and l: "layout st x" and i: "i < MAXFILE" "faddr d I i \<noteq> 0"
  shows "faddr (d(faddr d I i := w)) I = faddr d I" "file_ok x (d(faddr d I i := w)) I" "meta_used d x \<Longrightarrow> meta_used (d(faddr d I i := w)) x"
    "grows x d I (d(faddr d I i := w)) I" "free_blocks (d(faddr d I i := w)) x = free_blocks d x"
    "off < MAXFILE * BSIZE \<Longrightarrow> fbyte (d(faddr d I i := w)) I off = (if off div BSIZE = i then w ! (off mod BSIZE) else fbyte d I off)"
proof -
  note L = layoutD [OF l] and F = file_okD [OF ok]
  let ?a = "faddr d I i" let ?d = "d(?a := w)"
  have a: "?a \<in> iblocks d I" using iblocksI i by simp
  have n: "?a \<noteq> sb_bmapstart x" "?a \<noteq> i_addrs I ! NDIRECT"
    using L(4) [OF F(4) [OF a]] F(6) [of i MAXFILE] i by auto
  show fa: "faddr ?d I = faddr d I" using n(2) by (intro faddr_cong) auto
  then have ib: "iblocks ?d I = iblocks d I" by (simp add: iblocks_def)
  have u: "used ?d x c = used d x c" if "unat c < BPB" for c using n(1) that by (intro used_cong) auto
  show "file_ok x ?d I" using ok fa ib u L(6) F(4) by (auto simp: file_ok_def)
  show "meta_used d x \<Longrightarrow> meta_used ?d x" using u l by (auto simp: meta_used_def layout_def)
  show "grows x d I ?d I" using fa ib u L(6) F(5) a by (auto simp: grows_def)
  show "free_blocks ?d x = free_blocks d x" using u L(6) by (auto simp: free_blocks_def)
  show "fbyte ?d I off = (if off div BSIZE = i then w ! (off mod BSIZE) else fbyte d I off)" if "off < MAXFILE * BSIZE"
  proof -
    have "off div BSIZE < MAXFILE" using that by (simp add: less_mult_imp_div_less)
    then have "off div BSIZE = i" if "faddr d I (off div BSIZE) = ?a" using F(6) [OF i(2) that [symmetric]] i(1) by simp
    then have "faddr d I (off div BSIZE) = ?a \<longleftrightarrow> off div BSIZE = i" by blast
    then show ?thesis using fa i(2) by (simp add: fbyte_def Let_def)
  qed
qed

text \<open>The bytes \<open>vs\<close> put into the file at offset \<open>off\<close>.\<close>

definition fput :: "nat \<Rightarrow> u8 list \<Rightarrow> (nat \<Rightarrow> u8) \<Rightarrow> nat \<Rightarrow> u8" where
  "fput off vs f o' = (if off \<le> o' \<and> o' < off + length vs then vs ! (o' - off) else f o')"

lemma fput_Nil [simp]: "fput off [] f = f"
  by (auto simp: fput_def fun_eq_iff)

lemma fput_cong: "f o' = g o' \<Longrightarrow> fput off vs f o' = fput off vs g o'"
  by (simp add: fput_def)

lemma fput_append: "fput (off + length us) vs (fput off us f) = fput off (us @ vs) f"
  by (auto simp: fput_def fun_eq_iff nth_append)

lemma fput_block:
  assumes "off mod BSIZE + length vs \<le> BSIZE" "length w = BSIZE"
    and "\<And>o'. o' div BSIZE = off div BSIZE \<Longrightarrow> f o' = w ! (o' mod BSIZE)"
  shows "(if o' div BSIZE = off div BSIZE then put_bytes (off mod BSIZE) vs w ! (o' mod BSIZE) else f o') = fput off vs f o'"
proof (cases "o' div BSIZE = off div BSIZE")
  case True
  have "o' = off div BSIZE * BSIZE + o' mod BSIZE" "off = off div BSIZE * BSIZE + off mod BSIZE"
    using True by (metis div_mult_mod_eq)+
  then have "off \<le> o' \<longleftrightarrow> off mod BSIZE \<le> o' mod BSIZE" "o' < off + length vs \<longleftrightarrow> o' mod BSIZE < off mod BSIZE + length vs"
    "o' - off = o' mod BSIZE - off mod BSIZE" by linarith+
  then show ?thesis using True assms by (simp add: fput_def nth_put_bytes)
next
  case False
  have "\<not> (off \<le> o' \<and> o' < off + length vs)"
  proof
    assume "off \<le> o' \<and> o' < off + length vs"
    then have "off mod BSIZE + (o' - off) < BSIZE" "off + (o' - off) = o'" using assms(1) by linarith+
    from block_split(1) [OF this(1)] this(2) False show False by simp
  qed
  then show ?thesis using False by (auto simp: fput_def)
qed

lemma block_index:
  assumes "off mod BSIZE + n \<le> BSIZE" "off < (j + 1) * BSIZE" "j * BSIZE < off + n"
  shows "j = off div BSIZE"
proof -
  define q r where qr: "q = off div BSIZE" "r = off mod BSIZE"
  then have o: "off = q * BSIZE + r" by simp
  have "q * BSIZE < (j + 1) * BSIZE" using assms(2) o by linarith
  moreover have "j * BSIZE < (q + 1) * BSIZE"
  proof -
    have "j * BSIZE < q * BSIZE + (r + n)" using assms(3) unfolding o by (simp only: add.assoc)
    also have "\<dots> \<le> q * BSIZE + BSIZE" using assms(1) unfolding qr(2) by (rule add_left_mono)
    finally show ?thesis by simp
  qed
  ultimately show ?thesis unfolding qr(1) [symmetric] mult_less_cancel2 by linarith
qed

section \<open>The loop\<close>

definition nblocks :: "nat \<Rightarrow> nat \<Rightarrow> nat" where
  "nblocks off k = (if k = 0 then 0 else (off + k - 1) div BSIZE + 1 - off div BSIZE)"

lemma nblocks_0: "nblocks off 0 = 0"
  by (simp add: nblocks_def)

lemma nblocks_step:
  assumes "0 < k" "m = min k (BSIZE - off mod BSIZE)"
  shows "nblocks (off + m) (k - m) + 1 = nblocks off k"
proof (cases "k - m = 0")
  case True
  then have "m = k" "off mod BSIZE + (k - 1) < BSIZE" using assms mod_less_divisor [of BSIZE off] by auto
  then show ?thesis using assms(1) block_split(1) [of off "k - 1"] by (simp add: nblocks_def)
next
  case False
  then have m: "m = BSIZE - off mod BSIZE" "m < k" using assms(2) by auto
  define q r where qr: "q = off div BSIZE" "r = off mod BSIZE"
  then have "off = q * BSIZE + r" "r < BSIZE" by simp_all
  then have "off + m = (off div BSIZE + 1) * BSIZE" unfolding qr(1) [symmetric] m(1) qr(2) [symmetric] by simp
  then have d: "(off + m) div BSIZE = off div BSIZE + 1" by simp
  have "(off + m) div BSIZE \<le> (off + k - 1) div BSIZE" using m(2) by (intro div_le_mono) simp
  moreover have "off + m + (k - m) - 1 = off + k - 1" using m(2) by simp
  ultimately show ?thesis using d False assms(1) unfolding nblocks_def by (simp add: Suc_diff_le Suc_le_eq less_imp_le)
qed

definition wrote :: "nat \<Rightarrow> u32 \<Rightarrow> nat \<Rightarrow> nat \<Rightarrow> u8 list \<Rightarrow> nat \<Rightarrow> 'a kfs_scheme \<Rightarrow> 'a kfs_scheme \<Rightarrow> bool" where
  "wrote p st ip off vs nb s s' \<longleftrightarrow> fs_move p st ip s s' \<and> fs_file p st ip s' \<and>
     grows (sb s) (ldisk s) (inodes s ip) (ldisk s') (inodes s' ip) \<and>
     (\<forall>i < MAXFILE. off < (i + 1) * BSIZE \<longrightarrow> i * BSIZE < off + length vs \<longrightarrow> faddr (ldisk s') (inodes s' ip) i \<noteq> 0) \<and>
     (\<forall>o' < MAXFILE * BSIZE. fbyte (ldisk s') (inodes s' ip) o' = fput off vs (fbyte (ldisk s) (inodes s ip)) o') \<and>
     fs_load s' ip \<le> fs_load s ip + nb \<and>
     card (free_blocks (ldisk s) (sb s)) + ind_slack (inodes s' ip) \<le> card (free_blocks (ldisk s') (sb s)) + ind_slack (inodes s ip) + nb"

lemma wroteD:
  assumes "wrote p st ip off vs nb s s'"
  shows "fs_move p st ip s s'" "fs_file p st ip s'" "grows (sb s) (ldisk s) (inodes s ip) (ldisk s') (inodes s' ip)"
    "i < MAXFILE \<Longrightarrow> off < (i + 1) * BSIZE \<Longrightarrow> i * BSIZE < off + length vs \<Longrightarrow> faddr (ldisk s') (inodes s' ip) i \<noteq> 0"
    "o' < MAXFILE * BSIZE \<Longrightarrow> fbyte (ldisk s') (inodes s' ip) o' = fput off vs (fbyte (ldisk s) (inodes s ip)) o'"
    "fs_load s' ip \<le> fs_load s ip + nb"
    "card (free_blocks (ldisk s) (sb s)) + ind_slack (inodes s' ip) \<le> card (free_blocks (ldisk s') (sb s)) + ind_slack (inodes s ip) + nb"
  using assms unfolding wrote_def by blast+

lemma wrote_trans:
  assumes 1: "wrote p st ip off us m s t" and 2: "wrote p st ip (off + length us) vs n t u" and ok: "fs_file p st ip s"
  shows "wrote p st ip off (us @ vs) (m + n) s u"
proof -
  note A = wroteD [OF 1] and B = wroteD [OF 2] and sb = fs_moveD(4) [OF wroteD(1) [OF 1]]
  have g: "grows (sb s) (ldisk s) (inodes s ip) (ldisk u) (inodes u ip)"
    using grows_trans [OF A(3) _ fs_fileD(4) [OF ok]] B(3) sb by simp
  have b: "fbyte (ldisk u) (inodes u ip) o' = fput off (us @ vs) (fbyte (ldisk s) (inodes s ip)) o'" if "o' < MAXFILE * BSIZE" for o'
    using B(5) [OF that] fput_cong [where f = "fbyte (ldisk t) (inodes t ip)" and g = "fput off us (fbyte (ldisk s) (inodes s ip))" and
        off = "off + length us" and vs = vs, OF A(5) [OF that]]
      fun_cong [OF fput_append [of off us vs "fbyte (ldisk s) (inodes s ip)"], of o'] by simp
  have f: "faddr (ldisk u) (inodes u ip) i \<noteq> 0" if "i < MAXFILE" "off < (i + 1) * BSIZE" "i * BSIZE < off + length (us @ vs)" for i
  proof (cases "i * BSIZE < off + length us")
    case True
    then show ?thesis using A(4) [OF that(1,2)] growsD(2) [OF B(3), of i] that(1) by simp
  next
    case False
    then show ?thesis using B(4) [of i] that by simp
  qed
  show ?thesis
    using fs_move_trans [OF A(1) B(1)] B(2) g f b A(6,7) B(6,7) sb unfolding wrote_def by auto
qed

text \<open>One round of the loop: map the block, read it, put the bytes in, log it, release it.\<close>

lemma writei_block:
  assumes ok: "fs_file p st ip s" and o: "unat off + length vs \<le> MAXFILE * BSIZE" "vs \<noteq> []" "unat off mod BSIZE + length vs \<le> BSIZE"
    and f: "1 + ind_slack (inodes s ip) \<le> card (free_blocks (ldisk s) (sb s))" and room: "fs_load s ip + 1 < LOGSIZE - 1"
  shows "\<exists>a s1 b s2 s3 s'. bmap ip (off div 1024) s = Inr (a, s1) \<and> i_dev (inodes s1 ip) = ROOTDEV \<and> bread ROOTDEV a s1 = Inr (b, s2) \<and>
    log_write b (set_data b (put_bytes (unat off mod BSIZE) vs (b_data (bufs s2 b))) s2) = Inr s3 \<and> brelse b s3 = Inr s' \<and>
    wrote p st ip (unat off) vs 1 s s'"
proof -
  let ?o = "unat off" let ?i = "?o div BSIZE"
  have i: "?i < MAXFILE" using o(1,2) by (intro less_mult_imp_div_less) (cases vs, simp_all)
  obtain a s1 where s1: "bmap ip (off div 1024) s = Inr (a, s1)" "bmapped p st ip ?i a s s1"
    using bmap_spec [OF ok _ f room, of "off div 1024"] i by (auto simp: unat_div_BSIZE)
  from s1(2) have M: "fs_move p st ip s s1" "fs_file p st ip s1" "a = faddr (ldisk s1) (inodes s1 ip) ?i" "a \<noteq> 0"
    "grows (sb s) (ldisk s) (inodes s ip) (ldisk s1) (inodes s1 ip)"
    "\<And>o'. o' < MAXFILE * BSIZE \<Longrightarrow> fbyte (ldisk s1) (inodes s1 ip) o' = fbyte (ldisk s) (inodes s ip) o'"
    "card (insert a (pending s1 ip)) + ind_slack (inodes s1 ip) \<le> fs_load s ip + 1"
    "card (free_blocks (ldisk s) (sb s)) + ind_slack (inodes s1 ip) \<le> card (free_blocks (ldisk s1) (sb s)) + ind_slack (inodes s ip) + 1"
    unfolding bmapped_def by blast+
  note S = fs_fileD [OF M(2)] and sb1 = fs_moveD(4) [OF M(1)]
  have an: "faddr (ldisk s1) (inodes s1 ip) ?i \<noteq> 0" using M(3,4) by simp
  have "a \<in> iblocks (ldisk s1) (inodes s1 ip)" using iblocksI [of ?i] M(3) an i by simp
  then have al: "a \<notin> log_area st" using layoutD(2) [OF S(2)] file_okD(4) [OF S(4)] by blast
  let ?w = "put_bytes (?o mod BSIZE) vs (ldisk s1 a)"
  have lw: "length (ldisk s1 a) = BSIZE" "length ?w = BSIZE" using ftxD(4) [OF S(1), of a] o(3) by simp_all
  have "card (set (logged s1)) \<le> card (insert a (pending s1 ip))" by (rule card_mono) (auto simp: pending_def)
  then have r: "length (logged s1) < LOGSIZE - 1" using M(7) room ftxD(5) [OF S(1)] by linarith
  obtain b s2 s3 s' where W: "bread ROOTDEV a s1 = Inr (b, s2)" "b_data (bufs s2 b) = ldisk s1 a" "log_write b (set_data b ?w s2) = Inr s3"
    "brelse b s3 = Inr s'" "ftx p st {} s'" "log_frame s1 s'" "held_same {} s1 s'" "ldisk s' = (ldisk s1)(a := ?w)" "disk s' = disk s1"
    "dwrites s' = dwrites s1" "logged s' = logs a (logged s1)"
    using ftx_modify [OF S(1) _ al lw(2) r] r by auto
  have st: "fs_step p st {} s1 s'" using W by (simp add: fs_step_def)
  note T = fs_stepD [OF st]
  note D = data_write [where w = ?w, OF S(4,2) i an, folded M(3)]
  have "wrote p st ip ?o vs 1 s s'"
    unfolding wrote_def
  proof (intro conjI allI impI)
    show "fs_move p st ip s s'" using fs_move_trans [OF M(1) fs_move_step [OF st]] .
    show "fs_file p st ip s'" using D(2,3) S(2,3) T(1,6,7) W(8) by (simp add: fs_file_def)
    show "grows (sb s) (ldisk s) (inodes s ip) (ldisk s') (inodes s' ip)"
      using grows_trans [OF M(5) _ fs_fileD(4) [OF ok]] D(4) T(7) W(8) sb1 by simp
    show "faddr (ldisk s') (inodes s' ip) j \<noteq> 0" if "?o < (j + 1) * BSIZE" "j * BSIZE < ?o + length vs" for j
    proof -
      have "j = ?i" using block_index [OF o(3) that] .
      then show ?thesis using D(1) an T(7) W(8) by simp
    qed
    show "fbyte (ldisk s') (inodes s' ip) o' = fput ?o vs (fbyte (ldisk s) (inodes s ip)) o'" if "o' < MAXFILE * BSIZE" for o'
    proof -
      have "fbyte (ldisk s') (inodes s' ip) o' = fput ?o vs (fbyte (ldisk s1) (inodes s1 ip)) o'"
        using D(6) [OF that] T(7) W(8) fput_block [OF o(3) lw(1), of "fbyte (ldisk s1) (inodes s1 ip)" o'] M(3) an
        by (simp add: fbyte_def)
      then show ?thesis using M(6) [OF that] by (simp add: fput_def)
    qed
    have "pending s' ip = insert a (pending s1 ip)" using W(11) T(6,7) by (auto simp: pending_def)
    then show "fs_load s' ip \<le> fs_load s ip + 1" using M(7) T(7) by (simp add: fs_load_def)
    show "card (free_blocks (ldisk s) (sb s)) + ind_slack (inodes s' ip) \<le> card (free_blocks (ldisk s') (sb s)) + ind_slack (inodes s ip) + 1"
      using M(8) D(5) W(8) T(7) sb1 by simp
  qed
  moreover have "i_dev (inodes s1 ip) = ROOTDEV" using file_okD(1) [OF S(4)] .
  ultimately show ?thesis using s1(1) W(1-4) by (intro exI [of _ a] exI [of _ s1] exI [of _ b] exI [of _ s2] exI [of _ s3] exI [of _ s']) simp
qed

lemma writei_from_spec:
  assumes "fs_file p st ip s" "k \<le> length vs" "unat off + k \<le> MAXFILE * BSIZE"
    "nblocks (unat off) k + ind_slack (inodes s ip) \<le> card (free_blocks (ldisk s) (sb s))" "fs_load s ip + nblocks (unat off) k < LOGSIZE - 1"
  shows "\<exists>s'. writei_from ip (Local vs) off k s = Inr (off + of_nat k, s') \<and> (k = 0 \<longrightarrow> s' = s) \<and>
    (0 < k \<longrightarrow> wrote p st ip (unat off) (take k vs) (nblocks (unat off) k) s s')"
  using assms
proof (induction k arbitrary: vs off s rule: less_induct)
  case (less k)
  let ?o = "unat off" let ?m = "min k (BSIZE - ?o mod BSIZE)"
  show ?case
  proof (cases "k = 0")
    case True
    then show ?thesis by (simp add: writei_from.simps)
  next
    case False
    then have k: "0 < k" by simp
    have ob: "?o mod BSIZE < BSIZE" by simp
    have m: "0 < ?m" "?m \<le> k" "?m \<le> BSIZE - ?o mod BSIZE" using k ob by auto
    have nb: "nblocks (?o + ?m) (k - ?m) + 1 = nblocks ?o k" by (rule nblocks_step [OF k refl])
    let ?us = "take ?m vs"
    have us: "length ?us = ?m" using m(2) less.prems(2) by simp
    have ne: "?us \<noteq> []" using us m(1) by (metis length_greater_0_conv)
    have pre: "?o + length ?us \<le> MAXFILE * BSIZE" "?o mod BSIZE + length ?us \<le> BSIZE"
      "1 + ind_slack (inodes s ip) \<le> card (free_blocks (ldisk s) (sb s))" "fs_load s ip + 1 < LOGSIZE - 1"
      using m less.prems(3-5) nb ob unfolding us by linarith+
    obtain a s1 b s2 s3 s4 where W: "bmap ip (off div 1024) s = Inr (a, s1)" "i_dev (inodes s1 ip) = ROOTDEV" "bread ROOTDEV a s1 = Inr (b, s2)"
      "log_write b (set_data b (put_bytes (?o mod BSIZE) ?us (b_data (bufs s2 b))) s2) = Inr s3" "brelse b s3 = Inr s4"
      "wrote p st ip ?o ?us 1 s s4"
      using writei_block [OF less.prems(1) pre(1) ne pre(2-4)] by blast
    note w = wroteD [OF W(6)]
    have un: "unat (off + of_nat ?m) = ?o + ?m" using less.prems(3) m(2) by (intro unat_plus_small) simp
    have sb4: "sb s4 = sb s" by (rule fs_moveD(4) [OF w(1)])
    have n1: "k - ?m < k" using k m(1) by (rule diff_less [rotated])
    have n2: "k - ?m \<le> length (drop ?m vs)" using less.prems(2) by (simp add: diff_le_mono)
    have n3: "unat (off + of_nat ?m) + (k - ?m) \<le> MAXFILE * BSIZE" using less.prems(3) m(2) unfolding un by linarith
    have n4: "nblocks (unat (off + of_nat ?m)) (k - ?m) + ind_slack (inodes s4 ip) \<le> card (free_blocks (ldisk s4) (sb s4))"
      using less.prems(4) nb w(7) unfolding un sb4 by linarith
    have n5: "fs_load s4 ip + nblocks (unat (off + of_nat ?m)) (k - ?m) < LOGSIZE - 1"
      using less.prems(5) nb w(6) unfolding un by linarith
    obtain s' where "writei_from ip (Local (drop ?m vs)) (off + of_nat ?m) (k - ?m) s4 = Inr (off + of_nat ?m + of_nat (k - ?m), s') \<and>
        (k - ?m = 0 \<longrightarrow> s' = s4) \<and>
        (0 < k - ?m \<longrightarrow> wrote p st ip (unat (off + of_nat ?m)) (take (k - ?m) (drop ?m vs)) (nblocks (unat (off + of_nat ?m)) (k - ?m)) s4 s')"
      using less.IH [OF n1 w(2) n2 n3 n4 n5] by (rule exE)
    then have R: "writei_from ip (Local (drop ?m vs)) (off + of_nat ?m) (k - ?m) s4 = Inr (off + of_nat ?m + of_nat (k - ?m), s')"
      "k - ?m = 0 \<Longrightarrow> s' = s4"
      "0 < k - ?m \<Longrightarrow> wrote p st ip (?o + ?m) (take (k - ?m) (drop ?m vs)) (nblocks (?o + ?m) (k - ?m)) s4 s'"
      unfolding un by (simp_all only: simp_thms)
    have ap: "take k vs = ?us @ take (k - ?m) (drop ?m vs)" using m(2) by (metis take_add le_add_diff_inverse)
    have "wrote p st ip ?o (take k vs) (nblocks ?o k) s s'"
    proof (cases "k - ?m = 0")
      case True
      have "nblocks ?o k = 1" using nb unfolding True by (simp only: nblocks_0 add_0)
      moreover have "take k vs = ?us" using ap unfolding True by (simp only: take_0 append_Nil2)
      ultimately show ?thesis using W(6) R(2) [OF True] by (simp only:)
    next
      case False
      then have "wrote p st ip (?o + length ?us) (take (k - ?m) (drop ?m vs)) (nblocks (?o + ?m) (k - ?m)) s4 s'" using R(3) unfolding us by simp
      from wrote_trans [OF W(6) this less.prems(1)] show ?thesis unfolding ap nb [symmetric] by (simp add: add.commute)
    qed
    moreover have "off + of_nat ?m + of_nat (k - ?m) = off + of_nat k" using m(2) by (simp add: add.assoc flip: of_nat_add)
    ultimately show ?thesis
      using k W(1-5) R(1) by (subst writei_from.simps) (simp add: get_from_def Let_def)
  qed
qed

section \<open>The whole call\<close>

text \<open>A file after \<open>vs\<close> has been written at \<open>off\<close>.\<close>

lemma fdata_fput:
  assumes "off \<le> unat (i_size I)" "unat (i_size I') = max (unat (i_size I)) (off + length vs)" "unat (i_size I') \<le> MAXFILE * BSIZE"
    and "\<And>o'. o' < MAXFILE * BSIZE \<Longrightarrow> fbyte d' I' o' = fput off vs (fbyte d I) o'"
  shows "fdata d' I' = take off (fdata d I) @ vs @ drop (off + length vs) (fdata d I)"
proof (rule nth_equalityI)
  have l: "length (fdata d I) = unat (i_size I)" "length (fdata d' I') = unat (i_size I')" by (simp_all add: fdata_def)
  show "length (fdata d' I') = length (take off (fdata d I) @ vs @ drop (off + length vs) (fdata d I))" using assms(1,2) l by auto
  fix k
  assume k: "k < length (fdata d' I')"
  then have b: "fdata d' I' ! k = fput off vs (fbyte d I) k" using assms(3,4) l by (simp add: fdata_def)
  consider "k < off" | "off \<le> k" "k < off + length vs" | "off + length vs \<le> k" by linarith
  then show "fdata d' I' ! k = (take off (fdata d I) @ vs @ drop (off + length vs) (fdata d I)) ! k"
  proof cases
    case 1
    then show ?thesis using b assms(1) l by (simp add: fput_def nth_append fdata_def)
  next
    case 2
    then have "k - off < length vs" by linarith
    then show ?thesis using 2 b assms(1) l by (simp add: fput_def nth_append)
  next
    case 3
    then have "k < unat (i_size I)" "\<not> k - off < length vs" using k l assms(2) by simp_all
    then show ?thesis using 3 b assms(1) l by (simp add: fput_def nth_append fdata_def)
  qed
qed

text \<open>What a write to the file of inode \<open>I\<close> guarantees to the others.\<close>

definition apart :: "superblock \<Rightarrow> u32 \<Rightarrow> (u32 \<Rightarrow> block) \<Rightarrow> inode \<Rightarrow> (u32 \<Rightarrow> block) \<Rightarrow> inode \<Rightarrow> bool" where
  "apart x ib d I d' I' \<longleftrightarrow> (\<forall>n. n \<notin> iblocks d' I' \<longrightarrow> n \<noteq> sb_bmapstart x \<longrightarrow> n \<noteq> ib \<longrightarrow> d' n = d n) \<and>
     (\<forall>a \<in> iblocks d' I'. a \<in> iblocks d I \<or> \<not> used d x a) \<and> (\<forall>b. data_block x b \<longrightarrow> used d x b \<longrightarrow> used d' x b)"

lemma apart_other:
  assumes a: "apart x ib d I d' I'" and l: "layout st x" and ib: "\<not> data_block x ib" and J: "file_ok x d J" "iblocks d J \<inter> iblocks d I = {}"
  shows "fdata d' J = fdata d J" "file_ok x d' J" "iblocks d' J = iblocks d J" "iblocks d' J \<inter> iblocks d' I' = {}"
proof -
  note F = file_okD [OF J(1)]
  have s: "d' n = d n" "n \<notin> iblocks d' I'" if "n \<in> iblocks d J" for n
  proof -
    show "n \<notin> iblocks d' I'" using a F(5) [OF that] J(2) that unfolding apart_def by blast
    then show "d' n = d n" using a F(4) [OF that] layoutD(4) [OF l] ib unfolding apart_def by blast
  qed
  have fa: "faddr d' J = faddr d J" using s iblocksI [of MAXFILE d J] by (intro faddr_cong) auto
  then show ibe: "iblocks d' J = iblocks d J" by (simp add: iblocks_def)
  then show "iblocks d' J \<inter> iblocks d' I' = {}" using s(2) by blast
  have "used d' x c" if "c \<in> iblocks d J" for c using a F(4,5) that unfolding apart_def by blast
  then show "file_ok x d' J" using J(1) fa ibe by (auto simp: file_ok_def)
  have "fbyte d' J o' = fbyte d J o'" if "o' < unat (i_size J)" for o'
  proof -
    have "o' div BSIZE < MAXFILE" using that F(3) by (simp add: less_mult_imp_div_less)
    then have "d' (faddr d J (o' div BSIZE)) = d (faddr d J (o' div BSIZE))" if "faddr d J (o' div BSIZE) \<noteq> 0"
      using s(1) iblocksI [OF _ that] by simp
    then show ?thesis using fa by (simp add: fbyte_def Let_def)
  qed
  then show "fdata d' J = fdata d J" by (simp add: fdata_def)
qed

lemma load_bound: "ftx p st {} s \<Longrightarrow> fs_load s ip \<le> length (logged s) + 2"
proof -
  assume t: "ftx p st {} s"
  let ?B = "{i_addrs (inodes s ip) ! NDIRECT} - {0}"
  have "card (pending s ip) \<le> card (set (logged s) \<union> ?B) + 1" unfolding pending_def by (rule card_insert_Suc) simp
  moreover have "card (set (logged s) \<union> ?B) \<le> length (logged s) + card ?B" using card_Un_le [of "set (logged s)" ?B] ftxD(5) [OF t] by simp
  moreover have "card ?B + ind_slack (inodes s ip) = 1" by (simp add: ind_slack_def)
  ultimately show ?thesis unfolding fs_load_def by linarith
qed

lemma get_dinode_same: "same_dinode (get_dinode d I) I \<Longrightarrow> get_dinode d I = I"
  by (cases I) (simp add: same_dinode_def get_dinode_def Let_def)

definition set_isize :: "u32 \<Rightarrow> inode \<Rightarrow> inode" where
  "set_isize n I = I\<lparr>i_size := n\<rparr>"

lemma faddr_isize [simp]: "faddr d (set_isize n I) = faddr d I" "iblocks d (set_isize n I) = iblocks d I" "fbyte d (set_isize n I) = fbyte d I"
  by (simp_all add: faddr_def set_isize_def iblocks_def fbyte_def fun_eq_iff)

lemma file_ok_isize:
  assumes "file_ok x d I" "unat n \<le> MAXFILE * BSIZE" "\<And>i. i * BSIZE < unat n \<Longrightarrow> faddr d I i \<noteq> 0"
  shows "file_ok x d (set_isize n I)"
proof -
  have "i_dev (set_isize n I) = i_dev I" "i_addrs (set_isize n I) = i_addrs I" "i_size (set_isize n I) = n" by (simp_all add: set_isize_def)
  then show ?thesis using assms by (simp add: file_ok_def)
qed

lemma wrote_resize:
  assumes W: "wrote p st ip (unat off) vs nb s s1" and ok: "fs_file p st ip s"
    and vs: "off \<le> i_size (inodes s ip)" "unat off + length vs \<le> MAXFILE * BSIZE" "unat (off + n) = unat off + length vs"
  shows "file_ok (sb s) (ldisk s1) (set_isize (max (i_size (inodes s ip)) (off + n)) (inodes s1 ip))"
    "unat (max (i_size (inodes s ip)) (off + n)) = max (unat (i_size (inodes s ip))) (unat off + length vs)"
    "i_size (inodes s1 ip) = i_size (inodes s ip)" "i_inum (inodes s1 ip) = i_inum (inodes s ip)"
proof -
  let ?o = "unat off" and ?I = "inodes s ip" and ?I1 = "inodes s1 ip"
  let ?z = "max (i_size ?I) (off + n)"
  note F = file_okD [OF fs_fileD(4) [OF ok]] and w = wroteD [OF W] and S1 = fs_fileD [OF wroteD(2) [OF W]]
  show e1: "i_size ?I1 = i_size ?I" "i_inum ?I1 = i_inum ?I" using arg_cong [OF growsD(1) [OF w(3)], of i_size] arg_cong [OF growsD(1) [OF w(3)], of i_inum] by simp_all
  show mx: "unat ?z = max (unat (i_size ?I)) (?o + length vs)" using vs(3) by (simp add: max_def word_le_nat_alt)
  show "file_ok (sb s) (ldisk s1) (set_isize ?z ?I1)"
  proof (rule file_ok_isize)
    show "file_ok (sb s) (ldisk s1) ?I1" using S1(4) fs_moveD(4) [OF w(1)] by simp
    show "unat ?z \<le> MAXFILE * BSIZE" unfolding mx using F(3) vs(2) by simp
    show "faddr (ldisk s1) ?I1 i \<noteq> 0" if "i * BSIZE < unat ?z" for i
    proof (cases "i * BSIZE < unat (i_size ?I)")
      case True
      then show ?thesis using file_okD(7) [OF S1(4), of i] e1(1) by simp
    next
      case False
      then have i: "i * BSIZE < ?o + length vs" "?o \<le> i * BSIZE" using that mx vs(1) by (auto simp: word_le_nat_alt)
      then have "i < MAXFILE" using vs(2) by simp
      then show ?thesis using w(4) [of i] i by simp
    qed
  qed
qed

lemma wrote_room:
  assumes "wrote p st ip off vs nb s s1" "ftx p st {} s"
  shows "length (logged s1) \<le> length (logged s) + nb + 2"
proof -
  have "card (set (logged s1)) \<le> card (pending s1 ip)" by (rule card_mono) (auto simp: pending_def)
  then show ?thesis
    using wroteD(6) [OF assms(1)] load_bound [OF assms(2), of ip] ftxD(5) [OF fs_fileD(1) [OF wroteD(2) [OF assms(1)]]]
    unfolding fs_load_def by linarith
qed

lemma fbyte_other:
  assumes "file_ok x d I" "\<not> data_block x ib" "off < MAXFILE * BSIZE"
  shows "fbyte (d(ib := w)) I off = fbyte d I off"
proof -
  have nb: "ib \<notin> iblocks d I" using file_okD(4) [OF assms(1)] assms(2) by blast
  then have fa: "faddr (d(ib := w)) I = faddr d I" using iblocksI [of MAXFILE d I] by (intro faddr_cong) auto
  have "off div BSIZE < MAXFILE" using assms(3) by (simp add: less_mult_imp_div_less)
  then have "faddr d I (off div BSIZE) \<noteq> ib" if "faddr d I (off div BSIZE) \<noteq> 0" using iblocksI [OF _ that] nb by auto
  then show ?thesis using fa by (auto simp: fbyte_def Let_def)
qed

lemma apart_update:
  assumes g: "grows x d I d1 I1" and ib: "\<not> data_block x ib" "ib \<noteq> sb_bmapstart x" and ok: "file_ok x d1 I1" "i_addrs I2 = i_addrs I1"
    and l: "layout st x"
  shows "apart x ib d I (d1(ib := w)) I2"
proof -
  have "ib \<notin> iblocks d1 I1" using file_okD(4) [OF ok(1)] ib(1) by blast
  then have fa: "faddr (d1(ib := w)) I2 = faddr d1 I1" using ok(2) iblocksI [of MAXFILE d1 I1] by (intro faddr_cong) auto
  then have e: "iblocks (d1(ib := w)) I2 = iblocks d1 I1" by (simp add: iblocks_def)
  have u: "used (d1(ib := w)) x c = used d1 x c" if "data_block x c" for c using ib(2) layoutD(6) [OF l that] by (intro used_cong) auto
  have "used (d1(ib := w)) x c" if "data_block x c" "used d x c" for c using u [OF that(1)] growsD(4) [OF g that(1)] that(2) by blast
  moreover have "(d1(ib := w)) n = d n" if "n \<notin> iblocks d1 I1" "n \<noteq> sb_bmapstart x" "n \<noteq> ib" for n using growsD(5) [OF g that(1,2)] that(3) by simp
  ultimately show ?thesis unfolding apart_def e using growsD(3) [OF g] by blast
qed

lemma writei_spec:
  assumes ok: "fs_file p st ip s" and inum: "unat (i_inum (inodes s ip)) < unat (sb_ninodes (sb s))"
    and vs: "vs \<noteq> []" "off \<le> i_size (inodes s ip)" "unat off + length vs \<le> MAXFILE * BSIZE"
    and f: "nblocks (unat off) (length vs) + 1 \<le> card (free_blocks (ldisk s) (sb s))"
    and room: "length (logged s) + nblocks (unat off) (length vs) + 2 < LOGSIZE - 1"
  shows "\<exists>s'. writei ip (Local vs) off (of_nat (length vs)) s = Inr (of_nat (length vs), s') \<and> fs_move p st ip s s' \<and> fs_file p st ip s' \<and>
    fdata (ldisk s') (inodes s' ip) =
      take (unat off) (fdata (ldisk s) (inodes s ip)) @ vs @ drop (unat off + length vs) (fdata (ldisk s) (inodes s ip)) \<and>
    inodes s' ip = (inodes s ip)\<lparr>i_size := i_size (inodes s' ip), i_addrs := i_addrs (inodes s' ip)\<rparr> \<and>
    get_dinode (ldisk s' (IBLOCK (i_inum (inodes s ip)) (sb s))) (inodes s' ip) = inodes s' ip \<and>
    length (logged s') \<le> length (logged s) + nblocks (unat off) (length vs) + 3 \<and>
    apart (sb s) (IBLOCK (i_inum (inodes s ip)) (sb s)) (ldisk s) (inodes s ip) (ldisk s') (inodes s' ip)"
proof -
  let ?o = "unat off" and ?n = "of_nat (length vs) :: u32" and ?nb = "nblocks (unat off) (length vs)" and ?I = "inodes s ip"
  let ?ib = "IBLOCK (i_inum ?I) (sb s)"
  note S = fs_fileD [OF ok] and F = file_okD [OF fs_fileD(4) [OF ok]] and IB = IBLOCK_unat [OF fs_fileD(2) [OF ok] inum]
  have lv: "length vs < 2 ^ 32" "0 < length vs" using vs by simp_all
  have un: "unat ?n = length vs" "unat (off + ?n) = ?o + length vs" using lv vs(3) u32_mod unat_plus_small by simp_all
  have f': "?nb + ind_slack ?I \<le> card (free_blocks (ldisk s) (sb s))" using f by (simp add: ind_slack_def)
  obtain s1 where W: "writei_from ip (Local vs) off (length vs) s = Inr (off + ?n, s1)" "wrote p st ip ?o vs ?nb s s1"
    using writei_from_spec [OF ok _ vs(3) f', of vs] load_bound [OF S(1), of ip] room lv(2) by auto
  note w = wroteD [OF W(2)] and S1 = fs_fileD [OF wroteD(2) [OF W(2)]] and sb1 = fs_moveD(4) [OF wroteD(1) [OF W(2)]]
  note R = wrote_resize [OF W(2) ok vs(2,3) un(2)] and lg = wrote_room [OF W(2) S(1)]
  let ?I1 = "inodes s1 ip"
  define I2 where "I2 = set_isize (max (i_size ?I) (off + ?n)) ?I1"
  let ?s2 = "s1\<lparr>inodes := (inodes s1)(ip := I2)\<rparr>"
  have I2: "i_size I2 = max (i_size ?I) (off + ?n)" "i_addrs I2 = i_addrs ?I1" "i_inum I2 = i_inum ?I" "fbyte d I2 = fbyte d ?I1" for d
    using R(4) unfolding I2_def by (simp_all add: set_isize_def) (simp flip: set_isize_def)
  have f2: "fs_file p st ip ?s2" using R(1) S1 sb1 by (simp add: fs_file_def I2_def)
  have m2: "fs_move p st ip s1 ?s2" by (rule fs_moveI [OF _ log_frame_refl refl]) (use S1(1) in simp_all)
  have upd: "(if off + ?n > i_size ?I1 then upd_inode ip (\<lambda>x. x\<lparr>i_size := off + ?n\<rparr>) s1 else s1) = ?s2"
    using R(3) by (cases s1) (auto simp: upd_inode_def I2_def set_isize_def max_def not_less fun_eq_iff)
  have l2: "length (logged ?s2) < LOGSIZE - 1" using lg room by (simp add: logged_def)
  obtain s' where U: "iupdate ip ?s2 = Inr s'" "fs_step p st {} ?s2 s'" "fs_file p st ip s'" "logged s' = logs ?ib (logged s1)"
    "ldisk s' = (ldisk s1)(?ib := put_dinode I2 (ldisk s1 ?ib))"
    using iupdate_spec [OF f2 _ l2] inum I2(3) sb1 by (auto simp: logged_def)
  have i': "inodes s' ip = I2" using fs_stepD(7) [OF U(2)] by simp
  have l': "length (logged s') \<le> length (logged s) + ?nb + 3" using lg length_logs(2) [of ?ib "logged s1"] unfolding U(4) by linarith
  have d': "get_dinode (ldisk s' ?ib) I2 = I2"
    using get_put_dinode [of "ldisk s1 ?ib" I2 I2] ftxD(4) [OF S1(1)] file_okD(2) [OF S1(4)] I2(2) U(5) by (intro get_dinode_same) simp
  have ap: "apart (sb s) ?ib (ldisk s) ?I (ldisk s') I2"
    unfolding U(5) by (rule apart_update [OF w(3) IB(4) _ _ I2(2) S(2)]) (use IB(2) S1(4) sb1 in auto)
  have "fbyte (ldisk s') I2 o' = fput ?o vs (fbyte (ldisk s) ?I) o'" if "o' < MAXFILE * BSIZE" for o'
  proof -
    have "fbyte (ldisk s') I2 o' = fbyte (ldisk s1) I2 o'"
      unfolding U(5) by (rule fbyte_other [OF _ IB(4) that]) (use R(1) in \<open>simp add: I2_def\<close>)
    then show ?thesis using w(5) [OF that] I2(4) by simp
  qed
  then have fd: "fdata (ldisk s') I2 = take ?o (fdata (ldisk s) ?I) @ vs @ drop (?o + length vs) (fdata (ldisk s) ?I)"
    using vs(2,3) F(3) R(2) I2(1) by (intro fdata_fput) (simp_all add: word_le_nat_alt)
  have sh: "I2 = ?I\<lparr>i_size := i_size I2, i_addrs := i_addrs I2\<rparr>" using growsD(1) [OF w(3)] by (cases ?I, cases ?I1) (simp add: I2_def set_isize_def)
  have "writei ip (Local vs) off ?n s = Inr (?n, s')"
    using W(1) U(1) upd un vs F(3) lv by (simp add: writei_def Let_def word_less_nat_alt word_le_nat_alt)
  then show ?thesis using fs_move_trans [OF fs_move_trans [OF w(1) m2] fs_move_step [OF U(2)]] U(3) fd sh d' l' ap i' by auto
qed

section \<open>Properties\<close>

text \<open>A file of at most one block, block 46 of the boot image, open in slot 3 of the inode table.\<close>

definition one_fs :: "block \<Rightarrow> inode \<Rightarrow> kfs" where
  "one_fs w I = (binit (boot_fs ((\<lambda>_. replicate BSIZE 0)(46 := w))))\<lparr>inodes := (\<lambda>_. no_inode)(3 := I)\<rparr>"

lemma one_fs_ok:
  assumes w: "length w = BSIZE" and I: "i_dev I = ROOTDEV" "i_addrs I = 46 # replicate 12 0" "0 < unat (i_size I)" "unat (i_size I) \<le> BSIZE"
  shows "fs_file 0 2 3 (one_fs w I)" "logged (one_fs w I) = []" "sb (one_fs w I) = boot_sb" "inodes (one_fs w I) = (\<lambda>_. no_inode)(3 := I)"
    "fdata (ldisk (one_fs w I)) I = take (unat (i_size I)) w" "2 \<le> card (free_blocks (ldisk (one_fs w I)) boot_sb)"
proof -
  let ?s = "one_fs w I" let ?img = "(\<lambda>_. replicate BSIZE 0)(46 := w)"
  have z: "sized ?img" using w by (simp add: sized_def)
  note B = boot_fs_ftx [OF z]
  show sb: "logged ?s = []" "sb ?s = boot_sb" "inodes ?s = (\<lambda>_. no_inode)(3 := I)" using B(2,3) by (simp_all add: one_fs_def logged_def)
  have d: "ldisk ?s = ?img(2 := replicate BSIZE 0, 45 := boot_map)" using B(4) by (simp add: one_fs_def)
  have fa: "faddr d I i = (if i = 0 then 46 else 0)" if "i \<le> MAXFILE" for d i using that I(2) by (auto simp: faddr_def nth_Cons')
  have ib: "iblocks d I = {46}" for d
  proof
    show "iblocks d I \<subseteq> {46}" using fa [of _ d] by (auto simp: iblocks_def split: if_splits)
    show "{46} \<subseteq> iblocks d I" using iblocksI [of 0 d I] fa [of 0 d] by simp
  qed
  have "file_ok boot_sb (ldisk ?s) I"
    unfolding file_ok_def ib
  proof (intro conjI ballI allI impI)
    show "data_block boot_sb a" "used (ldisk ?s) boot_sb a" if "a \<in> {46}" for a
      using that boot_used [of 46 "?img(2 := replicate BSIZE 0)"] by (simp_all add: data_block_def boot_sb_def d)
    show "faddr (ldisk ?s) I i \<noteq> 0" if "i * BSIZE < unat (i_size I)" for i
      using that I(4) fa [of i] by (cases i) auto
    show "i = j" if "i \<le> MAXFILE" "j \<le> MAXFILE" "faddr (ldisk ?s) I i \<noteq> 0" "faddr (ldisk ?s) I i = faddr (ldisk ?s) I j" for i j
      using that fa by (auto split: if_splits)
  qed (use I in simp_all)
  then show "fs_file 0 2 3 ?s"
    using B(1) sb boot_layout boot_meta [of "?img(2 := replicate BSIZE 0)"] d by (simp add: fs_file_def one_fs_def)
  have "fbyte (ldisk ?s) I i = w ! i" if "i < unat (i_size I)" for i
    using that I(4) fa [of 0] d by (simp add: fbyte_def)
  then show "fdata (ldisk ?s) I = take (unat (i_size I)) w"
    using I(4) w by (intro nth_equalityI) (simp_all add: fdata_def)
  have "{48, 49} \<subseteq> free_blocks (ldisk ?s) boot_sb"
    using boot_used [of 48 "?img(2 := replicate BSIZE 0)"] boot_used [of 49 "?img(2 := replicate BSIZE 0)"]
    by (simp add: free_blocks_def data_block_def boot_sb_def d)
  from card_mono [OF _ this] show "2 \<le> card (free_blocks (ldisk ?s) boot_sb)" by simp
qed

definition hello_inode :: inode where
  "hello_inode = no_inode\<lparr>i_dev := ROOTDEV, i_inum := 2, i_ref := 1, i_valid := 1, i_type := T_FILE, i_nlink := 1, i_size := 5,
     i_addrs := 46 # replicate 12 0\<rparr>"

definition hello_fs :: kfs where
  "hello_fs = one_fs ([104, 101, 108, 108, 111] @ replicate 1019 0) hello_inode"

lemma hello_fs_ok:
  "fs_file 0 2 3 hello_fs" "logged hello_fs = []" "sb hello_fs = boot_sb" "inodes hello_fs 3 = hello_inode"
  "fdata (ldisk hello_fs) hello_inode = [104, 101, 108, 108, 111]" "2 \<le> card (free_blocks (ldisk hello_fs) boot_sb)"
proof -
  have h: "i_dev hello_inode = ROOTDEV" "i_addrs hello_inode = 46 # replicate 12 0" "0 < unat (i_size hello_inode)"
    "unat (i_size hello_inode) \<le> BSIZE" "unat (i_size hello_inode) = 5" by (simp_all add: hello_inode_def)
  have w: "length ([104, 101, 108, 108, 111] @ replicate 1019 (0 :: u8)) = BSIZE" by simp
  note O = one_fs_ok [OF w h(1-4), folded hello_fs_def]
  show "fs_file 0 2 3 hello_fs" "logged hello_fs = []" "sb hello_fs = boot_sb" "2 \<le> card (free_blocks (ldisk hello_fs) boot_sb)" by (fact O)+
  show "inodes hello_fs 3 = hello_inode" using O(4) by simp
  show "fdata (ldisk hello_fs) hello_inode = [104, 101, 108, 108, 111]" using O(5) h(5) by simp
qed

text \<open>
  C28. Reading a file. For a sound file, \<open>readi\<close> into a kernel variable returns -1 and touches nothing if the offset is behind
  the end or the range wraps around; otherwise it returns how many of the \<open>n\<close> bytes from \<open>off\<close> on exist, and exactly these bytes of the
  file, and changes neither the logical disk, the disk, nor the inodes.
\<close>

theorem readi_reads:
  assumes "ftx p st {} s" "file_ok (sb s) (ldisk s) (inodes s ip)" "length (logged s) < NBUF"
  shows "if off > i_size (inodes s ip) \<or> off + n < off then readi ip (Local xs) off n s = Inr (-1, Local xs, s)
    else \<exists>s'. readi ip (Local xs) off n s = Inr (of_nat (min (unat n) (unat (i_size (inodes s ip)) - unat off)),
        Local (xs @ take (unat n) (drop (unat off) (fdata (ldisk s) (inodes s ip)))), s') \<and>
      ftx p st {} s' \<and> ldisk s' = ldisk s \<and> disk s' = disk s \<and> inodes s' = inodes s"
proof (cases "off > i_size (inodes s ip) \<or> off + n < off")
  case False
  then obtain s' where "readi ip (Local xs) off n s = Inr (of_nat (min (unat n) (unat (i_size (inodes s ip)) - unat off)),
        Local (xs @ take (unat n) (drop (unat off) (fdata (ldisk s) (inodes s ip)))), s')" "ftx p st {} s'" "quiet s s'"
    using readi_spec [OF assms, of off n xs] by (auto simp: not_less)
  with False show ?thesis using quietD [of s s'] quiet_fs(2) [of s s'] by auto
qed (simp add: readi_def)

theorem readi_reads_witness:
  "\<exists>s'. readi 3 (Local []) 1 100 hello_fs = Inr (4, Local [101, 108, 108, 111], s')"
proof -
  note H = hello_fs_ok
  have e: "i_size hello_inode = 5" by (simp add: hello_inode_def)
  show ?thesis
    using readi_reads [OF fs_fileD(1,4) [OF H(1)], of 1 100 "[]"] H(2) by (auto simp: H(4,5) e)
qed

text \<open>
  C25. Writing a file. Inside a transaction with room in the log and enough free blocks, \<open>writei\<close> of the bytes \<open>vs\<close> at an offset up to the
  end of a sound file returns their number. Afterwards the file consists of its old bytes with \<open>vs\<close> in place, longer if \<open>vs\<close> ends
  behind the old end; it is sound again, the inode in memory has changed in size and block addresses only, and
  reading the inode from the logical disk gives the one in memory. At most three blocks more than the blocks of the range are logged, and
  nothing is written to the disk itself.
\<close>

theorem writei_writes:
  assumes "fs_file p st ip s" "unat (i_inum (inodes s ip)) < unat (sb_ninodes (sb s))" "vs \<noteq> []" "off \<le> i_size (inodes s ip)"
    "unat off + length vs \<le> MAXFILE * BSIZE" "nblocks (unat off) (length vs) + 1 \<le> card (free_blocks (ldisk s) (sb s))"
    "length (logged s) + nblocks (unat off) (length vs) + 2 < LOGSIZE - 1"
  shows "\<exists>s'. writei ip (Local vs) off (of_nat (length vs)) s = Inr (of_nat (length vs), s') \<and> fs_file p st ip s' \<and>
    fdata (ldisk s') (inodes s' ip) =
      take (unat off) (fdata (ldisk s) (inodes s ip)) @ vs @ drop (unat off + length vs) (fdata (ldisk s) (inodes s ip)) \<and>
    inodes s' ip = (inodes s ip)\<lparr>i_size := i_size (inodes s' ip), i_addrs := i_addrs (inodes s' ip)\<rparr> \<and>
    get_dinode (ldisk s' (IBLOCK (i_inum (inodes s ip)) (sb s))) (inodes s' ip) = inodes s' ip \<and>
    length (logged s') \<le> length (logged s) + nblocks (unat off) (length vs) + 3 \<and> disk s' = disk s"
  using writei_spec [OF assms] fs_moveD(2) by blast

lemma hello_room: "nblocks 3 (Suc (Suc (Suc 0))) = 1"
  by (simp add: nblocks_def)

lemma hello_bounds:
  "unat (i_inum (inodes hello_fs 3)) < unat (sb_ninodes (sb hello_fs))" "3 \<le> i_size (inodes hello_fs 3)"
  "nblocks (unat (3 :: u32)) (length [88, 89, 90 :: u8]) + 1 \<le> card (free_blocks (ldisk hello_fs) (sb hello_fs))"
  "length (logged hello_fs) + nblocks (unat (3 :: u32)) (length [88, 89, 90 :: u8]) + 2 < LOGSIZE - 1"
  using hello_fs_ok(6) hello_room by (simp_all add: hello_fs_ok(2-4) hello_inode_def boot_sb_def)

theorem writei_writes_witness:
  "\<exists>s'. writei 3 (Local [88, 89, 90]) 3 3 hello_fs = Inr (3, s') \<and> fdata (ldisk s') (inodes s' 3) = [104, 101, 108, 88, 89, 90]"
  using writei_writes [where vs = "[88, 89, 90]" and off = 3, OF hello_fs_ok(1) hello_bounds(1) _ hello_bounds(2) _ hello_bounds(3,4)]
  by (auto simp: hello_fs_ok(4,5))



text \<open>
  C27. What is written is read back: \<open>writei\<close> followed by \<open>readi\<close> of the same range returns the bytes written.
\<close>

theorem writei_readi_roundtrip:
  assumes "fs_file p st ip s" "unat (i_inum (inodes s ip)) < unat (sb_ninodes (sb s))" "vs \<noteq> []" "off \<le> i_size (inodes s ip)"
    "unat off + length vs \<le> MAXFILE * BSIZE" "nblocks (unat off) (length vs) + 1 \<le> card (free_blocks (ldisk s) (sb s))"
    "length (logged s) + nblocks (unat off) (length vs) + 2 < LOGSIZE - 1"
  shows "\<exists>s1 s2. writei ip (Local vs) off (of_nat (length vs)) s = Inr (of_nat (length vs), s1) \<and>
    readi ip (Local []) off (of_nat (length vs)) s1 = Inr (of_nat (length vs), Local vs, s2)"
proof -
  let ?n = "of_nat (length vs) :: u32"
  obtain s1 where s1: "writei ip (Local vs) off ?n s = Inr (?n, s1)" "fs_file p st ip s1"
    "fdata (ldisk s1) (inodes s1 ip) =
      take (unat off) (fdata (ldisk s) (inodes s ip)) @ vs @ drop (unat off + length vs) (fdata (ldisk s) (inodes s ip))"
    "length (logged s1) \<le> length (logged s) + nblocks (unat off) (length vs) + 3"
    using writei_spec [OF assms] by blast
  note S = fs_fileD [OF s1(2)]
  have un: "unat ?n = length vs" "unat (off + ?n) = unat off + length vs" using assms(5) u32_mod unat_plus_small by simp_all
  have "length (fdata (ldisk s1) (inodes s1 ip)) = unat (i_size (inodes s1 ip))" "length (fdata (ldisk s) (inodes s ip)) = unat (i_size (inodes s ip))"
    by (simp_all add: fdata_def)
  then have z: "unat off + length vs \<le> unat (i_size (inodes s1 ip))" "unat off \<le> unat (i_size (inodes s ip))"
    using assms(4) unfolding s1(3) by (simp_all add: word_le_nat_alt)
  have t: "take (length vs) (drop (unat off) (fdata (ldisk s1) (inodes s1 ip))) = vs" using z(2) unfolding s1(3) by (simp add: fdata_def)
  have c: "off \<le> i_size (inodes s1 ip)" "off \<le> off + ?n" using z(1) un(2) by (simp_all add: word_le_nat_alt)
  have "length (logged s1) < NBUF" using s1(4) assms(7) by linarith
  from readi_spec [OF S(1,4) this c, of "[]"] obtain s2 where "readi ip (Local []) off ?n s1 = Inr (?n, Local vs, s2)"
    using z(1) t by (auto simp: un(1) min_absorb1)
  with s1(1) show ?thesis by blast
qed

theorem writei_readi_roundtrip_witness:
  "\<exists>s1 s2. writei 3 (Local [88, 89, 90]) 3 3 hello_fs = Inr (3, s1) \<and> readi 3 (Local []) 3 3 s1 = Inr (3, Local [88, 89, 90], s2)"
  using writei_readi_roundtrip [where vs = "[88, 89, 90]" and off = 3, OF hello_fs_ok(1) hello_bounds(1) _ hello_bounds(2) _ hello_bounds(3,4)]
  by auto

end
