(* ===== verification/Dirs.thy ===== *)
theory Dirs
  imports Iwrite
begin

text \<open>
  The inode cache's references and directories: \<open>iget\<close>, \<open>idup\<close> and \<open>iput\<close> keep at most one slot per inode and count references;
  \<open>dirlookup\<close> finds the first entry with a name, \<open>dirlink\<close> adds an entry.
\<close>

lemma first_idx_eqI:
  assumes "k < n" "P k" "\<And>j. j < k \<Longrightarrow> \<not> P j"
  shows "first_idx P 0 n = Some k"
proof -
  obtain j where j: "first_idx P 0 n = Some j" using first_idx_SomeI [of 0 k n P] assms by auto
  from first_idx_SomeD [OF j] assms have "j = k" by (metis le0 linorder_neqE_nat)
  with j show ?thesis by simp
qed

section \<open>The inode cache\<close>

text \<open>A slot in use, and the number of references to inode \<open>n\<close> of device \<open>dev\<close> over all slots.\<close>

definition inode_in :: "(nat \<Rightarrow> inode) \<Rightarrow> u32 \<Rightarrow> u32 \<Rightarrow> nat \<Rightarrow> bool" where
  "inode_in f dev n i \<longleftrightarrow> sint (i_ref (f i)) > 0 \<and> i_dev (f i) = dev \<and> i_inum (f i) = n"

definition irefs :: "(nat \<Rightarrow> inode) \<Rightarrow> u32 \<Rightarrow> u32 \<Rightarrow> int" where
  "irefs f dev n = (\<Sum>i<NINODE. if inode_in f dev n i then sint (i_ref (f i)) else 0)"

definition icache_ok :: "(nat \<Rightarrow> inode) \<Rightarrow> bool" where
  "icache_ok f \<longleftrightarrow> (\<forall>i < NINODE. 0 \<le> sint (i_ref (f i))) \<and>
     (\<forall>dev n. \<forall>i < NINODE. \<forall>j < NINODE. inode_in f dev n i \<longrightarrow> inode_in f dev n j \<longrightarrow> i = j)"

lemma icache_okD:
  assumes "icache_ok f"
  shows "i < NINODE \<Longrightarrow> 0 \<le> sint (i_ref (f i))" "inode_in f dev n i \<Longrightarrow> inode_in f dev n j \<Longrightarrow> i < NINODE \<Longrightarrow> j < NINODE \<Longrightarrow> i = j"
  using assms unfolding icache_ok_def by blast+

lemma irefs_upd:
  assumes "k < NINODE"
  shows "irefs (f(k := x)) dev n = irefs f dev n - (if inode_in f dev n k then sint (i_ref (f k)) else 0) +
     (if inode_in (f(k := x)) dev n k then sint (i_ref x) else 0)"
proof -
  let ?g = "\<lambda>f i. if inode_in f dev n i then sint (i_ref (f i)) else (0 :: int)"
  have k: "k \<in> {..<NINODE}" using assms by simp
  have "sum (?g (f(k := x))) {..<NINODE} = ?g (f(k := x)) k + sum (?g (f(k := x))) ({..<NINODE} - {k})"
    using sum.remove [OF _ k] by blast
  moreover have "sum (?g f) {..<NINODE} = ?g f k + sum (?g f) ({..<NINODE} - {k})" using sum.remove [OF _ k] by blast
  moreover have "sum (?g (f(k := x))) ({..<NINODE} - {k}) = sum (?g f) ({..<NINODE} - {k})"
    by (rule sum.cong) (auto simp: inode_in_def)
  ultimately show ?thesis by (simp add: irefs_def)
qed

text \<open>The slot \<open>iget\<close> takes: the one that holds the inode, or else the first free one.\<close>

definition iget_slot :: "u32 \<Rightarrow> u32 \<Rightarrow> (nat \<Rightarrow> inode) \<Rightarrow> nat option" where
  "iget_slot dev n f = (case first_idx (inode_in f dev n) 0 NINODE of
     Some i \<Rightarrow> Some i | None \<Rightarrow> first_idx (\<lambda>i. i_ref (f i) = 0) 0 NINODE)"

definition iget_inode :: "u32 \<Rightarrow> u32 \<Rightarrow> inode \<Rightarrow> inode" where
  "iget_inode dev n I = (if sint (i_ref I) > 0 then I\<lparr>i_ref := i_ref I + 1\<rparr> else I\<lparr>i_dev := dev, i_inum := n, i_ref := 1, i_valid := 0\<rparr>)"

lemma iget_eq:
  assumes "running p s"
  shows "iget dev n s = (case iget_slot dev n (inodes s) of
    None \<Rightarrow> Inl (Panic ''iget: no inodes'')
  | Some i \<Rightarrow> Inr (i, upd_inode i (iget_inode dev n) s))"
proof -
  have h: "held s = {}" using assms by (simp add: running_def)
  have fold: "(\<lambda>i. 0 < sint (i_ref (inodes s i)) \<and> i_dev (inodes s i) = dev \<and> i_inum (inodes s i) = n) = inode_in (inodes s) dev n"
    by (simp add: inode_in_def fun_eq_iff)
  show ?thesis
  proof (cases "first_idx (inode_in (inodes s) dev n) 0 NINODE")
    case (Some i)
    then have "inode_in (inodes s) dev n i" using first_idx_SomeD [OF Some] by simp
    then show ?thesis using h Some by (simp add: iget_def iget_slot_def fold upd_inode_def iget_inode_def inode_in_def)
  next
    case None
    show ?thesis
    proof (cases "first_idx (\<lambda>i. i_ref (inodes s i) = 0) 0 NINODE")
      case (Some i)
      then have "i_ref (inodes s i) = 0" using first_idx_SomeD [OF Some] by simp
      then show ?thesis using h Some None by (simp add: iget_def iget_slot_def fold upd_inode_def iget_inode_def)
    qed (use h None in \<open>simp add: iget_def iget_slot_def fold\<close>)
  qed
qed

lemma sint_inc: "sint (r :: u32) < 2 ^ 31 - 1 \<Longrightarrow> sint (r + 1) = sint r + 1"
  using sint_ge [of r] by (simp add: sint_word_ariths signed_take_bit_int_eq_self)

text \<open>A slot with one reference more, or one less.\<close>

lemma icache_get:
  assumes ok: "icache_ok f" and i: "iget_slot dev n f = Some i" and r: "sint (i_ref (f i)) < 2 ^ 31 - 1"
  shows "i < NINODE" "icache_ok (f(i := iget_inode dev n (f i)))" "inode_in (f(i := iget_inode dev n (f i))) dev n i"
    "irefs (f(i := iget_inode dev n (f i))) d m = irefs f d m + (if d = dev \<and> m = n then 1 else 0)"
    "sint (i_ref (iget_inode dev n (f i))) = sint (i_ref (f i)) + 1"
    "sint (i_ref (f i)) > 0 \<Longrightarrow> inode_in f dev n i"
proof -
  have cases: "i < NINODE \<and> (inode_in f dev n i \<or> i_ref (f i) = 0 \<and> (\<forall>j < NINODE. \<not> inode_in f dev n j))"
  proof (cases "first_idx (inode_in f dev n) 0 NINODE")
    case None
    then have "first_idx (\<lambda>i. i_ref (f i) = 0) 0 NINODE = Some i" using i by (simp add: iget_slot_def)
    from first_idx_SomeD [OF this] None show ?thesis by (simp add: first_idx_None_iff)
  next
    case (Some j)
    then show ?thesis using i first_idx_SomeD [OF Some] by (simp add: iget_slot_def)
  qed
  then show k: "i < NINODE" by simp
  let ?I = "iget_inode dev n (f i)" let ?f = "f(i := ?I)"
  show s: "sint (i_ref ?I) = sint (i_ref (f i)) + 1"
    using cases sint_inc [OF r] by (auto simp: iget_inode_def inode_in_def)
  show pos: "sint (i_ref (f i)) > 0 \<Longrightarrow> inode_in f dev n i" using cases by auto
  have key: "i_dev ?I = dev" "i_inum ?I = n" using cases by (auto simp: iget_inode_def inode_in_def)
  have z: "0 \<le> sint (i_ref (f i))" using icache_okD(1) [OF ok k] .
  show here: "inode_in ?f dev n i" using key s z by (simp add: inode_in_def)
  have new: "inode_in ?f d m j \<longleftrightarrow> (if j = i then d = dev \<and> m = n else inode_in f d m j)" for d m j
    using key s z by (auto simp: inode_in_def)
  have other: "j = i" if "inode_in f dev n j" "j < NINODE" for j using cases that icache_okD(2) [OF ok that(1), of i] by auto
  show "icache_ok ?f"
    unfolding icache_ok_def
  proof (intro conjI allI impI)
    show "0 \<le> sint (i_ref (?f j))" if "j < NINODE" for j using that s z icache_okD(1) [OF ok] by simp
    show "a = b" if "a < NINODE" "b < NINODE" "inode_in ?f d m a" "inode_in ?f d m b" for a b d m
    proof (cases "a \<noteq> i \<and> b \<noteq> i")
      case True
      then show ?thesis using icache_okD(2) [OF ok, of d m a b] that by (simp add: new)
    next
      case False
      then have "d = dev" "m = n" using that(3,4) by (auto simp: new)
      moreover have "x = i" if "inode_in ?f dev n x" "x < NINODE" for x
        using that other [of x] new [of dev n x] by (cases "x = i") simp_all
      ultimately show ?thesis using that by metis
    qed
  qed
  have old: "(if inode_in f d m i then sint (i_ref (f i)) else 0) = (if d = dev \<and> m = n then sint (i_ref (f i)) else 0)"
  proof (cases "0 < sint (i_ref (f i))")
    case True
    then show ?thesis using pos by (auto simp: inode_in_def)
  next
    case False
    then show ?thesis using z by (simp add: inode_in_def)
  qed
  have "irefs ?f d m = irefs f d m - (if inode_in f d m i then sint (i_ref (f i)) else 0) + (if inode_in ?f d m i then sint (i_ref ?I) else 0)"
    by (rule irefs_upd [OF k])
  then show "irefs ?f d m = irefs f d m + (if d = dev \<and> m = n then 1 else 0)" unfolding old new s by simp
qed

lemma sint_dec: "0 < sint (r :: u32) \<Longrightarrow> sint (r - 1) = sint r - 1"
  using sint_lt [of r] by (simp add: sint_word_ariths signed_take_bit_int_eq_self)

lemma iput_eq:
  assumes "running p s" "\<not> (i_ref (inodes s i) = 1 \<and> i_valid (inodes s i) \<noteq> 0 \<and> i_nlink (inodes s i) = 0)"
  shows "iput i s = Inr (upd_inode i (\<lambda>x. x\<lparr>i_ref := i_ref x - 1\<rparr>) s)"
proof -
  have h: "held s = {}" using assms(1) by (simp add: running_def)
  show ?thesis using assms(2) h by (auto simp: iput_def upd_inode_def)
qed

lemma icache_put:
  assumes ok: "icache_ok f" and k: "i < NINODE" and r: "0 < sint (i_ref (f i))"
  shows "icache_ok (f(i := (f i)\<lparr>i_ref := i_ref (f i) - 1\<rparr>))"
    "irefs (f(i := (f i)\<lparr>i_ref := i_ref (f i) - 1\<rparr>)) d m = irefs f d m - (if d = i_dev (f i) \<and> m = i_inum (f i) then 1 else 0)"
proof -
  let ?f = "f(i := (f i)\<lparr>i_ref := i_ref (f i) - 1\<rparr>)"
  have sub: "inode_in ?f d m j \<Longrightarrow> inode_in f d m j" for d m j using r by (auto simp: inode_in_def split: if_splits)
  show "icache_ok ?f"
    unfolding icache_ok_def
  proof (intro conjI allI impI)
    show "0 \<le> sint (i_ref (?f j))" if "j < NINODE" for j using that r sint_dec [OF r] icache_okD(1) [OF ok] by simp
    show "a = b" if "a < NINODE" "b < NINODE" "inode_in ?f d m a" "inode_in ?f d m b" for a b d m
      using icache_okD(2) [OF ok sub [OF that(3)] sub [OF that(4)] that(1,2)] .
  qed
  show "irefs ?f d m = irefs f d m - (if d = i_dev (f i) \<and> m = i_inum (f i) then 1 else 0)"
    using irefs_upd [OF k, of f "(f i)\<lparr>i_ref := i_ref (f i) - 1\<rparr>" d m] r sint_dec [OF r] by (auto simp: inode_in_def)
qed

section \<open>Names\<close>

definition cname :: "u8 list \<Rightarrow> u8 list" where
  "cname bs = takeWhile (\<lambda>c. c \<noteq> 0) (take DIRSIZ bs)"

lemma takeWhile_eq_iff:
  "takeWhile (\<lambda>c. c \<noteq> 0) (map p [0..<n]) = takeWhile (\<lambda>c. c \<noteq> 0) (map q [0..<n]) \<longleftrightarrow> (\<forall>i<n. live p i \<longrightarrow> p i = (q i :: u8))"
proof (induction n arbitrary: p q)
  case (Suc n)
  have m: "map r [0..<Suc n] = r 0 # map (\<lambda>i. r (Suc i)) [0..<n]" for r :: "nat \<Rightarrow> u8" by (simp only: upt_conv_Cons zero_less_Suc list.map map_Suc_upt [symmetric] map_map comp_def)
  have l: "live p (Suc i) \<longleftrightarrow> p 0 \<noteq> 0 \<and> live (\<lambda>i. p (Suc i)) i" "live p 0" for i by (auto simp: live_def less_Suc_eq_0_disj)
  have "(\<forall>i<Suc n. live p i \<longrightarrow> p i = q i) \<longleftrightarrow> p 0 = q 0 \<and> (p 0 \<noteq> 0 \<longrightarrow> (\<forall>i<n. live (\<lambda>i. p (Suc i)) i \<longrightarrow> p (Suc i) = q (Suc i)))"
    using l by (auto simp: less_Suc_eq_0_disj)
  then show ?case using Suc.IH [of "\<lambda>i. p (Suc i)" "\<lambda>i. q (Suc i)"] unfolding m by auto
qed simp

lemma map_at_buf: "map (at_buf bs) [0..<n] = take n (bs @ replicate (n - length bs) 0)"
  by (rule nth_equalityI) (auto simp: at_buf_def nth_append)

lemma cname_at_buf: "takeWhile (\<lambda>c. c \<noteq> 0) (map (at_buf bs) [0..<DIRSIZ]) = cname bs"
proof (cases "length bs < DIRSIZ")
  case True
  have "takeWhile (\<lambda>c. c \<noteq> 0) (bs @ replicate k 0) = takeWhile (\<lambda>c. c \<noteq> 0) bs" for k
    by (induction bs) (auto simp: takeWhile_replicate)
  then show ?thesis using True by (simp add: map_at_buf cname_def)
next
  case False
  then show ?thesis by (simp add: map_at_buf cname_def)
qed

lemma namecmp_iff: "namecmp (at_buf a) (at_buf b) = 0 \<longleftrightarrow> cname a = cname b"
  unfolding namecmp_def strncmp_0_iff takeWhile_eq_iff [symmetric] cname_at_buf ..

section \<open>Directory entries\<close>

definition dirent :: "(u32 \<Rightarrow> block) \<Rightarrow> inode \<Rightarrow> nat \<Rightarrow> u8 list" where
  "dirent d I k = take 16 (drop (16 * k) (fdata d I))"

definition entry_for :: "u8 list \<Rightarrow> u8 list \<Rightarrow> bool" where
  "entry_for name de \<longleftrightarrow> de_inum de \<noteq> 0 \<and> cname name = cname (de_name de)"

text \<open>A sound directory: a sound file of whole entries.\<close>

definition dir_ok :: "superblock \<Rightarrow> (u32 \<Rightarrow> block) \<Rightarrow> inode \<Rightarrow> bool" where
  "dir_ok x d I \<longleftrightarrow> file_ok x d I \<and> i_type I = T_DIR \<and> 16 dvd unat (i_size I)"

lemma dir_slots_eq: "dir_ok x d I \<Longrightarrow> 16 * dir_slots I = unat (i_size I)"
proof -
  assume "dir_ok x d I"
  then obtain q where "unat (i_size I) = 16 * q" by (auto simp: dir_ok_def)
  then show ?thesis by (simp add: dir_slots_def)
qed

lemma read_de_spec:
  assumes t: "ftx p st {} s" and ok: "dir_ok x (ldisk s) (inodes s dp)" and r: "length (logged s) < NBUF" and k: "k < dir_slots (inodes s dp)"
  shows "\<exists>s'. read_de msg dp (of_nat (16 * k)) s = Inr (dirent (ldisk s) (inodes s dp) k, s') \<and> ftx p st {} s' \<and> quiet s s'"
proof -
  let ?I = "inodes s dp" and ?off = "of_nat (16 * k) :: u32"
  have f: "file_ok x (ldisk s) ?I" using ok by (simp add: dir_ok_def)
  have sz: "16 * k + 16 \<le> unat (i_size ?I)" using dir_slots_eq [OF ok] k by linarith
  have un: "unat ?off = 16 * k" using sz file_okD(3) [OF f] by (intro u32_mod) simp
  have "unat (?off + 16) = 16 * k + 16" using unat_plus_small [of ?off 16] sz file_okD(3) [OF f] un by simp
  then have "?off \<le> i_size ?I" "?off \<le> ?off + 16" using sz un by (simp_all add: word_le_nat_alt)
  from readi_spec [OF t f r this, of "[]"] obtain s' where s': "readi dp (Local []) ?off 16 s = Inr (16, Local (dirent (ldisk s) ?I k), s')"
    "ftx p st {} s'" "quiet s s'"
    using sz un by (auto simp: dirent_def min_absorb1)
  then show ?thesis by (simp add: read_de_def)
qed

text \<open>The index \<open>dirlookup\<close> stops at.\<close>

definition dir_find :: "(u32 \<Rightarrow> block) \<Rightarrow> inode \<Rightarrow> u8 list \<Rightarrow> nat option" where
  "dir_find d I name = first_idx (\<lambda>k. entry_for name (dirent d I k)) 0 (dir_slots I)"

text \<open>A loop that reads the entries in order and stops at the first that satisfies \<open>Q\<close>.\<close>

definition de_loop :: "string \<Rightarrow> nat \<Rightarrow> (u8 list \<Rightarrow> bool) \<Rightarrow> (nat \<Rightarrow> u8 list \<Rightarrow> 'a kfs_scheme \<Rightarrow> ('r \<times> 'a kfs_scheme) result) \<Rightarrow>
    nat \<Rightarrow> 'a kfs_scheme \<Rightarrow> ('r option \<times> 'a kfs_scheme) result" where
  "de_loop msg dp Q H k s = bnd (read_de msg dp (of_nat (16 * k)) s) (\<lambda>(de, s).
     if Q de then bnd (H k de s) (\<lambda>(r, s). Inr (Some r, s)) else Inr (None, s))"

lemma scan_de:
  assumes t: "ftx p st {} s" and ok: "dir_ok x (ldisk s) (inodes s dp)" and r: "length (logged s) < NBUF"
  shows "\<exists>s1. ftx p st {} s1 \<and> quiet s s1 \<and> scan (de_loop msg dp Q H) [0..<dir_slots (inodes s dp)] s =
    (case first_idx (\<lambda>k. Q (dirent (ldisk s) (inodes s dp) k)) 0 (dir_slots (inodes s dp)) of
       None \<Rightarrow> Inr (None, s1)
     | Some k \<Rightarrow> bnd (H k (dirent (ldisk s) (inodes s dp) k) s1) (\<lambda>(r, s). Inr (Some r, s)))"
proof -
  let ?I = "inodes s dp" let ?e = "dirent (ldisk s) ?I" let ?f = "de_loop msg dp Q H"
  have step: "\<exists>s2. ftx p st {} s2 \<and> quiet s s2 \<and> ?f k s1 = (if Q (?e k) then bnd (H k (?e k) s2) (\<lambda>(r, s). Inr (Some r, s)) else Inr (None, s2))"
    if "k < dir_slots ?I" "ftx p st {} s1" "quiet s s1" for k s1
  proof -
    note E = quietD [OF that(3)] quiet_fs [OF that(3)] quiet_logged [OF that(3)]
    have "dir_ok x (ldisk s1) (inodes s1 dp)" "k < dir_slots (inodes s1 dp)" "length (logged s1) < NBUF" using ok that(1) r E by simp_all
    from read_de_spec [OF that(2) this(1,3,2), of msg] obtain s2 where
      s2: "read_de msg dp (of_nat (16 * k)) s1 = Inr (?e k, s2)" "ftx p st {} s2" "quiet s1 s2" using E by auto
    then show ?thesis using quiet_trans [OF that(3) s2(3)] by (intro exI [of _ s2]) (simp add: de_loop_def)
  qed
  have "k \<le> dir_slots ?I \<Longrightarrow> ftx p st {} s1 \<Longrightarrow> quiet s s1 \<Longrightarrow> \<exists>s2. ftx p st {} s2 \<and> quiet s s2 \<and> scan ?f [k..<dir_slots ?I] s1 =
    (case first_idx (\<lambda>k. Q (?e k)) k (dir_slots ?I - k) of None \<Rightarrow> Inr (None, s2) | Some k \<Rightarrow> bnd (H k (?e k) s2) (\<lambda>(r, s). Inr (Some r, s)))" for k s1
  proof (induction "dir_slots ?I - k" arbitrary: k s1)
    case 0
    then show ?case by auto
  next
    case (Suc n)
    then have k: "k < dir_slots ?I" "dir_slots ?I - k = Suc n" "[k..<dir_slots ?I] = k # [Suc k..<dir_slots ?I]" by (auto simp: upt_conv_Cons)
    from step [OF k(1) Suc.prems(2,3)] obtain s2 where s2: "ftx p st {} s2" "quiet s s2"
      "?f k s1 = (if Q (?e k) then bnd (H k (?e k) s2) (\<lambda>(r, s). Inr (Some r, s)) else Inr (None, s2))" by blast
    show ?case
    proof (cases "Q (?e k)")
      case True
      then show ?thesis using s2 k by (intro exI [of _ s2]) (auto simp: bnd_assoc split_def intro!: bnd_cong)
    next
      case False
      have n: "n = dir_slots ?I - Suc k" "Suc k \<le> dir_slots ?I" using k by auto
      from Suc.hyps(1) [OF n s2(1,2)] obtain s3 where "ftx p st {} s3" "quiet s s3" "scan ?f [Suc k..<dir_slots ?I] s2 =
        (case first_idx (\<lambda>k. Q (?e k)) (Suc k) (dir_slots ?I - Suc k) of None \<Rightarrow> Inr (None, s3)
         | Some k \<Rightarrow> bnd (H k (?e k) s3) (\<lambda>(r, s). Inr (Some r, s)))" by blast
      then show ?thesis using False s2(3) k n(1) by (intro exI [of _ s3]) simp
    qed
  qed
  from this [of 0, OF _ t] show ?thesis by (simp add: quiet_def)
qed

lemma dirlookup_spec:
  assumes t: "ftx p st {} s" and ok: "dir_ok x (ldisk s) (inodes s dp)" and r: "length (logged s) < NBUF"
  shows "\<exists>s1. ftx p st {} s1 \<and> quiet s s1 \<and> dirlookup dp name s =
    (case dir_find (ldisk s) (inodes s dp) name of
       None \<Rightarrow> Inr (None, s1)
     | Some k \<Rightarrow> bnd (iget ROOTDEV (ucast (de_inum (dirent (ldisk s) (inodes s dp) k))) s1) (\<lambda>(ip, s). Inr (Some (ip, of_nat (16 * k)), s)))"
proof -
  let ?I = "inodes s dp" let ?e = "dirent (ldisk s) ?I"
  let ?H = "\<lambda>k de s. bnd (iget (i_dev (inodes s dp)) (ucast (de_inum de)) s) (\<lambda>(ip, s). Inr ((ip, of_nat (16 * k) :: u32), s))"
  have ty: "i_type ?I = T_DIR" "i_dev ?I = ROOTDEV" using ok file_okD(1) by (auto simp: dir_ok_def)
  have "dirlookup dp name s = scan (de_loop ''dirlookup read'' dp (entry_for name) ?H) [0..<dir_slots ?I] s"
    using ty by (auto simp: dirlookup_def de_loop_def entry_for_def namecmp_iff bnd_assoc split_def fun_eq_iff
        intro!: arg_cong [where f = "\<lambda>f. scan f [0..<dir_slots ?I] s"] bnd_cong)
  moreover obtain s1 where "ftx p st {} s1" "quiet s s1" "scan (de_loop ''dirlookup read'' dp (entry_for name) ?H) [0..<dir_slots ?I] s =
    (case first_idx (\<lambda>k. entry_for name (?e k)) 0 (dir_slots ?I) of None \<Rightarrow> Inr (None, s1) | Some k \<Rightarrow> bnd (?H k (?e k) s1) (\<lambda>(r, s). Inr (Some r, s)))"
    using scan_de [OF t ok r, of "''dirlookup read''" "entry_for name" ?H] by blast
  ultimately show ?thesis
    using ty quiet_fs(2) [of s s1] by (intro exI [of _ s1]) (auto simp: dir_find_def bnd_assoc split_def split: option.splits intro!: bnd_cong)
qed

text \<open>\<open>dirlink\<close> writes the entry into the first empty slot, or behind the last one.\<close>

definition dir_slot :: "(u32 \<Rightarrow> block) \<Rightarrow> inode \<Rightarrow> nat" where
  "dir_slot d I = (case first_idx (\<lambda>k. de_inum (dirent d I k) = 0) 0 (dir_slots I) of Some k \<Rightarrow> k | None \<Rightarrow> dir_slots I)"

definition new_entry :: "u8 list \<Rightarrow> u32 \<Rightarrow> u8 list" where
  "new_entry name inum = le_bytes 2 (ucast inum :: u16) @ map (strncpy (\<lambda>_. 0) (at_buf name) DIRSIZ) [0..<DIRSIZ]"

lemma length_new_entry [simp]: "length (new_entry name inum) = 16"
  by (simp add: new_entry_def)

lemma dirlink_writes:
  assumes t: "ftx p st {} s" and ok: "dir_ok x (ldisk s) (inodes s dp)" and r: "length (logged s) < NBUF"
    and none: "dir_find (ldisk s) (inodes s dp) name = None"
  shows "\<exists>s1. ftx p st {} s1 \<and> quiet s s1 \<and> dirlink dp name inum s =
    bnd (writei dp (Local (new_entry name inum)) (of_nat (16 * dir_slot (ldisk s) (inodes s dp))) 16 s1) (\<lambda>(n, s).
      if n \<noteq> 16 then Inl (Panic ''dirlink'') else Inr (0, s))"
proof -
  let ?I = "inodes s dp"
  obtain s1 where s1: "ftx p st {} s1" "quiet s s1" "dirlookup dp name s = Inr (None, s1)"
    using dirlookup_spec [OF t ok r, of name] none by auto
  note E = quietD [OF s1(2)] quiet_fs [OF s1(2)] quiet_logged [OF s1(2)]
  have ok1: "dir_ok x (ldisk s1) (inodes s1 dp)" "length (logged s1) < NBUF" using ok r E by simp_all
  let ?H = "\<lambda>k (de :: u8 list) s. Inr (of_nat (16 * k) :: u32, s)"
  have f: "(\<lambda>k s. bnd (read_de ''dirlink read'' dp (of_nat (16 * k)) s) (\<lambda>(de, s). if de_inum de = 0 then Inr (Some (of_nat (16 * k)), s) else Inr (None, s))) =
    de_loop ''dirlink read'' dp (\<lambda>de. de_inum de = 0) ?H"
    by (auto simp: de_loop_def fun_eq_iff intro!: bnd_cong)
  obtain s2 where s2: "ftx p st {} s2" "quiet s1 s2" "scan (de_loop ''dirlink read'' dp (\<lambda>de. de_inum de = 0) ?H) [0..<dir_slots (inodes s1 dp)] s1 =
    (case first_idx (\<lambda>k. de_inum (dirent (ldisk s1) (inodes s1 dp) k) = 0) 0 (dir_slots (inodes s1 dp)) of
       None \<Rightarrow> Inr (None, s2)
     | Some k \<Rightarrow> bnd (?H k (dirent (ldisk s1) (inodes s1 dp) k) s2) (\<lambda>(r, s). Inr (Some r, s)))"
    using scan_de [OF s1(1) ok1, of "''dirlink read''" "\<lambda>de. de_inum de = 0" ?H] by blast
  have "inodes s2 = inodes s" using quiet_fs(2) [OF s2(2)] E by simp
  then have "dirlink dp name inum s =
    bnd (writei dp (Local (new_entry name inum)) (of_nat (16 * dir_slot (ldisk s) ?I)) 16 s2) (\<lambda>(n, s).
      if n \<noteq> 16 then Inl (Panic ''dirlink'') else Inr (0, s))"
    using s1(3) s2(3) unfolding dirlink_def f E(4,6) by (auto simp: Let_def dir_slot_def new_entry_def E(6) simp del: of_nat_mult split: option.splits)
  then show ?thesis using s2(1) quiet_trans [OF s1(2) s2(2)] by blast
qed

lemma new_entry_parts:
  "de_inum (new_entry name inum) = ucast inum" "cname (de_name (new_entry name inum)) = cname name"
proof -
  show "de_inum (new_entry name inum) = ucast inum"
    by (simp add: de_inum_def new_entry_def get_le_def get_bytes_def le_word_le_bytes)
  let ?p = "strncpy (\<lambda>_. 0) (at_buf name) DIRSIZ"
  have "de_name (new_entry name inum) = map ?p [0..<DIRSIZ]"
    by (simp add: de_name_def new_entry_def get_bytes_def)
  moreover have "takeWhile (\<lambda>c. c \<noteq> 0) (map (at_buf name) [0..<DIRSIZ]) = takeWhile (\<lambda>c. c \<noteq> 0) (map ?p [0..<DIRSIZ])"
    unfolding takeWhile_eq_iff by (simp add: strncpy_apply)
  ultimately show "cname (de_name (new_entry name inum)) = cname name"
    unfolding cname_at_buf by (simp add: cname_def)
qed

text \<open>The entries after the bytes of entry \<open>k\<close> have been replaced, or appended.\<close>

lemma dirent_put:
  assumes "fdata d' I' = take (16 * k) (fdata d I) @ de @ drop (16 * k + 16) (fdata d I)" "length de = 16" "16 * k \<le> length (fdata d I)"
  shows "dirent d' I' j = (if j = k then de else dirent d I j)"
proof -
  consider "j < k" | "j = k" | "k < j" by linarith
  then show ?thesis
  proof cases
    case 1
    then have "16 \<le> 16 * k - 16 * j" "16 \<le> length (fdata d I) - 16 * j" using assms(3) by linarith+
    then show ?thesis using 1 assms by (simp add: dirent_def drop_take min_def)
  next
    case 2
    then show ?thesis using assms by (simp add: dirent_def)
  next
    case 3
    then have "16 * j = 16 * k + 16 + 16 * (j - k - 1)" by simp
    then show ?thesis using 3 assms by (simp add: dirent_def add.commute)
  qed
qed

lemma dir_slot_le: "dir_slot d I \<le> dir_slots I"
proof (cases "first_idx (\<lambda>k. de_inum (dirent d I k) = 0) 0 (dir_slots I)")
  case (Some k)
  from first_idx_SomeD [OF this] show ?thesis using Some by (simp add: dir_slot_def)
qed (simp add: dir_slot_def)

lemma nblocks_entry: "nblocks (16 * k) 16 = 1"
proof -
  have "16 * k mod BSIZE = 16 * (k mod 64)" by (simp add: mult_mod_right)
  moreover have "k mod 64 < 64" by simp
  ultimately have "16 * k mod BSIZE + 15 < BSIZE" by linarith
  then show ?thesis using block_split(1) [of "16 * k" 15] by (simp add: nblocks_def)
qed

lemma dirlink_spec:
  assumes ok: "fs_file p st dp s" "dir_ok (sb s) (ldisk s) (inodes s dp)" and inum: "unat (i_inum (inodes s dp)) < unat (sb_ninodes (sb s))"
    and none: "dir_find (ldisk s) (inodes s dp) name = None" and sz: "unat (i_size (inodes s dp)) + 16 \<le> MAXFILE * BSIZE"
    and f: "2 \<le> card (free_blocks (ldisk s) (sb s))" and room: "length (logged s) + 3 < LOGSIZE - 1"
  shows "\<exists>s'. dirlink dp name n s = Inr (0, s') \<and> fs_file p st dp s' \<and> dir_ok (sb s') (ldisk s') (inodes s' dp) \<and>
    (\<forall>j. dirent (ldisk s') (inodes s' dp) j =
       (if j = dir_slot (ldisk s) (inodes s dp) then new_entry name n else dirent (ldisk s) (inodes s dp) j)) \<and>
    dir_slots (inodes s' dp) = max (dir_slots (inodes s dp)) (dir_slot (ldisk s) (inodes s dp) + 1) \<and>
    length (logged s') \<le> length (logged s) + 4 \<and> (\<forall>i. i \<noteq> dp \<longrightarrow> inodes s' i = inodes s i) \<and>
    inodes s' dp = (inodes s dp)\<lparr>i_size := i_size (inodes s' dp), i_addrs := i_addrs (inodes s' dp)\<rparr>"
proof -
  let ?I = "inodes s dp" let ?k = "dir_slot (ldisk s) ?I" let ?off = "of_nat (16 * ?k) :: u32"
  note S = fs_fileD [OF ok(1)] and F = file_okD [OF fs_fileD(4) [OF ok(1)]]
  have r: "length (logged s) < NBUF" using room by simp
  obtain s1 where s1: "ftx p st {} s1" "quiet s s1" "dirlink dp name n s = bnd (writei dp (Local (new_entry name n)) ?off 16 s1) (\<lambda>(n, s).
      if n \<noteq> 16 then Inl (Panic ''dirlink'') else Inr (0, s))"
    using dirlink_writes [OF S(1) ok(2) r none] by blast
  note E = quietD [OF s1(2)] quiet_fs [OF s1(2)] quiet_logged [OF s1(2)]
  have k: "16 * ?k \<le> unat (i_size ?I)" using dir_slot_le [of "ldisk s" ?I] dir_slots_eq [OF ok(2)] by linarith
  have un: "unat ?off = 16 * ?k" using k sz by (intro u32_mod) simp
  have pre: "fs_file p st dp s1" "unat (i_inum (inodes s1 dp)) < unat (sb_ninodes (sb s1))" "new_entry name n \<noteq> []" "?off \<le> i_size (inodes s1 dp)"
    "unat ?off + length (new_entry name n) \<le> MAXFILE * BSIZE"
    "nblocks (unat ?off) (length (new_entry name n)) + 1 \<le> card (free_blocks (ldisk s1) (sb s1))"
    "length (logged s1) + nblocks (unat ?off) (length (new_entry name n)) + 2 < LOGSIZE - 1"
  proof -
    show "fs_file p st dp s1" using S s1(1) E by (simp add: fs_file_def)
    show "new_entry name n \<noteq> []" using length_new_entry [of name n] by force
    show "?off \<le> i_size (inodes s1 dp)" using k un E by (simp add: word_le_nat_alt)
    show "unat (i_inum (inodes s1 dp)) < unat (sb_ninodes (sb s1))" using inum E by simp
    show "unat ?off + length (new_entry name n) \<le> MAXFILE * BSIZE" unfolding un length_new_entry using sz k by linarith
    show "nblocks (unat ?off) (length (new_entry name n)) + 1 \<le> card (free_blocks (ldisk s1) (sb s1))"
      unfolding un length_new_entry nblocks_entry E using f by simp
    show "length (logged s1) + nblocks (unat ?off) (length (new_entry name n)) + 2 < LOGSIZE - 1"
      unfolding un length_new_entry nblocks_entry E using room by simp
  qed
  obtain s' where s': "writei dp (Local (new_entry name n)) ?off 16 s1 = Inr (16, s')" "fs_move p st dp s1 s'" "fs_file p st dp s'"
    "fdata (ldisk s') (inodes s' dp) = take (16 * ?k) (fdata (ldisk s) ?I) @ new_entry name n @ drop (16 * ?k + 16) (fdata (ldisk s) ?I)"
    "inodes s' dp = (inodes s1 dp)\<lparr>i_size := i_size (inodes s' dp), i_addrs := i_addrs (inodes s' dp)\<rparr>"
    "length (logged s') \<le> length (logged s1) + nblocks (16 * ?k) 16 + 3"
    using writei_spec [OF pre] unfolding un E length_new_entry by (metis of_nat_numeral)
  have e: "dirent (ldisk s') (inodes s' dp) j = (if j = ?k then new_entry name n else dirent (ldisk s) ?I j)" for j
    by (rule dirent_put [OF s'(4)]) (use k in \<open>simp_all add: fdata_def\<close>)
  have lf: "length (fdata d J) = unat (i_size J)" for d J by (simp add: fdata_def)
  have z: "unat (i_size (inodes s' dp)) = max (16 * dir_slots ?I) (16 * ?k + 16)"
    using arg_cong [OF s'(4), of length] k dir_slots_eq [OF ok(2)] unfolding lf by (auto simp: lf max_def)
  then have z': "unat (i_size (inodes s' dp)) = 16 * max (dir_slots ?I) (?k + 1)" by (simp add: max_def)
  have ty: "i_type (inodes s' dp) = T_DIR" using s'(5) ok(2) E by (metis dir_ok_def inode.ext_inject inode.surjective inode.update_convs(9,10))
  have d': "dir_ok (sb s') (ldisk s') (inodes s' dp)" using fs_fileD(4) [OF s'(3)] ty z' by (simp add: dir_ok_def)
  have sl: "dir_slots (inodes s' dp) = max (dir_slots ?I) (?k + 1)" using dir_slots_eq [OF d'] z' by simp
  have lg: "length (logged s') \<le> length (logged s) + 4" using s'(6) E nblocks_entry [of ?k] by simp
  show ?thesis
    using s1(3) s'(1,3,5) d' e sl lg fs_moveD(5) [OF s'(2)] E by (intro exI [of _ s']) simp
qed

text \<open>Adding an entry changes the search for its own name only.\<close>

lemma dir_find_link:
  assumes e: "\<And>j. dirent d' I' j = (if j = dir_slot d I then new_entry name n else dirent d I j)"
    and sl: "dir_slots I' = max (dir_slots I) (dir_slot d I + 1)"
  shows "cname nm \<noteq> cname name \<Longrightarrow> dir_find d' I' nm = dir_find d I nm"
    "dir_find d I name = None \<Longrightarrow> (ucast n :: u16) \<noteq> 0 \<Longrightarrow> dir_find d' I' name = Some (dir_slot d I)"
proof -
  let ?k = "dir_slot d I"
  have free: "\<not> entry_for nm (dirent d I ?k)" if "?k < dir_slots I" for nm
  proof (cases "first_idx (\<lambda>k. de_inum (dirent d I k) = 0) 0 (dir_slots I)")
    case None
    then show ?thesis using that by (simp add: dir_slot_def)
  next
    case (Some k)
    then show ?thesis using first_idx_SomeD [OF Some] by (simp add: dir_slot_def entry_for_def)
  qed
  have E: "entry_for nm (dirent d' I' j) \<longleftrightarrow> (if j = ?k then (ucast n :: u16) \<noteq> 0 \<and> cname nm = cname name else entry_for nm (dirent d I j))" for nm j
    using e [of j] new_entry_parts [of name n] by (simp add: entry_for_def)
  show "dir_find d' I' nm = dir_find d I nm" if "cname nm \<noteq> cname name"
  proof -
    have c: "entry_for nm (dirent d' I' j) \<longleftrightarrow> j < dir_slots I \<and> entry_for nm (dirent d I j)" if "j < dir_slots I'" for j
      using E [of nm j] free [of nm] \<open>cname nm \<noteq> cname name\<close> that dir_slot_le [of d I] unfolding sl by (auto split: if_splits)
    show ?thesis
    proof (cases "dir_find d I nm")
      case None
      then have "dir_find d' I' nm = None" using c unfolding dir_find_def first_idx_None_iff by auto
      with None show ?thesis by simp
    next
      case (Some k)
      then have k: "k < dir_slots I" "entry_for nm (dirent d I k)" "\<forall>j<k. \<not> entry_for nm (dirent d I j)"
        unfolding dir_find_def by (auto dest: first_idx_SomeD)
      then have "dir_find d' I' nm = Some k" unfolding dir_find_def
        by (intro first_idx_eqI) (use c k sl in auto)
      then show ?thesis using Some by simp
    qed
  qed
  show "dir_find d' I' name = Some ?k" if "dir_find d I name = None" "(ucast n :: u16) \<noteq> 0"
  proof -
    have N: "\<not> entry_for name (dirent d I j)" if "j < dir_slots I" for j
      using \<open>dir_find d I name = None\<close> that unfolding dir_find_def first_idx_None_iff by auto
    show ?thesis unfolding dir_find_def
      by (intro first_idx_eqI) (use E that(2) N dir_slot_le [of d I] sl in auto)
  qed
qed

section \<open>Path elements\<close>

text \<open>The elements of a path: what is left between the slashes, empty pieces dropped.\<close>

fun pieces :: "u8 list \<Rightarrow> u8 list list" where
  "pieces [] = [[]]"
| "pieces (c # cs) = (if c = 47 then [] # pieces cs else (c # hd (pieces cs)) # tl (pieces cs))"

definition elements :: "u8 list \<Rightarrow> u8 list list" where
  "elements path = filter (\<lambda>e. e \<noteq> []) (pieces path)"

lemma pieces_not_Nil [simp]: "pieces path \<noteq> []"
  by (induction path) auto

lemma elements_slash [simp]: "elements (47 # path) = elements path"
  by (simp add: elements_def)

lemma elements_dropWhile [simp]: "elements (dropWhile (\<lambda>c. c = 47) path) = elements path"
  by (induction path) auto

lemma pieces_first: "pieces path = takeWhile (\<lambda>c. c \<noteq> 47) path # tl (pieces path)"
proof (induction path)
  case (Cons c cs)
  then show ?case by (cases "pieces cs") auto
qed simp

lemma elements_dropWhile_not: "elements (dropWhile (\<lambda>c. c \<noteq> 47) path) = filter (\<lambda>e. e \<noteq> []) (tl (pieces path))"
proof (induction path)
  case (Cons c cs)
  then show ?case by (auto simp: elements_def)
qed (simp add: elements_def)

lemma elements_Cons:
  assumes "path \<noteq> []" "hd path \<noteq> 47"
  shows "elements path = takeWhile (\<lambda>c. c \<noteq> 47) path # elements (dropWhile (\<lambda>c. c \<noteq> 47) path)"
proof -
  have "takeWhile (\<lambda>c. c \<noteq> 47) path \<noteq> []" using assms by (cases path) auto
  moreover have "elements path = filter (\<lambda>e. e \<noteq> []) (takeWhile (\<lambda>c. c \<noteq> 47) path # tl (pieces path))"
    unfolding elements_def using pieces_first by (rule arg_cong)
  ultimately show ?thesis by (simp add: elements_dropWhile_not)
qed

lemma elements_Nil_iff: "elements path = [] \<longleftrightarrow> dropWhile (\<lambda>c. c = 47) path = []"
proof -
  let ?p = "dropWhile (\<lambda>c. c = 47) path"
  have "elements ?p \<noteq> []" if "?p \<noteq> []" using elements_Cons [OF that] hd_dropWhile [OF that] by simp
  moreover have "elements ?p = elements path" by simp
  ultimately show ?thesis by (cases "?p = []") (auto simp: elements_def)
qed

lemma cname_put:
  assumes "length name = DIRSIZ" "0 \<notin> set e"
  shows "cname (if length e \<ge> DIRSIZ then put_bytes 0 (take DIRSIZ e) name else (put_bytes 0 e name)[length e := 0]) = take DIRSIZ e"
proof (cases "DIRSIZ \<le> length e")
  case True
  then have "put_bytes 0 (take DIRSIZ e) name = take DIRSIZ e" using assms(1) by (simp add: put_bytes_def)
  moreover have "takeWhile (\<lambda>c. c \<noteq> 0) (take DIRSIZ e) = take DIRSIZ e" using assms(2) by (metis (mono_tags) in_set_takeD takeWhile_eq_all_conv)
  ultimately show ?thesis using True by (simp add: cname_def)
next
  case False
  then have "(put_bytes 0 e name)[length e := 0] = e @ 0 # drop (Suc (length e)) name"
    using assms(1) by (simp add: put_bytes_def list_update_append Cons_nth_drop_Suc [symmetric])
  moreover have "x \<noteq> 0" if "x \<in> set e" for x using assms(2) that by auto
  ultimately show ?thesis using False by (simp add: cname_def take_Cons')
qed

section \<open>Properties\<close>

text \<open>
  C32. \<open>skipelem\<close> walks the elements of a path. It returns nothing exactly if the path has no element, that is, consists
  of slashes only; otherwise the buffer receives the first element, cut to 14 bytes, and the path returned has the remaining elements and
  is empty exactly if there are none left.
\<close>

theorem skipelem_elements:
  assumes "length name = DIRSIZ" "0 \<notin> set path"
  shows "case elements path of
      [] \<Rightarrow> skipelem path name = None
    | e # es \<Rightarrow> \<exists>rest name'. skipelem path name = Some (rest, name') \<and> cname name' = take DIRSIZ e \<and> elements rest = es \<and>
        (rest = [] \<longleftrightarrow> es = []) \<and> set rest \<subseteq> set path"
proof (cases "elements path")
  case Nil
  then have "skipelem path name = None" by (simp add: elements_Nil_iff skipelem_def)
  with Nil show ?thesis by simp
next
  case (Cons e es)
  let ?p = "dropWhile (\<lambda>c. c = 47) path" let ?e = "takeWhile (\<lambda>c. c \<noteq> 47) ?p" let ?r = "dropWhile (\<lambda>c. c = 47) (dropWhile (\<lambda>c. c \<noteq> 47) ?p)"
  have p: "?p \<noteq> []" using Cons elements_Nil_iff [of path] by simp
  have e: "e = ?e" "es = elements ?r" using elements_Cons [OF p hd_dropWhile [OF p]] Cons by simp_all
  have "0 \<notin> set ?e" using assms(2) by (meson set_dropWhileD set_takeWhileD)
  then have c: "cname (if length ?e \<ge> DIRSIZ then put_bytes 0 (take DIRSIZ ?e) name else (put_bytes 0 ?e name)[length ?e := 0]) = take DIRSIZ e"
    using cname_put [OF assms(1)] e(1) by simp
  have r: "?r = [] \<longleftrightarrow> es = []" using elements_Nil_iff [of "dropWhile (\<lambda>c. c \<noteq> 47) ?p"] e(2) by simp
  have "set ?r \<subseteq> set path" by (meson set_dropWhileD subsetI)
  then show ?thesis using Cons p c r e by (simp add: skipelem_def Let_def)
qed

theorem skipelem_elements_witness:
  "\<exists>rest name'. skipelem [47, 97, 47, 47, 98, 98] (replicate 14 0) = Some (rest, name') \<and> cname name' = [97] \<and> elements rest = [[98, 98]]"
  using skipelem_elements [of "replicate 14 0" "[47, 97, 47, 47, 98, 98]"] by (auto simp: elements_def)


text \<open>A root directory with the entries \<open>.\<close> and \<open>f\<close>, in slot 3 of the inode table.\<close>

definition root_inode :: inode where
  "root_inode = no_inode\<lparr>i_dev := ROOTDEV, i_inum := 1, i_ref := 1, i_valid := 1, i_type := T_DIR, i_nlink := 1, i_size := 32,
     i_addrs := 46 # replicate 12 0\<rparr>"

definition root_fs :: kfs where
  "root_fs = one_fs ([1, 0, 46] @ replicate 13 0 @ [2, 0, 102] @ replicate 1005 0) root_inode"

lemma root_fs_ok:
  "fs_file 0 2 3 root_fs" "logged root_fs = []" "sb root_fs = boot_sb" "inodes root_fs = (\<lambda>_. no_inode)(3 := root_inode)"
  "fdata (ldisk root_fs) root_inode = [1, 0, 46] @ replicate 13 0 @ [2, 0, 102] @ replicate 13 0"
  "2 \<le> card (free_blocks (ldisk root_fs) boot_sb)" "dir_ok boot_sb (ldisk root_fs) root_inode"
proof -
  have h: "i_dev root_inode = ROOTDEV" "i_addrs root_inode = 46 # replicate 12 0" "0 < unat (i_size root_inode)"
    "unat (i_size root_inode) \<le> BSIZE" "unat (i_size root_inode) = 32" "i_type root_inode = T_DIR" by (simp_all add: root_inode_def)
  have w: "length ([1, 0, 46] @ replicate 13 0 @ [2, 0, 102] @ replicate 1005 (0 :: u8)) = BSIZE" by simp
  note O = one_fs_ok [OF w h(1-4), folded root_fs_def]
  show "fs_file 0 2 3 root_fs" "logged root_fs = []" "sb root_fs = boot_sb" "inodes root_fs = (\<lambda>_. no_inode)(3 := root_inode)"
    "2 \<le> card (free_blocks (ldisk root_fs) boot_sb)" by (fact O)+
  show "fdata (ldisk root_fs) root_inode = [1, 0, 46] @ replicate 13 0 @ [2, 0, 102] @ replicate 13 0" using O(5) h(5) by simp
  show "dir_ok boot_sb (ldisk root_fs) root_inode" using fs_fileD(4) [OF O(1)] O(3,4) h(5,6) by (simp add: dir_ok_def)
qed

lemma first_idx_2: "first_idx P 0 2 = (if P 0 then Some 0 else if P (Suc 0) then Some (Suc 0) else None)"
  by (simp add: numeral_2_eq_2)

lemma root_entries:
  "dir_slots root_inode = 2" "dirent (ldisk root_fs) root_inode 0 = [1, 0, 46] @ replicate 13 0"
  "dirent (ldisk root_fs) root_inode (Suc 0) = [2, 0, 102] @ replicate 13 0"
proof -
  show "dir_slots root_inode = 2" by (simp add: dir_slots_def root_inode_def)
  show "dirent (ldisk root_fs) root_inode 0 = [1, 0, 46] @ replicate 13 0"
    "dirent (ldisk root_fs) root_inode (Suc 0) = [2, 0, 102] @ replicate 13 0" by (simp_all add: dirent_def root_fs_ok(5))
qed

lemma root_names:
  "de_inum ([1, 0, 46] @ replicate 13 0) = 1" "de_inum ([2, 0, 102] @ replicate 13 0) = 2"
  "cname (de_name ([1, 0, 46] @ replicate 13 0)) = [46]" "cname (de_name ([2, 0, 102] @ replicate 13 0)) = [102]"
  "cname [102] = [102]" "cname [103] = [103]"
  by (simp_all add: de_inum_def de_name_def cname_def get_le_def get_bytes_def)

lemma root_find:
  "dir_find (ldisk root_fs) root_inode [102] = Some (Suc 0)" "dir_find (ldisk root_fs) root_inode [103] = None"
  unfolding dir_find_def root_entries(1) first_idx_2 root_entries(2,3) entry_for_def root_names by simp_all

lemma root_cache: "running 0 root_fs" "icache_ok (inodes root_fs)" "sint (i_ref (inodes root_fs i)) < 2 ^ 31 - 1"
proof -
  show "running 0 root_fs" using ftxD(3) [OF fs_fileD(1) [OF root_fs_ok(1)]] .
  show "icache_ok (inodes root_fs)" "sint (i_ref (inodes root_fs i)) < 2 ^ 31 - 1"
    by (auto simp: root_fs_ok(4) icache_ok_def inode_in_def root_inode_def no_inode_def)
qed

lemma root_slot: "iget_slot ROOTDEV 1 (inodes root_fs) = Some 3" "iget_slot ROOTDEV 2 (inodes root_fs) = Some 0"
proof -
  let ?f = "inodes root_fs"
  have "first_idx (inode_in ?f ROOTDEV 1) 0 NINODE = Some 3" by (rule first_idx_eqI) (auto simp: root_fs_ok(4) inode_in_def root_inode_def no_inode_def)
  moreover have "first_idx (inode_in ?f ROOTDEV 2) 0 NINODE = None"
    by (auto simp: first_idx_None_iff root_fs_ok(4) inode_in_def root_inode_def no_inode_def)
  moreover have "first_idx (\<lambda>i. i_ref (?f i) = 0) 0 NINODE = Some 0" by (rule first_idx_eqI) (auto simp: root_fs_ok(4) no_inode_def)
  ultimately show "iget_slot ROOTDEV 1 ?f = Some 3" "iget_slot ROOTDEV 2 ?f = Some 0" by (simp_all add: iget_slot_def)
qed


text \<open>
  C30. \<open>dirlookup\<close> in a sound directory is a search through its entries in order: if no entry in use has the name, up to its 14th byte or a
  NUL, it returns nothing; otherwise it gets the inode of the first such entry and returns it with the entry's offset.
  No block and no inode changes before the \<open>iget\<close>.
\<close>

theorem dirlookup_search:
  assumes "ftx p st {} s" "dir_ok (sb s) (ldisk s) (inodes s dp)" "length (logged s) < NBUF"
  shows "\<exists>s1. ftx p st {} s1 \<and> ldisk s1 = ldisk s \<and> disk s1 = disk s \<and> inodes s1 = inodes s \<and> dirlookup dp name s =
    (case List.find (\<lambda>k. entry_for name (dirent (ldisk s) (inodes s dp) k)) [0..<dir_slots (inodes s dp)] of
       None \<Rightarrow> Inr (None, s1)
     | Some k \<Rightarrow> bnd (iget ROOTDEV (ucast (de_inum (dirent (ldisk s) (inodes s dp) k))) s1) (\<lambda>(ip, s). Inr (Some (ip, of_nat (16 * k)), s)))"
proof -
  have find: "first_idx P i n = List.find P [i..<i + n]" for P i n
    by (induction n arbitrary: i) (simp_all add: upt_conv_Cons del: upt_Suc)
  obtain s1 where s1: "ftx p st {} s1" "quiet s s1" "dirlookup dp name s =
    (case dir_find (ldisk s) (inodes s dp) name of
       None \<Rightarrow> Inr (None, s1)
     | Some k \<Rightarrow> bnd (iget ROOTDEV (ucast (de_inum (dirent (ldisk s) (inodes s dp) k))) s1) (\<lambda>(ip, s). Inr (Some (ip, of_nat (16 * k)), s)))"
    using dirlookup_spec [OF assms] by blast
  then show ?thesis using quietD [OF s1(2)] quiet_fs(2) [OF s1(2)] unfolding dir_find_def find by auto
qed

theorem dirlookup_search_witness:
  "\<exists>s1. inodes s1 = inodes root_fs \<and> dirlookup 3 [102] root_fs = bnd (iget ROOTDEV 2 s1) (\<lambda>(ip, s). Inr (Some (ip, 16), s))"
proof -
  have i: "inodes root_fs 3 = root_inode" using root_fs_ok(4) by simp
  have l: "[0..<2] = [0, Suc 0]" by (simp add: upt_rec)
  have e: "entry_for [102] (dirent (ldisk root_fs) root_inode (Suc 0))" "\<not> entry_for [102] (dirent (ldisk root_fs) root_inode 0)"
    "ucast (de_inum (dirent (ldisk root_fs) root_inode (Suc 0))) = (2 :: u32)"
    unfolding root_entries entry_for_def root_names by simp_all
  have "dir_ok (sb root_fs) (ldisk root_fs) (inodes root_fs 3)" "length (logged root_fs) < NBUF" unfolding i using root_fs_ok(2,3,7) by simp_all
  from dirlookup_search [OF fs_fileD(1) [OF root_fs_ok(1)] this, of "[102]"] show ?thesis
    unfolding i root_entries(1) l using e by auto
qed

text \<open>
  C29. What is linked is found. \<open>dirlink\<close> of a name that a sound directory does not have puts it, with its inode number, into the first
  empty entry or behind the last one; all other entries and the search for every other name stay the same; and \<open>dirlookup\<close> of the name then
  returns a slot that holds this inode, and the entry's offset.
\<close>

theorem dirlink_dirlookup:
  assumes ok: "fs_file p st dp s" "dir_ok (sb s) (ldisk s) (inodes s dp)" "unat (i_inum (inodes s dp)) < unat (sb_ninodes (sb s))"
    "dir_find (ldisk s) (inodes s dp) name = None" "unat (i_size (inodes s dp)) + 16 \<le> MAXFILE * BSIZE"
    "2 \<le> card (free_blocks (ldisk s) (sb s))" "length (logged s) + 3 < LOGSIZE - 1"
    and n: "0 < unat n" "unat n < 65536" and c: "icache_ok (inodes s)" "iget_slot ROOTDEV n (inodes s) = Some i" "sint (i_ref (inodes s i)) < 2 ^ 31 - 1"
  shows "\<exists>s1 s2. dirlink dp name n s = Inr (0, s1) \<and> dir_ok (sb s1) (ldisk s1) (inodes s1 dp) \<and>
    (\<forall>j. j \<noteq> dir_slot (ldisk s) (inodes s dp) \<longrightarrow> dirent (ldisk s1) (inodes s1 dp) j = dirent (ldisk s) (inodes s dp) j) \<and>
    (\<forall>nm. cname nm \<noteq> cname name \<longrightarrow> dir_find (ldisk s1) (inodes s1 dp) nm = dir_find (ldisk s) (inodes s dp) nm) \<and>
    dirlookup dp name s1 = Inr (Some (i, of_nat (16 * dir_slot (ldisk s) (inodes s dp))), s2) \<and> inode_in (inodes s2) ROOTDEV n i"
proof -
  let ?I = "inodes s dp" let ?k = "dir_slot (ldisk s) ?I"
  obtain s1 where s1: "dirlink dp name n s = Inr (0, s1)" "fs_file p st dp s1" "dir_ok (sb s1) (ldisk s1) (inodes s1 dp)"
    "\<forall>j. dirent (ldisk s1) (inodes s1 dp) j = (if j = ?k then new_entry name n else dirent (ldisk s) ?I j)"
    "dir_slots (inodes s1 dp) = max (dir_slots ?I) (?k + 1)" "length (logged s1) \<le> length (logged s) + 4" "\<forall>i. i \<noteq> dp \<longrightarrow> inodes s1 i = inodes s i"
    "inodes s1 dp = ?I\<lparr>i_size := i_size (inodes s1 dp), i_addrs := i_addrs (inodes s1 dp)\<rparr>"
    using dirlink_spec [OF ok] by blast
  have un: "(ucast n :: u16) \<noteq> 0" "ucast (ucast n :: u16) = n"
    using n by (auto simp: word_unat_eq_iff unsigned_ucast_eq unsigned_take_bit_eq take_bit_nat_eq_self)
  note D = dir_find_link [OF s1(4) [rule_format] s1(5)]
  have same: "i_ref (inodes s1 j) = i_ref (inodes s j)" "i_dev (inodes s1 j) = i_dev (inodes s j)" "i_inum (inodes s1 j) = i_inum (inodes s j)" for j
    using s1(7) arg_cong [OF s1(8), of i_ref] arg_cong [OF s1(8), of i_dev] arg_cong [OF s1(8), of i_inum] by (cases "j = dp", simp_all)+
  have in_eq: "inode_in (inodes s1) = inode_in (inodes s)" by (simp add: inode_in_def fun_eq_iff same)
  have ok1: "icache_ok (inodes s1)" using c(1) unfolding icache_ok_def in_eq same .
  have sl: "iget_slot ROOTDEV n (inodes s1) = Some i" using c(2) unfolding iget_slot_def in_eq same .
  have r1: "length (logged s1) < NBUF" using s1(6) ok(7) by linarith
  obtain s' where s': "ftx p st {} s'" "quiet s1 s'" "dirlookup dp name s1 =
    bnd (iget ROOTDEV (ucast (de_inum (new_entry name n))) s') (\<lambda>(ip, s). Inr (Some (ip, of_nat (16 * ?k)), s))"
    using dirlookup_spec [OF fs_fileD(1) [OF s1(2)] s1(3) r1, of name] D(2) [OF ok(4) un(1)] s1(4) by auto
  have inum: "ucast (de_inum (new_entry name n)) = n" using un(2) new_entry_parts(1) by simp
  have q: "inodes s' = inodes s1" using quiet_fs(2) [OF s'(2)] .
  have look: "dirlookup dp name s1 = Inr (Some (i, of_nat (16 * ?k)), upd_inode i (iget_inode ROOTDEV n) s')"
    unfolding s'(3) inum iget_eq [OF ftxD(3) [OF s'(1)]] q sl by simp
  have "inode_in ((inodes s1)(i := iget_inode ROOTDEV n (inodes s1 i))) ROOTDEV n i"
    by (rule icache_get(3) [OF ok1 sl]) (use c(3) same in simp)
  then have "inode_in (inodes (upd_inode i (iget_inode ROOTDEV n) s')) ROOTDEV n i" using q by (simp add: upd_inode_def)
  then show ?thesis using s1(1,3,4) D(1) look by (intro exI [of _ s1] exI [of _ "upd_inode i (iget_inode ROOTDEV n) s'"]) simp
qed

theorem dirlink_dirlookup_witness:
  "\<exists>s1 s2. dirlink 3 [103] 2 root_fs = Inr (0, s1) \<and> dirlookup 3 [103] s1 = Inr (Some (0, 32), s2) \<and> inode_in (inodes s2) ROOTDEV 2 0"
proof -
  have i: "inodes root_fs 3 = root_inode" using root_fs_ok(4) by simp
  have sl: "dir_slot (ldisk root_fs) root_inode = 2"
    unfolding dir_slot_def root_entries(1) first_idx_2 root_entries(2,3) root_names by simp
  have p: "unat (i_inum (inodes root_fs 3)) < unat (sb_ninodes (sb root_fs))" "unat (i_size (inodes root_fs 3)) + 16 \<le> MAXFILE * BSIZE"
    "dir_ok (sb root_fs) (ldisk root_fs) (inodes root_fs 3)" "dir_find (ldisk root_fs) (inodes root_fs 3) [103] = None"
    "2 \<le> card (free_blocks (ldisk root_fs) (sb root_fs))" "length (logged root_fs) + 3 < LOGSIZE - 1"
    unfolding i root_fs_ok(2,3) by (simp_all add: root_find root_fs_ok(6,7)) (simp_all add: root_inode_def boot_sb_def)
  show ?thesis
    using dirlink_dirlookup [OF root_fs_ok(1) p(3,1,4,2,5,6) _ _ root_cache(2) root_slot(2) root_cache(3)] unfolding i sl by auto
qed

end
