(* ===== verification/Console.thy ===== *)
theory Console
  imports Fs
begin

unbundle bit_operations_syntax

text \<open>
  Console output and input: kernel/printf.c, kernel/uart.c, kernel/plic.c and the ten virtual consoles
  of kernel/console.c. The UART is modelled by the bytes it received and has not yet handed over, the
  bytes it was told to send, and its control registers; its transmitter is always ready.
\<close>

section \<open>State\<close>

record input =
  in_buf :: "u8 list"
  in_r :: u32
  in_w :: u32
  in_e :: u32

record kcons = kfs +
  vcons :: "nat \<Rightarrow> input"
  consa :: nat
  active :: int
  uart_rx :: "u8 list"
  uart_tx :: "u8 list"
  uart_regs :: "nat \<Rightarrow> u8"
  plic_regs :: "u64 \<Rightarrow> u32"
  panicked :: u32
  pr_locking :: bool

abbreviation (input) INPUT_BUF :: nat where "INPUT_BUF \<equiv> 128"
abbreviation (input) BACKSPACE :: u32 where "BACKSPACE \<equiv> 0x100"

definition bytes :: "string \<Rightarrow> u8 list" where
  "bytes cs = map of_char cs"

section \<open>The UART\<close>

definition uartinit :: "'a kcons_scheme \<Rightarrow> 'a kcons_scheme" where
  "uartinit s = s\<lparr>uart_regs := fold (\<lambda>(r, v) m. m(r := v))
     [(1, 0x00), (3, 0x80), (0, 0x03), (1, 0x00), (3, 0x03), (2, 0x07), (1, 0x01)] (uart_regs s)\<rparr>"

definition uartputc :: "u32 \<Rightarrow> 'a kcons_scheme \<Rightarrow> 'a kcons_scheme" where
  "uartputc c s = s\<lparr>uart_tx := uart_tx s @ [ucast c]\<rparr>"

definition uartgetc :: "'a kcons_scheme \<Rightarrow> int \<times> 'a kcons_scheme" where
  "uartgetc s = (case uart_rx s of [] \<Rightarrow> (-1, s) | c # cs \<Rightarrow> (uint c, s\<lparr>uart_rx := cs\<rparr>))"

definition consputc :: "u32 \<Rightarrow> 'a kcons_scheme \<Rightarrow> 'a kcons_scheme result" where
  "consputc c s =
     (if panicked s \<noteq> 0 then Inl Halted
      else if c = BACKSPACE then Inr (uartputc 8 (uartputc 32 (uartputc 8 s)))
      else Inr (uartputc c s))"

section \<open>printf\<close>

definition digits :: string where
  "digits = ''0123456789abcdef''"

text \<open>The do-while loop of \<open>printint\<close>: the digits, the least significant first.\<close>

function printint_digits :: "nat \<Rightarrow> nat \<Rightarrow> string" where
  "printint_digits base x =
     digits ! (x mod base) # (if base \<le> 1 \<or> x div base = 0 then [] else printint_digits base (x div base))"
  by pat_completeness auto
termination
  by (relation "measure (\<lambda>(base, x). x)") (auto simp: div_less_dividend div_eq_0_iff)

declare printint_digits.simps [simp del]

definition printint :: "u32 \<Rightarrow> nat \<Rightarrow> bool \<Rightarrow> u8 list" where
  "printint xx base sn =
     (let neg = sn \<and> sint xx < 0;
          x = (if neg then - xx else xx);
          buf = printint_digits base (unat x) @ (if neg then ''-'' else [])
      in bytes (rev buf))"

definition printptr :: "u64 \<Rightarrow> u8 list" where
  "printptr x = bytes (''0x'' @ map (\<lambda>i. digits ! unat (drop_bit 60 (push_bit (4 * i) x))) [0..<16])"

text \<open>
  The arguments of \<open>printf\<close>: a 64-bit slot, or a string (or a null pointer). An argument that does not fit its
  conversion, or is missing, is undefined in C, and \<open>None\<close> here.
\<close>

datatype va_arg = ANum u64 | AStr "u8 list option"

fun format :: "string \<Rightarrow> va_arg list \<Rightarrow> u8 list option" where
  "format [] as = Some []"
| "format (c # f) as =
     (if c \<noteq> CHR ''%'' then map_option ((@) (bytes [c])) (format f as)
      else case f of
        [] \<Rightarrow> Some []
      | d # f \<Rightarrow>
          if d = CHR ''d'' then
            (case as of ANum x # as \<Rightarrow> map_option ((@) (printint (ucast x) 10 True)) (format f as) | _ \<Rightarrow> None)
          else if d = CHR ''x'' then
            (case as of ANum x # as \<Rightarrow> map_option ((@) (printint (ucast x) 16 True)) (format f as) | _ \<Rightarrow> None)
          else if d = CHR ''p'' then
            (case as of ANum x # as \<Rightarrow> map_option ((@) (printptr x)) (format f as) | _ \<Rightarrow> None)
          else if d = CHR ''s'' then
            (case as of
               AStr str # as \<Rightarrow>
                 map_option ((@) (case str of None \<Rightarrow> bytes ''(null)'' | Some cs \<Rightarrow> takeWhile (\<lambda>c. c \<noteq> 0) cs)) (format f as)
             | _ \<Rightarrow> None)
          else if d = CHR ''%'' then map_option ((@) (bytes ''%'')) (format f as)
          else map_option ((@) (bytes [CHR ''%'', d])) (format f as))"

definition printf :: "string \<Rightarrow> va_arg list \<Rightarrow> 'a kcons_scheme \<Rightarrow> 'a kcons_scheme result" where
  "printf fmt as s =
     bnd (if pr_locking s then acquire LkPr s else Inr s) (\<lambda>t.
     case format fmt as of
       None \<Rightarrow> Inl Undef
     | Some out \<Rightarrow>
         if panicked t \<noteq> 0 \<and> out \<noteq> [] then Inl Halted
         else let t = t\<lparr>uart_tx := uart_tx t @ out\<rparr> in
           if pr_locking s then release LkPr t else Inr t)"

text \<open>The state in which \<open>panic\<close> stops the CPU.\<close>

definition panic :: "string \<Rightarrow> 'a kcons_scheme \<Rightarrow> 'a kcons_scheme result" where
  "panic msg s =
     bnd (printf ''panic: '' [] (s\<lparr>pr_locking := False\<rparr>)) (\<lambda>s.
     bnd (printf msg [] s) (\<lambda>s.
     bnd (printf [CHR 0x0a] [] s) (\<lambda>s.
     Inr (s\<lparr>panicked := 1\<rparr>))))"

definition printfinit :: "'a kcons_scheme \<Rightarrow> 'a kcons_scheme" where
  "printfinit s = s\<lparr>pr_locking := True\<rparr>"

definition state_name :: "procstate \<Rightarrow> string" where
  "state_name st = (case st of UNUSED \<Rightarrow> ''unused'' | SLEEPING \<Rightarrow> ''sleep '' | RUNNABLE \<Rightarrow> ''runble''
     | RUNNING \<Rightarrow> ''run   '' | ZOMBIE \<Rightarrow> ''zombie'' | SUSPENDED \<Rightarrow> ''suspended'')"

definition procdump :: "'a kcons_scheme \<Rightarrow> 'a kcons_scheme result" where
  "procdump s =
     bnd (printf [CHR 0x0a] [] s) (\<lambda>s.
     loop (\<lambda>i s.
       if p_state (procs s i) = UNUSED then Inr s
       else bnd (printf ''%d %s %s'' [ANum (ucast (p_pid (procs s i))), AStr (Some (bytes (state_name (p_state (procs s i))))),
              AStr (Some (p_name (procs s i)))] s) (\<lambda>s.
         printf [CHR 0x0a] [] s)) [0..<NPROC] s)"

section \<open>The interrupt controller\<close>

abbreviation (input) PLIC :: u64 where "PLIC \<equiv> 0x0c000000"
abbreviation (input) UART0_IRQ :: u32 where "UART0_IRQ \<equiv> 10"
abbreviation (input) VIRTIO0_IRQ :: u32 where "VIRTIO0_IRQ \<equiv> 1"

definition PLIC_SENABLE :: "nat \<Rightarrow> u64" where "PLIC_SENABLE hart = PLIC + 0x2080 + of_nat hart * 0x100"
definition PLIC_SPRIORITY :: "nat \<Rightarrow> u64" where "PLIC_SPRIORITY hart = PLIC + 0x201000 + of_nat hart * 0x2000"
definition PLIC_SCLAIM :: "nat \<Rightarrow> u64" where "PLIC_SCLAIM hart = PLIC + 0x201004 + of_nat hart * 0x2000"

definition plicinit :: "'a kcons_scheme \<Rightarrow> 'a kcons_scheme" where
  "plicinit s = s\<lparr>plic_regs := (plic_regs s)(PLIC + ucast UART0_IRQ * 4 := 1, PLIC + ucast VIRTIO0_IRQ * 4 := 1)\<rparr>"

definition plicinithart :: "nat \<Rightarrow> 'a kcons_scheme \<Rightarrow> 'a kcons_scheme" where
  "plicinithart hart s =
     s\<lparr>plic_regs := (plic_regs s)(PLIC_SENABLE hart := push_bit 10 1 OR push_bit 1 1, PLIC_SPRIORITY hart := 0)\<rparr>"

definition plic_claim :: "nat \<Rightarrow> 'a kcons_scheme \<Rightarrow> u32" where
  "plic_claim hart s = plic_regs s (PLIC_SCLAIM hart)"

definition plic_complete :: "nat \<Rightarrow> u32 \<Rightarrow> 'a kcons_scheme \<Rightarrow> 'a kcons_scheme" where
  "plic_complete hart irq s = s\<lparr>plic_regs := (plic_regs s)(PLIC_SCLAIM hart := irq)\<rparr>"

section \<open>The virtual consoles\<close>

definition upd_cons :: "nat \<Rightarrow> (input \<Rightarrow> input) \<Rightarrow> 'a kcons_scheme \<Rightarrow> 'a kcons_scheme" where
  "upd_cons i f s = s\<lparr>vcons := (vcons s)(i := f (vcons s i))\<rparr>"

text \<open>\<open>consolewrite\<close>: the loop stops at the first byte that cannot be read.\<close>

fun consolewrite_from :: "nat \<Rightarrow> place \<Rightarrow> nat \<Rightarrow> 'a kcons_scheme \<Rightarrow> 'a kcons_scheme result" where
  "consolewrite_from cons src 0 s = Inr s"
| "consolewrite_from cons src (Suc n) s =
     bnd (get_from src 1 s) (\<lambda>(r, data, src).
     if r = -1 then Inr s
     else bnd (if cons = consa s then consputc (ucast (hd data)) s else Inr s) (\<lambda>s.
       consolewrite_from cons src n s))"

definition consolewrite :: "nat \<Rightarrow> place \<Rightarrow> u32 \<Rightarrow> 'a kcons_scheme \<Rightarrow> (u32 \<times> 'a kcons_scheme) result" where
  "consolewrite cons src n s =
     bnd (acquire (LkCons cons) s) (\<lambda>s.
     bnd (consolewrite_from cons src (nat (sint n)) s) (\<lambda>s.
     bnd (release (LkCons cons) s) (\<lambda>s.
     Inr (n, s))))"

text \<open>
  \<open>consoleread\<close> may sleep in the middle of its loop. \<open>CWait\<close> is the point at which it sleeps, with the
  values of \<open>dst\<close> and \<open>n\<close>: when it wakes up it holds the lock again and goes on from there.
\<close>

datatype cread_out = CDone u32 | CWait place u32

fun consoleread_from :: "nat \<Rightarrow> nat \<Rightarrow> place \<Rightarrow> u32 \<Rightarrow> u32 \<Rightarrow> 'a kcons_scheme \<Rightarrow> (cread_out \<times> 'a kcons_scheme) result" where
  "consoleread_from 0 cons dst n target s = Inl NoFuel"
| "consoleread_from (Suc fuel) cons dst n target s =
     (if sint n > 0 then
        if in_r (vcons s cons) = in_w (vcons s cons) then
          bnd (myproc s) (\<lambda>p.
          if p_killed (procs s p) \<noteq> 0 then bnd (release (LkCons cons) s) (\<lambda>s. Inr (CDone (-1), s))
          else Inr (CWait dst n, s))
        else
          let c = in_buf (vcons s cons) ! (unat (in_r (vcons s cons)) mod INPUT_BUF);
              s = upd_cons cons (\<lambda>x. x\<lparr>in_r := in_r x + 1\<rparr>) s
          in if c = 4 then
               let s = (if n < target then upd_cons cons (\<lambda>x. x\<lparr>in_r := in_r x - 1\<rparr>) s else s) in
               bnd (release (LkCons cons) s) (\<lambda>s. Inr (CDone (target - n), s))
             else bnd (put_to dst [c] s) (\<lambda>(r, dst, s).
               if r = -1 then bnd (release (LkCons cons) s) (\<lambda>s. Inr (CDone (target - n), s))
               else if c = 10 then bnd (release (LkCons cons) s) (\<lambda>s. Inr (CDone (target - (n - 1)), s))
               else consoleread_from fuel cons dst (n - 1) target s)
      else bnd (release (LkCons cons) s) (\<lambda>s. Inr (CDone (target - n), s)))"

definition consoleread :: "nat \<Rightarrow> place \<Rightarrow> u32 \<Rightarrow> 'a kcons_scheme \<Rightarrow> (cread_out \<times> 'a kcons_scheme) result" where
  "consoleread cons dst n s =
     bnd (acquire (LkCons cons) s) (\<lambda>s.
     consoleread_from (Suc (nat (sint n))) cons dst n n s)"

text \<open>The loop of \<open>control-U\<close>: erase to the start of the line.\<close>

fun kill_line :: "nat \<Rightarrow> 'a kcons_scheme \<Rightarrow> 'a kcons_scheme result" where
  "kill_line 0 s = Inr s"
| "kill_line (Suc k) s =
     (let c = vcons s (consa s) in
      if in_e c \<noteq> in_w c \<and> in_buf c ! (unat (in_e c - 1) mod INPUT_BUF) \<noteq> 10 then
        bnd (consputc BACKSPACE (upd_cons (consa s) (\<lambda>x. x\<lparr>in_e := in_e x - 1\<rparr>) s)) (kill_line k)
      else Inr s)"

definition console_key :: "u32 \<Rightarrow> nat \<Rightarrow> 'a kcons_scheme \<Rightarrow> 'a kcons_scheme result" where
  "console_key c a s =
     (if c = 16 then procdump s
      else if c = 21 then kill_line (unat (in_e (vcons s a) - in_w (vcons s a))) s
      else if c = 8 \<or> c = 0x7f then
        (if in_e (vcons s a) \<noteq> in_w (vcons s a)
         then consputc BACKSPACE (upd_cons a (\<lambda>x. x\<lparr>in_e := in_e x - 1\<rparr>) s) else Inr s)
      else if c = 14 \<or> c = 2 then Inr s
      else if c \<noteq> 0 \<and> unat (in_e (vcons s a) - in_r (vcons s a)) < INPUT_BUF then
        let c = (if c = 13 then 10 else c) in
        bnd (consputc c s) (\<lambda>s.
        let s = upd_cons a (\<lambda>x. x\<lparr>in_buf := (in_buf x)[unat (in_e x) mod INPUT_BUF := ucast c], in_e := in_e x + 1\<rparr>) s in
        if c = 10 \<or> c = 4 \<or> in_e (vcons s a) = in_r (vcons s a) + of_nat INPUT_BUF
        then wakeup (ChConsRead a) (upd_cons a (\<lambda>x. x\<lparr>in_w := in_e x\<rparr>) s)
        else Inr s)
      else Inr s)"

definition consoleintr :: "u32 \<Rightarrow> 'a kcons_scheme \<Rightarrow> 'a kcons_scheme result" where
  "consoleintr c s =
     (let a = consa s;
          move = (if c = 14 then 1 else if c = 2 then -1 else 0 :: int)
      in bnd (acquire (LkCons a) s) (\<lambda>s.
         bnd (console_key c a s) (\<lambda>s.
         bnd (release (LkCons a) s) (\<lambda>s.
         if move \<noteq> 0 \<and> move + active s \<ge> 0 \<and> move + active s < 10 then
           let act = active s + move; s = s\<lparr>active := act, consa := nat act\<rparr> in
           printf (CHR 0x0a # ''Active console now: %d'' @ [CHR 0x0a]) [ANum (of_int act)] s
         else Inr s))))"

fun uartintr_from :: "nat \<Rightarrow> 'a kcons_scheme \<Rightarrow> 'a kcons_scheme result" where
  "uartintr_from 0 s = Inl NoFuel"
| "uartintr_from (Suc fuel) s =
     (let (c, s) = uartgetc s in
      if c = -1 then Inr s else bnd (consoleintr (of_int c) s) (uartintr_from fuel))"

definition uartintr :: "'a kcons_scheme \<Rightarrow> 'a kcons_scheme result" where
  "uartintr s = uartintr_from (Suc (length (uart_rx s))) s"

text \<open>
  A device read that has to wait is the outcome \<open>Sleep\<close> for the system call above it.
\<close>

definition cread :: "nat \<Rightarrow> place \<Rightarrow> u32 \<Rightarrow> 'a kcons_scheme \<Rightarrow> (u32 \<times> 'a kcons_scheme) result" where
  "cread vc dst n s =
     bnd (consoleread vc dst n s) (\<lambda>(r, s).
     case r of CDone k \<Rightarrow> Inr (k, s) | CWait _ _ \<Rightarrow> Inl (Sleep (ChConsRead vc)))"

definition cwrite :: "nat \<Rightarrow> place \<Rightarrow> u32 \<Rightarrow> 'a kcons_scheme \<Rightarrow> (u32 \<times> 'a kcons_scheme) result" where
  "cwrite vc src n s = consolewrite vc src n s"

definition consoleinit :: "'a kcons_scheme \<Rightarrow> 'a kcons_scheme" where
  "consoleinit s =
     (let s = fold (\<lambda>i s. upd_cons i (\<lambda>x. x\<lparr>in_r := 0, in_w := 0, in_e := 0\<rparr>) s) [0..<10] s
      in uartinit (s\<lparr>consa := 0, active := 0\<rparr>))"

end
