(* ===== verification/File.thy ===== *)
theory File
  imports Console
begin

text \<open>
  Open files and pipes: kernel/file.c and kernel/pipe.c. A pipe lives in a page of its own; the model
  keeps the structure under the page's address. A routine that sleeps in the middle of its loop returns the
  point it has reached.
\<close>

abbreviation (input) PIPESIZE :: nat where "PIPESIZE \<equiv> 512"

datatype fdtype = FD_NONE | FD_PIPE | FD_INODE | FD_DEVICE

record struct_file =
  f_type :: fdtype
  f_ref :: u32
  f_readable :: u8
  f_writable :: u8
  f_pipe :: u64
  f_ip :: nat
  f_off :: u32
  f_major :: u16

record pipe =
  pi_data :: "u8 list"
  pi_nread :: u32
  pi_nwrite :: u32
  pi_readopen :: u32
  pi_writeopen :: u32

text \<open>\<open>devsw i\<close>: device \<open>i\<close> is connected to the console routines.\<close>

record kfile = kcons +
  files :: "nat \<Rightarrow> struct_file"
  pipes :: "u64 \<Rightarrow> pipe"
  devsw :: "nat \<Rightarrow> bool"

definition upd_file :: "nat \<Rightarrow> (struct_file \<Rightarrow> struct_file) \<Rightarrow> 'a kfile_scheme \<Rightarrow> 'a kfile_scheme" where
  "upd_file f g s = s\<lparr>files := (files s)(f := g (files s f))\<rparr>"

definition upd_pipe :: "u64 \<Rightarrow> (pipe \<Rightarrow> pipe) \<Rightarrow> 'a kfile_scheme \<Rightarrow> 'a kfile_scheme" where
  "upd_pipe pi g s = s\<lparr>pipes := (pipes s)(pi := g (pipes s pi))\<rparr>"

section \<open>Allocation\<close>

definition filealloc :: "'a kfile_scheme \<Rightarrow> (nat option \<times> 'a kfile_scheme) result" where
  "filealloc s =
     bnd (acquire LkFtable s) (\<lambda>s.
     case first_idx (\<lambda>f. f_ref (files s f) = 0) 0 NFILE of
       Some f \<Rightarrow> bnd (release LkFtable (upd_file f (\<lambda>x. x\<lparr>f_ref := 1\<rparr>) s)) (\<lambda>s. Inr (Some f, s))
     | None \<Rightarrow> bnd (release LkFtable s) (\<lambda>s. Inr (None, s)))"

definition filedup :: "nat \<Rightarrow> 'a kfile_scheme \<Rightarrow> (nat \<times> 'a kfile_scheme) result" where
  "filedup f s =
     bnd (acquire LkFtable s) (\<lambda>s.
     if sint (f_ref (files s f)) < 1 then Inl (Panic ''filedup'')
     else bnd (release LkFtable (upd_file f (\<lambda>x. x\<lparr>f_ref := f_ref x + 1\<rparr>) s)) (\<lambda>s. Inr (f, s)))"

section \<open>Pipes\<close>

definition pipeclose :: "u64 \<Rightarrow> bool \<Rightarrow> 'a kfile_scheme \<Rightarrow> 'a kfile_scheme result" where
  "pipeclose pi writable s =
     bnd (acquire (LkPipe pi) s) (\<lambda>s.
     bnd (if writable then wakeup (ChPipeRead pi) (upd_pipe pi (\<lambda>x. x\<lparr>pi_writeopen := 0\<rparr>) s)
          else wakeup (ChPipeWrite pi) (upd_pipe pi (\<lambda>x. x\<lparr>pi_readopen := 0\<rparr>) s)) (\<lambda>s.
     if pi_readopen (pipes s pi) = 0 \<and> pi_writeopen (pipes s pi) = 0
     then bnd (release (LkPipe pi) s) (\<lambda>s. kfree pi s)
     else release (LkPipe pi) s))"

text \<open>
  \<open>PDone n\<close>: the call returns \<open>n\<close>. \<open>PWait i\<close>: it sleeps, with \<open>i\<close> bytes behind it and the pipe's lock
  given up while it sleeps.
\<close>

datatype pipe_out = PDone u32 | PWait nat

definition pipe_put :: "u8 \<Rightarrow> pipe \<Rightarrow> pipe" where
  "pipe_put ch x = x\<lparr>pi_data := (pi_data x)[unat (pi_nwrite x) mod PIPESIZE := ch], pi_nwrite := pi_nwrite x + 1\<rparr>"

definition pipe_get :: "pipe \<Rightarrow> u8 \<times> pipe" where
  "pipe_get x = (pi_data x ! (unat (pi_nread x) mod PIPESIZE), x\<lparr>pi_nread := pi_nread x + 1\<rparr>)"

fun pipewrite_from :: "u64 \<Rightarrow> u64 \<Rightarrow> u32 \<Rightarrow> nat \<Rightarrow> nat \<Rightarrow> 'a kfile_scheme \<Rightarrow> (pipe_out \<times> 'a kfile_scheme) result" where
  "pipewrite_from pi addr n i 0 s =
     bnd (wakeup (ChPipeRead pi) s) (\<lambda>s. bnd (release (LkPipe pi) s) (\<lambda>s. Inr (PDone n, s)))"
| "pipewrite_from pi addr n i (Suc k) s =
     bnd (myproc s) (\<lambda>p.
     if pi_nwrite (pipes s pi) = pi_nread (pipes s pi) + of_nat PIPESIZE then
       if pi_readopen (pipes s pi) = 0 \<or> p_killed (procs s p) \<noteq> 0
       then bnd (release (LkPipe pi) s) (\<lambda>s. Inr (PDone (-1), s))
       else bnd (wakeup (ChPipeRead pi) s) (\<lambda>s. Inr (PWait i, s))
     else bnd (copyin (p_pagetable (procs s p)) (addr + of_nat i) 1 s) (\<lambda>(r, ch).
       if r = -1
       then bnd (wakeup (ChPipeRead pi) s) (\<lambda>s. bnd (release (LkPipe pi) s) (\<lambda>s. Inr (PDone n, s)))
       else pipewrite_from pi addr n (Suc i) k (upd_pipe pi (pipe_put (hd ch)) s)))"

definition pipewrite :: "u64 \<Rightarrow> u64 \<Rightarrow> u32 \<Rightarrow> 'a kfile_scheme \<Rightarrow> (pipe_out \<times> 'a kfile_scheme) result" where
  "pipewrite pi addr n s =
     bnd (acquire (LkPipe pi) s) (\<lambda>s. pipewrite_from pi addr n 0 (nat (sint n)) s)"

fun piperead_from :: "u64 \<Rightarrow> u64 \<Rightarrow> nat \<Rightarrow> nat \<Rightarrow> 'a kfile_scheme \<Rightarrow> (nat \<times> 'a kfile_scheme) result" where
  "piperead_from pi addr i 0 s = Inr (i, s)"
| "piperead_from pi addr i (Suc k) s =
     bnd (myproc s) (\<lambda>p.
     if pi_nread (pipes s pi) = pi_nwrite (pipes s pi) then Inr (i, s)
     else
       let (ch, x) = pipe_get (pipes s pi);
           s = upd_pipe pi (\<lambda>_. x) s
       in bnd (copyout (p_pagetable (procs s p)) (addr + of_nat i) [ch] s) (\<lambda>(r, s).
          if r = -1 then Inr (i, s) else piperead_from pi addr (Suc i) k s))"

definition piperead :: "u64 \<Rightarrow> u64 \<Rightarrow> u32 \<Rightarrow> 'a kfile_scheme \<Rightarrow> (pipe_out \<times> 'a kfile_scheme) result" where
  "piperead pi addr n s =
     bnd (acquire (LkPipe pi) s) (\<lambda>s.
     bnd (myproc s) (\<lambda>p.
     if pi_nread (pipes s pi) = pi_nwrite (pipes s pi) \<and> pi_writeopen (pipes s pi) \<noteq> 0 then
       if p_killed (procs s p) \<noteq> 0 then bnd (release (LkPipe pi) s) (\<lambda>s. Inr (PDone (-1), s))
       else Inr (PWait 0, s)
     else bnd (piperead_from pi addr 0 (nat (sint n)) s) (\<lambda>(i, s).
       bnd (wakeup (ChPipeWrite pi) s) (\<lambda>s.
       bnd (release (LkPipe pi) s) (\<lambda>s.
       Inr (PDone (of_nat i), s))))))"

section \<open>Closing, reading and writing\<close>

definition fileclose :: "nat \<Rightarrow> 'a kfile_scheme \<Rightarrow> 'a kfile_scheme result" where
  "fileclose f s =
     bnd (acquire LkFtable s) (\<lambda>s.
     if sint (f_ref (files s f)) < 1 then Inl (Panic ''fileclose'')
     else
       let s = upd_file f (\<lambda>x. x\<lparr>f_ref := f_ref x - 1\<rparr>) s in
       if sint (f_ref (files s f)) > 0 then release LkFtable s
       else
         let ff = files s f; s = upd_file f (\<lambda>x. x\<lparr>f_ref := 0, f_type := FD_NONE\<rparr>) s in
         bnd (release LkFtable s) (\<lambda>s.
         if f_type ff = FD_PIPE then pipeclose (f_pipe ff) (f_writable ff \<noteq> 0) s
         else if f_type ff = FD_INODE \<or> f_type ff = FD_DEVICE then
           bnd (begin_op s) (\<lambda>s. bnd (iput (f_ip ff) s) (\<lambda>s. end_op s))
         else Inr s))"

text \<open>\<open>pipealloc\<close>; its two results are the files, \<open>None\<close> is the return value -1.\<close>

definition pipealloc_bad :: "nat option \<Rightarrow> nat option \<Rightarrow> 'a kfile_scheme \<Rightarrow> ((nat \<times> nat) option \<times> 'a kfile_scheme) result" where
  "pipealloc_bad f0 f1 s =
     bnd (case f0 of Some f \<Rightarrow> fileclose f s | None \<Rightarrow> Inr s) (\<lambda>s.
     bnd (case f1 of Some f \<Rightarrow> fileclose f s | None \<Rightarrow> Inr s) (\<lambda>s.
     Inr (None, s)))"

definition pipealloc :: "'a kfile_scheme \<Rightarrow> ((nat \<times> nat) option \<times> 'a kfile_scheme) result" where
  "pipealloc s =
     bnd (filealloc s) (\<lambda>(f0, s).
     case f0 of None \<Rightarrow> pipealloc_bad None None s
     | Some a \<Rightarrow>
         bnd (filealloc s) (\<lambda>(f1, s).
         case f1 of None \<Rightarrow> pipealloc_bad (Some a) None s
         | Some b \<Rightarrow>
             bnd (kalloc s) (\<lambda>(pi, s).
             if pi = 0 then pipealloc_bad (Some a) (Some b) s
             else
               let s = upd_pipe pi (\<lambda>x. x\<lparr>pi_data := replicate PIPESIZE 5, pi_readopen := 1, pi_writeopen := 1, pi_nwrite := 0, pi_nread := 0\<rparr>) s;
                   s = upd_file a (\<lambda>x. x\<lparr>f_type := FD_PIPE, f_readable := 1, f_writable := 0, f_pipe := pi\<rparr>) s;
                   s = upd_file b (\<lambda>x. x\<lparr>f_type := FD_PIPE, f_readable := 0, f_writable := 1, f_pipe := pi\<rparr>) s
               in Inr (Some (a, b), s))))"

text \<open>
  The bytes of a \<open>struct stat\<close>; the 4 bytes of padding before \<open>size\<close> hold whatever was on the kernel
  stack.
\<close>

definition stat_bytes :: "u8 list \<Rightarrow> stat \<Rightarrow> u8 list" where
  "stat_bytes pad st = le_bytes 4 (st_dev st) @ le_bytes 4 (st_ino st) @ le_bytes 2 (st_type st) @ le_bytes 2 (st_nlink st) @
     pad @ le_bytes 8 (st_size st)"

definition filestat :: "u8 list \<Rightarrow> nat \<Rightarrow> u64 \<Rightarrow> 'a kfile_scheme \<Rightarrow> (int \<times> 'a kfile_scheme) result" where
  "filestat pad f addr s =
     bnd (myproc s) (\<lambda>p.
     if f_type (files s f) = FD_INODE \<or> f_type (files s f) = FD_DEVICE then
       let ip = f_ip (files s f) in
       bnd (ilock ip s) (\<lambda>s.
       let st = stati ip s in
       bnd (iunlock ip s) (\<lambda>s.
       bnd (copyout (p_pagetable (procs s p)) addr (stat_bytes pad st) s) (\<lambda>(r, s).
       Inr (if r < 0 then -1 else 0, s))))
     else Inr (-1, s))"

definition pipe_result :: "chan \<Rightarrow> (pipe_out \<times> 's) result \<Rightarrow> (u32 \<times> 's) result" where
  "pipe_result ch r = bnd r (\<lambda>(out, s). case out of PDone n \<Rightarrow> Inr (n, s) | PWait _ \<Rightarrow> Inl (Sleep ch))"

definition fileread :: "nat \<Rightarrow> u64 \<Rightarrow> u32 \<Rightarrow> 'a kfile_scheme \<Rightarrow> (u32 \<times> 'a kfile_scheme) result" where
  "fileread f addr n s =
     (let ff = files s f in
      if f_readable ff = 0 then Inr (-1, s)
      else if f_type ff = FD_PIPE then pipe_result (ChPipeRead (f_pipe ff)) (piperead (f_pipe ff) addr n s)
      else if f_type ff = FD_DEVICE then
        (if sint (f_major ff) < 0 \<or> sint (f_major ff) \<ge> int NDEV \<or> \<not> devsw s (unat (f_major ff)) then Inr (-1, s)
         else cread (unat (f_major ff)) (User addr) n s)
      else if f_type ff = FD_INODE then
        bnd (ilock (f_ip ff) s) (\<lambda>s.
        bnd (readi (f_ip ff) (User addr) (f_off ff) n s) (\<lambda>(r, _, s).
        let s = (if sint r > 0 then upd_file f (\<lambda>x. x\<lparr>f_off := f_off x + r\<rparr>) s else s) in
        bnd (iunlock (f_ip ff) s) (\<lambda>s. Inr (r, s))))
      else Inl (Panic ''fileread''))"

text \<open>
  The loop of \<open>filewrite\<close> on an inode, one transaction for at most three blocks; \<open>k\<close> is \<open>n - i\<close>.
\<close>

definition advance :: "place \<Rightarrow> nat \<Rightarrow> place" where
  "advance src n = (case src of User a \<Rightarrow> User (a + of_nat n) | Ram a \<Rightarrow> Ram (a + of_nat n) | Local xs \<Rightarrow> Local (drop n xs))"

function filewrite_from :: "nat \<Rightarrow> place \<Rightarrow> nat \<Rightarrow> 'a kfile_scheme \<Rightarrow> (bool \<times> 'a kfile_scheme) result" where
  "filewrite_from f src k s =
     (if k = 0 then Inr (True, s)
      else
        let n1 = min k (3 * BSIZE) in
        bnd (begin_op s) (\<lambda>s.
        bnd (ilock (f_ip (files s f)) s) (\<lambda>s.
        bnd (writei (f_ip (files s f)) src (f_off (files s f)) (of_nat n1) s) (\<lambda>(r, s).
        let s = (if sint r > 0 then upd_file f (\<lambda>x. x\<lparr>f_off := f_off x + r\<rparr>) s else s) in
        bnd (iunlock (f_ip (files s f)) s) (\<lambda>s.
        bnd (end_op s) (\<lambda>s.
        if sint r < 0 then Inr (False, s)
        else if r \<noteq> of_nat n1 then Inl (Panic ''short filewrite'')
        else filewrite_from f (advance src n1) (k - n1) s))))))"
  by pat_completeness auto
termination
  by (relation "measure (\<lambda>(_, _, k, _). k)") auto

declare filewrite_from.simps [simp del]

text \<open>
  \<open>pipewrite\<close> takes every source address for one of the user: a variable of the kernel is somewhere on
  the kernel stack of the process.
\<close>

definition place_addr :: "place \<Rightarrow> 'a kproc_scheme \<Rightarrow> u64 result" where
  "place_addr src s = (case src of User a \<Rightarrow> Inr a | Ram a \<Rightarrow> Inr a
     | Local _ \<Rightarrow> bnd (myproc s) (\<lambda>p. Inr (p_kstack (procs s p))))"

definition filewrite :: "nat \<Rightarrow> place \<Rightarrow> u32 \<Rightarrow> 'a kfile_scheme \<Rightarrow> (u32 \<times> 'a kfile_scheme) result" where
  "filewrite f src n s =
     (let ff = files s f in
      if f_writable ff = 0 then Inr (-1, s)
      else if f_type ff = FD_PIPE then
        bnd (place_addr src s) (\<lambda>addr. pipe_result (ChPipeWrite (f_pipe ff)) (pipewrite (f_pipe ff) addr n s))
      else if f_type ff = FD_DEVICE then
        (if sint (f_major ff) < 0 \<or> sint (f_major ff) \<ge> int NDEV \<or> \<not> devsw s (unat (f_major ff)) then Inr (-1, s)
         else cwrite (unat (f_major ff)) src n s)
      else if f_type ff = FD_INODE then
        bnd (filewrite_from f src (nat (sint n)) s) (\<lambda>(ok, s).
        Inr (if ok \<and> sint n \<ge> 0 then n else -1, s))
      else Inl (Panic ''filewrite''))"

text \<open>The last lines of \<open>consoleinit\<close>: devices 0 to 9 are the virtual consoles.\<close>

definition connect_consoles :: "'a kfile_scheme \<Rightarrow> 'a kfile_scheme" where
  "connect_consoles s = s\<lparr>devsw := \<lambda>i. if i < 10 then True else devsw s i\<rparr>"

end
