(* ===== verification/Virtio.thy ===== *)
theory Virtio
  imports File
begin

unbundle bit_operations_syntax

text \<open>
  The disk driver of kernel/virtio_disk.c: the descriptors of queue 0, the rings shared with the device, and
  the driver's book-keeping. A descriptor's address is the object it points to: the request header on
  the kernel stack, the data of a buffer, or a status byte. \<open>virtio_disk_rw\<close> is split where it
  waits for the device.
\<close>

abbreviation (input) NUM :: nat where "NUM \<equiv> 8"

datatype dma = DNull | DHeader u32 u64 | DData nat | DStatus nat

record vdesc =
  d_addr :: dma
  d_len :: u32
  d_flags :: u16
  d_next :: u16

record kvio = kfile +
  vregs :: "nat \<Rightarrow> u32"
  vd_desc :: "nat \<Rightarrow> vdesc"
  vd_avail :: "nat \<Rightarrow> u16"
  vd_used_id :: u16
  vd_used_elems :: "nat \<Rightarrow> u32"
  vd_free :: "nat \<Rightarrow> bool"
  vd_used_idx :: u16
  vd_info_b :: "nat \<Rightarrow> nat option"
  vd_info_status :: "nat \<Rightarrow> u8"
  b_disk :: "nat \<Rightarrow> u32"

abbreviation (input) VRING_DESC_F_NEXT :: u16 where "VRING_DESC_F_NEXT \<equiv> 1"
abbreviation (input) VRING_DESC_F_WRITE :: u16 where "VRING_DESC_F_WRITE \<equiv> 2"

definition wreg :: "nat \<Rightarrow> u32 \<Rightarrow> 'a kvio_scheme \<Rightarrow> 'a kvio_scheme" where
  "wreg r v s = s\<lparr>vregs := (vregs s)(r := v)\<rparr>"

text \<open>
  \<open>pages\<close> is the address of \<open>disk.pages\<close>. The rings and descriptors lie in these two pages, which are cleared.
\<close>

definition virtio_disk_init :: "u64 \<Rightarrow> 'a kvio_scheme \<Rightarrow> 'a kvio_scheme result" where
  "virtio_disk_init pages s =
     (if vregs s 0x000 \<noteq> 0x74726976 \<or> vregs s 0x004 \<noteq> 1 \<or> vregs s 0x008 \<noteq> 2 \<or> vregs s 0x00c \<noteq> 0x554d4551
      then Inl (Panic ''could not find virtio disk'')
      else
        let s = wreg 0x070 1 s;
            s = wreg 0x070 (1 OR 2) s;
            features = fold (\<lambda>k f. f AND NOT (push_bit k 1)) [5, 7, 11, 12, 27, 29, 28] (vregs s 0x010);
            s = wreg 0x020 features s;
            s = wreg 0x070 (1 OR 2 OR 8) s;
            s = wreg 0x070 (1 OR 2 OR 8 OR 4) s;
            s = wreg 0x028 4096 s;
            s = wreg 0x030 0 s;
            mx = vregs s 0x034
        in if mx = 0 then Inl (Panic ''virtio disk has no queue 0'')
           else if mx < of_nat NUM then Inl (Panic ''virtio disk max queue too short'')
           else
             let s = wreg 0x038 (of_nat NUM) s;
                 s = s\<lparr>vd_desc := \<lambda>_. \<lparr>d_addr = DNull, d_len = 0, d_flags = 0, d_next = 0\<rparr>, vd_avail := \<lambda>_. 0,
                       vd_used_id := 0, vd_used_elems := \<lambda>_. 0\<rparr>;
                 s = wreg 0x040 (ucast (drop_bit 12 pages)) s
             in Inr (s\<lparr>vd_free := \<lambda>i. i < NUM \<or> vd_free s i\<rparr>))"

definition alloc_desc :: "'a kvio_scheme \<Rightarrow> nat option \<times> 'a kvio_scheme" where
  "alloc_desc s = (case first_idx (vd_free s) 0 NUM of
     Some i \<Rightarrow> (Some i, s\<lparr>vd_free := (vd_free s)(i := False)\<rparr>)
   | None \<Rightarrow> (None, s))"

definition free_desc :: "nat \<Rightarrow> 'a kvio_scheme \<Rightarrow> 'a kvio_scheme result" where
  "free_desc i s =
     (if i \<ge> NUM then Inl (Panic ''virtio_disk_intr 1'')
      else if vd_free s i then Inl (Panic ''virtio_disk_intr 2'')
      else wakeup ChDiskFree (s\<lparr>vd_desc := (vd_desc s)(i := (vd_desc s i)\<lparr>d_addr := DNull\<rparr>), vd_free := (vd_free s)(i := True)\<rparr>))"

text \<open>\<open>free_chain\<close> follows the chain; a descriptor freed twice panics, so it makes at most 9 steps.\<close>

fun free_chain :: "nat \<Rightarrow> nat \<Rightarrow> 'a kvio_scheme \<Rightarrow> 'a kvio_scheme result" where
  "free_chain 0 i s = Inl NoFuel"
| "free_chain (Suc fuel) i s =
     bnd (free_desc i s) (\<lambda>s.
     if d_flags (vd_desc s i) AND VRING_DESC_F_NEXT \<noteq> 0 then free_chain fuel (unat (d_next (vd_desc s i))) s else Inr s)"

definition alloc3_desc :: "'a kvio_scheme \<Rightarrow> ((nat \<times> nat \<times> nat) option \<times> 'a kvio_scheme) result" where
  "alloc3_desc s =
     (case alloc_desc s of
        (None, s) \<Rightarrow> Inr (None, s)
      | (Some i0, s) \<Rightarrow>
          (case alloc_desc s of
             (None, s) \<Rightarrow> bnd (free_desc i0 s) (\<lambda>s. Inr (None, s))
           | (Some i1, s) \<Rightarrow>
               (case alloc_desc s of
                  (None, s) \<Rightarrow> bnd (free_desc i0 s) (\<lambda>s. bnd (free_desc i1 s) (\<lambda>s. Inr (None, s)))
                | (Some i2, s) \<Rightarrow> Inr (Some (i0, i1, i2), s))))"

definition put_desc :: "nat \<Rightarrow> vdesc \<Rightarrow> 'a kvio_scheme \<Rightarrow> 'a kvio_scheme" where
  "put_desc i d s = s\<lparr>vd_desc := (vd_desc s)(i := d)\<rparr>"

text \<open>
  \<open>virtio_disk_rw\<close> up to its wait for the interrupt, with the lock held, and after it. Without three free
  descriptors it sleeps on them.
\<close>

definition disk_rw_begin :: "nat \<Rightarrow> bool \<Rightarrow> 'a kvio_scheme \<Rightarrow> (nat \<times> 'a kvio_scheme) result" where
  "disk_rw_begin b wr s =
     (let sector = ucast (b_blockno (bufs s b) * 2) :: u64 in
      bnd (acquire LkVdisk s) (\<lambda>s.
      bnd (alloc3_desc s) (\<lambda>(idx, s).
      case idx of None \<Rightarrow> Inl (Sleep ChDiskFree)
      | Some (i0, i1, i2) \<Rightarrow>
          let s = put_desc i0 \<lparr>d_addr = DHeader (if wr then 1 else 0) sector, d_len = 16, d_flags = VRING_DESC_F_NEXT, d_next = of_nat i1\<rparr> s;
              s = put_desc i1 \<lparr>d_addr = DData b, d_len = of_nat BSIZE,
                    d_flags = (if wr then 0 else VRING_DESC_F_WRITE) OR VRING_DESC_F_NEXT, d_next = of_nat i2\<rparr> s;
              s = s\<lparr>vd_info_status := (vd_info_status s)(i0 := 0)\<rparr>;
              s = put_desc i2 \<lparr>d_addr = DStatus i0, d_len = 1, d_flags = VRING_DESC_F_WRITE, d_next = 0\<rparr> s;
              s = s\<lparr>b_disk := (b_disk s)(b := 1), vd_info_b := (vd_info_b s)(i0 := Some b)\<rparr>;
              s = s\<lparr>vd_avail := (vd_avail s)(2 + unat (vd_avail s 1) mod NUM := of_nat i0)\<rparr>;
              s = s\<lparr>vd_avail := (vd_avail s)(1 := vd_avail s 1 + 1)\<rparr>;
              s = wreg 0x050 0 s
          in Inr (i0, s))))"

definition disk_rw_end :: "nat \<Rightarrow> nat \<Rightarrow> 'a kvio_scheme \<Rightarrow> 'a kvio_scheme result" where
  "disk_rw_end b i0 s =
     (if b_disk s b = 1 then Inl (Sleep (ChBuf b))
      else bnd (free_chain (NUM + 1) i0 (s\<lparr>vd_info_b := (vd_info_b s)(i0 := None)\<rparr>)) (\<lambda>s.
        release LkVdisk s))"

text \<open>The interrupt handler's loop; it catches up with at most \<open>NUM - 1\<close> completions.\<close>

fun virtio_disk_intr_from :: "nat \<Rightarrow> 'a kvio_scheme \<Rightarrow> 'a kvio_scheme result" where
  "virtio_disk_intr_from 0 s = Inl NoFuel"
| "virtio_disk_intr_from (Suc fuel) s =
     (if unat (vd_used_idx s) mod NUM \<noteq> unat (vd_used_id s) mod NUM then
        let i = unat (vd_used_elems s (unat (vd_used_idx s))) in
        if vd_info_status s i \<noteq> 0 then Inl (Panic ''virtio_disk_intr status'')
        else case vd_info_b s i of
          None \<Rightarrow> Inl (Panic ''kerneltrap'')
        | Some b \<Rightarrow>
            bnd (wakeup (ChBuf b) (s\<lparr>b_disk := (b_disk s)(b := 0)\<rparr>)) (\<lambda>s.
            virtio_disk_intr_from fuel (s\<lparr>vd_used_idx := (vd_used_idx s + 1) mod 8\<rparr>))
      else Inr s)"

definition virtio_disk_intr :: "'a kvio_scheme \<Rightarrow> 'a kvio_scheme result" where
  "virtio_disk_intr s =
     bnd (acquire LkVdisk s) (\<lambda>s.
     bnd (virtio_disk_intr_from NUM s) (\<lambda>s.
     release LkVdisk s))"

end
