(* ===== verification/Life.thy ===== *)
theory Life
  imports Virtio
begin

unbundle bit_operations_syntax

text \<open>
  The life of a process, from kernel/proc.c: \<open>userinit\<close>, \<open>fork\<close>, \<open>exit\<close>, \<open>wait\<close>, the scheduler's step,
  \<open>forkret\<close>, and the return to user space of kernel/trap.c. A process's trapframe is the page at its
  physical address \<open>p_tf\<close>. \<open>exit\<close>, which does not return, ends where it switches to the scheduler.
\<close>

text \<open>
  The rest of the machine: the clock, the control and status registers of this CPU, the addresses
  of the trap vectors, and the bytes that uninitialised variables on the kernel stack hold.
\<close>

record kern = kvio +
  ticks :: u32
  forkret_first :: bool
  sstatus :: u64
  sepc :: u64
  scause :: u64
  stval :: u64
  stvec :: u64
  sip :: u64
  hartid :: nat
  kernelvec_addr :: u64
  uservec_addr :: u64
  userret_addr :: u64
  usertrap_addr :: u64
  junk :: "nat \<Rightarrow> u8"

section \<open>The trapframe\<close>

abbreviation (input) TF_KERNEL_SATP :: u64 where "TF_KERNEL_SATP \<equiv> 0"
abbreviation (input) TF_KERNEL_SP :: u64 where "TF_KERNEL_SP \<equiv> 8"
abbreviation (input) TF_KERNEL_TRAP :: u64 where "TF_KERNEL_TRAP \<equiv> 16"
abbreviation (input) TF_EPC :: u64 where "TF_EPC \<equiv> 24"
abbreviation (input) TF_KERNEL_HARTID :: u64 where "TF_KERNEL_HARTID \<equiv> 32"
abbreviation (input) TF_SP :: u64 where "TF_SP \<equiv> 48"
abbreviation (input) TF_A0 :: u64 where "TF_A0 \<equiv> 112"
abbreviation (input) TF_A1 :: u64 where "TF_A1 \<equiv> 120"
abbreviation (input) TF_A7 :: u64 where "TF_A7 \<equiv> 168"
abbreviation (input) TF_SIZE :: nat where "TF_SIZE \<equiv> 288"

definition get_tf :: "u64 \<Rightarrow> nat \<Rightarrow> 'a kproc_scheme \<Rightarrow> u64" where
  "get_tf off p s = load64 (ram s) (p_tf (procs s p) + off)"

definition put_tf :: "u64 \<Rightarrow> u64 \<Rightarrow> nat \<Rightarrow> 'a kproc_scheme \<Rightarrow> 'a kproc_scheme" where
  "put_tf off v p s = s\<lparr>ram := store64 (ram s) (p_tf (procs s p) + off) v\<rparr>"

section \<open>Returning to user space\<close>

abbreviation (input) SSTATUS_SPP :: u64 where "SSTATUS_SPP \<equiv> 0x100"
abbreviation (input) SSTATUS_SPIE :: u64 where "SSTATUS_SPIE \<equiv> 0x20"
abbreviation (input) SSTATUS_SIE :: u64 where "SSTATUS_SIE \<equiv> 0x2"

definition MAKE_SATP :: "u64 \<Rightarrow> u64" where
  "MAKE_SATP pagetable = push_bit 60 8 OR drop_bit 12 pagetable"

definition intr_on :: "'a kern_scheme \<Rightarrow> 'a kern_scheme" where
  "intr_on s = s\<lparr>sstatus := sstatus s OR SSTATUS_SIE\<rparr>"

definition intr_off :: "'a kern_scheme \<Rightarrow> 'a kern_scheme" where
  "intr_off s = s\<lparr>sstatus := sstatus s AND NOT SSTATUS_SIE\<rparr>"

text \<open>The result of \<open>usertrapret\<close> is the call of \<open>userret\<close>: its address and its two arguments.\<close>

definition usertrapret :: "'a kern_scheme \<Rightarrow> ((u64 \<times> u64 \<times> u64) \<times> 'a kern_scheme) result" where
  "usertrapret s =
     bnd (myproc s) (\<lambda>p.
     let s = intr_off s;
         s = s\<lparr>stvec := TRAMPOLINE + (uservec_addr s - trampoline s)\<rparr>;
         s = put_tf TF_KERNEL_SATP (satp s) p s;
         s = put_tf TF_KERNEL_SP (p_kstack (procs s p) + PGSIZE) p s;
         s = put_tf TF_KERNEL_TRAP (usertrap_addr s) p s;
         s = put_tf TF_KERNEL_HARTID (of_nat (hartid s)) p s;
         s = s\<lparr>sstatus := sstatus s AND NOT SSTATUS_SPP OR SSTATUS_SPIE\<rparr>;
         s = s\<lparr>sepc := get_tf TF_EPC p s\<rparr>
     in Inr ((TRAMPOLINE + (userret_addr s - trampoline s), TRAPFRAME, MAKE_SATP (p_pagetable (procs s p))), s))"

section \<open>fork\<close>

definition set_name :: "u8 list \<Rightarrow> u8 list \<Rightarrow> u8 list" where
  "set_name old new = map (safestrcpy (at_buf old) (at_buf new) 16) [0..<16]"

definition dup_files :: "nat \<Rightarrow> nat \<Rightarrow> 'a kfile_scheme \<Rightarrow> 'a kfile_scheme result" where
  "dup_files p np s = loop (\<lambda>i s.
     case p_ofile (procs s p) i of
       None \<Rightarrow> Inr s
     | Some f \<Rightarrow>
         bnd (filedup f s) (\<lambda>(f, s).
         Inr (upd_proc np (\<lambda>x. x\<lparr>p_ofile := (p_ofile x)(i := Some f)\<rparr>) s))) [0..<NOFILE] s"

definition fork :: "'a kern_scheme \<Rightarrow> (u32 \<times> 'a kern_scheme) result" where
  "fork s =
     bnd (myproc s) (\<lambda>p.
     bnd (allocproc s) (\<lambda>(np, s).
     case np of None \<Rightarrow> Inr (-1, s)
     | Some np \<Rightarrow>
         bnd (uvmcopy (p_pagetable (procs s p)) (p_pagetable (procs s np)) (p_sz (procs s p)) s) (\<lambda>(r, s).
         if r < 0 then
           bnd (freeproc np s) (\<lambda>s. bnd (release (LkProc np) s) (\<lambda>s. Inr (-1, s)))
         else
           let s = upd_proc np (\<lambda>x. x\<lparr>p_sz := p_sz (procs s p), p_parent := Some p\<rparr>) s;
               s = s\<lparr>ram := store_bytes (ram s) (p_tf (procs s np)) (load_bytes (ram s) (p_tf (procs s p)) TF_SIZE)\<rparr>;
               s = put_tf TF_A0 0 np s
           in bnd (dup_files p np s) (\<lambda>s.
              bnd (case p_cwd (procs s p) of None \<Rightarrow> Inl (Panic ''kerneltrap'') | Some cwd \<Rightarrow> idup cwd s) (\<lambda>(cwd, s).
              let s = upd_proc np (\<lambda>x. x\<lparr>p_cwd := Some cwd, p_name := set_name (p_name x) (p_name (procs s p))\<rparr>) s;
                  pid = p_pid (procs s np);
                  s = upd_proc np (\<lambda>x. x\<lparr>p_state := RUNNABLE\<rparr>) s
              in bnd (release (LkProc np) s) (\<lambda>s. Inr (pid, s)))))))"

section \<open>exit and wait\<close>

definition close_files :: "nat \<Rightarrow> 'a kfile_scheme \<Rightarrow> 'a kfile_scheme result" where
  "close_files p s = loop (\<lambda>fd s.
     case p_ofile (procs s p) fd of
       None \<Rightarrow> Inr s
     | Some f \<Rightarrow>
         bnd (fileclose f s) (\<lambda>s.
         Inr (upd_proc p (\<lambda>x. x\<lparr>p_ofile := (p_ofile x)(fd := None)\<rparr>) s))) [0..<NOFILE] s"

definition deref :: "nat option \<Rightarrow> nat result" where
  "deref p = (case p of None \<Rightarrow> Inl (Panic ''kerneltrap'') | Some i \<Rightarrow> Inr i)"

definition exit :: "u32 \<Rightarrow> 'a kern_scheme \<Rightarrow> 'a kern_scheme result" where
  "exit status s =
     bnd (myproc s) (\<lambda>p.
     if initproc s = Some p then Inl (Panic ''init exiting'')
     else bnd (close_files p s) (\<lambda>s.
       bnd (begin_op s) (\<lambda>s.
       bnd (deref (p_cwd (procs s p))) (\<lambda>cwd.
       bnd (iput cwd s) (\<lambda>s.
       bnd (end_op s) (\<lambda>s.
       let s = upd_proc p (\<lambda>x. x\<lparr>p_cwd := None\<rparr>) s in
       bnd (deref (initproc s)) (\<lambda>init.
       bnd (acquire (LkProc init) s) (\<lambda>s.
       bnd (wakeup1 init s) (\<lambda>s.
       bnd (release (LkProc init) s) (\<lambda>s.
       bnd (acquire (LkProc p) s) (\<lambda>s.
       let parent = p_parent (procs s p) in
       bnd (release (LkProc p) s) (\<lambda>s.
       bnd (deref parent) (\<lambda>parent.
       bnd (acquire (LkProc parent) s) (\<lambda>s.
       bnd (acquire (LkProc p) s) (\<lambda>s.
       bnd (reparent p s) (\<lambda>s.
       bnd (wakeup1 parent s) (\<lambda>s.
       let s = upd_proc p (\<lambda>x. x\<lparr>p_xstate := status, p_state := ZOMBIE\<rparr>) s in
       bnd (release (LkProc parent) s) (\<lambda>s.
       sched p s))))))))))))))))))"

text \<open>
  One pass of \<open>wait\<close> over the process table: \<open>Some r\<close> is a return value. The flag is \<open>havekids\<close>.
\<close>

definition wait_scan :: "nat \<Rightarrow> u64 \<Rightarrow> 'a kern_scheme \<Rightarrow> (u32 option \<times> bool \<times> 'a kern_scheme) result" where
  "wait_scan p addr s = bnd (scan (\<lambda>i (havekids, s).
     if p_parent (procs s i) = Some p then
       bnd (acquire (LkProc i) s) (\<lambda>s.
       if p_state (procs s i) = ZOMBIE then
         let pid = p_pid (procs s i) in
         bnd (if addr \<noteq> 0 then copyout (p_pagetable (procs s p)) addr (le_bytes 4 (p_xstate (procs s i))) s
              else Inr (0, s)) (\<lambda>(r, s).
         if r < 0 then
           bnd (release (LkProc i) s) (\<lambda>s. bnd (release (LkProc p) s) (\<lambda>s. Inr (Some (-1), True, s)))
         else
           bnd (freeproc i s) (\<lambda>s.
           bnd (release (LkProc i) s) (\<lambda>s.
           bnd (release (LkProc p) s) (\<lambda>s. Inr (Some pid, True, s)))))
       else bnd (release (LkProc i) s) (\<lambda>s. Inr (None, True, s)))
     else Inr (None, havekids, s)) [0..<NPROC] (False, s)) (\<lambda>(r, havekids, s). Inr (r, havekids, s))"

definition wait :: "u64 \<Rightarrow> 'a kern_scheme \<Rightarrow> (u32 \<times> 'a kern_scheme) result" where
  "wait addr s =
     bnd (myproc s) (\<lambda>p.
     bnd (acquire (LkProc p) s) (\<lambda>s.
     bnd (wait_scan p addr s) (\<lambda>(r, havekids, s).
     case r of Some v \<Rightarrow> Inr (v, s)
     | None \<Rightarrow>
         if \<not> havekids \<or> p_killed (procs s p) \<noteq> 0
         then bnd (release (LkProc p) s) (\<lambda>s. Inr (-1, s))
         else Inl (Sleep (ChProc p)))))"

section \<open>Scheduling\<close>

text \<open>
  One turn of the scheduler's inner loop: up to the switch to process \<open>i\<close>, and from the switch back.
\<close>

definition scheduler_begin :: "nat \<Rightarrow> 'a kern_scheme \<Rightarrow> (bool \<times> 'a kern_scheme) result" where
  "scheduler_begin i s =
     bnd (acquire (LkProc i) s) (\<lambda>s.
     if p_state (procs s i) = RUNNABLE
     then Inr (True, (upd_proc i (\<lambda>x. x\<lparr>p_state := RUNNING\<rparr>) s)\<lparr>cur := Some i\<rparr>)
     else bnd (release (LkProc i) s) (\<lambda>s. Inr (False, s)))"

definition scheduler_end :: "nat \<Rightarrow> 'a kern_scheme \<Rightarrow> 'a kern_scheme result" where
  "scheduler_end i s = release (LkProc i) (s\<lparr>cur := None\<rparr>)"

definition forkret :: "'a kern_scheme \<Rightarrow> ((u64 \<times> u64 \<times> u64) \<times> 'a kern_scheme) result" where
  "forkret s =
     bnd (myproc s) (\<lambda>p.
     bnd (release (LkProc p) s) (\<lambda>s.
     bnd (if forkret_first s then fsinit ROOTDEV (s\<lparr>forkret_first := False\<rparr>) else Inr s) (\<lambda>s.
     usertrapret s)))"

section \<open>The first process\<close>

definition initcode :: "u8 list" where
  "initcode = [
     0x17, 0x05, 0x00, 0x00, 0x13, 0x05, 0x05, 0x02,
     0x97, 0x05, 0x00, 0x00, 0x93, 0x85, 0x05, 0x02,
     0x9d, 0x48, 0x73, 0x00, 0x00, 0x00, 0x89, 0x48,
     0x73, 0x00, 0x00, 0x00, 0xef, 0xf0, 0xbf, 0xff,
     0x2f, 0x69, 0x6e, 0x69, 0x74, 0x00, 0x00, 0x01,
     0x20, 0x00, 0x00, 0x00, 0x00, 0x00, 0x00, 0x00,
     0x00, 0x00, 0x00]"

definition userinit :: "'a kern_scheme \<Rightarrow> 'a kern_scheme result" where
  "userinit s =
     bnd (allocproc s) (\<lambda>(r, s).
     let s = s\<lparr>initproc := r\<rparr> in
     bnd (deref r) (\<lambda>p.
     bnd (uvminit (p_pagetable (procs s p)) initcode s) (\<lambda>s.
     let s = upd_proc p (\<lambda>x. x\<lparr>p_sz := PGSIZE\<rparr>) s;
         s = put_tf TF_EPC 0 p s;
         s = put_tf TF_SP PGSIZE p s;
         s = upd_proc p (\<lambda>x. x\<lparr>p_name := set_name (p_name x) (bytes ''initcode'')\<rparr>) s
     in bnd (namei [47] s) (\<lambda>(cwd, s).
        let s = upd_proc p (\<lambda>x. x\<lparr>p_cwd := cwd, p_state := RUNNABLE\<rparr>) s in
        release (LkProc p) s))))"

end
