(* ===== verification/Exec.thy ===== *)
theory Exec
  imports Life
begin

unbundle bit_operations_syntax

text \<open>
  Programs: \<open>exec\<close> of kernel/exec.c with its loader, and \<open>ksuspend\<close> and \<open>kresume\<close> of kernel/proc.c, which write
  the image of a process to a file and make a process of such a file.
\<close>

abbreviation (input) MAXARG :: nat where "MAXARG \<equiv> 32"
abbreviation (input) ELF_MAGIC :: u32 where "ELF_MAGIC \<equiv> 0x464C457F"
abbreviation (input) ELF_PROG_LOAD :: u32 where "ELF_PROG_LOAD \<equiv> 1"

section \<open>Loading a segment\<close>

text \<open>The loop of \<open>loadseg\<close>, \<open>i\<close> stepping by pages up to \<open>sz\<close>. \<open>i\<close> is a \<open>uint\<close> like \<open>sz\<close>.\<close>

definition loadseg :: "u64 \<Rightarrow> u64 \<Rightarrow> nat \<Rightarrow> u32 \<Rightarrow> u32 \<Rightarrow> 'a kfs_scheme \<Rightarrow> (int \<times> 'a kfs_scheme) result" where
  "loadseg pagetable va ip offset sz s =
     (if va mod PGSIZE \<noteq> 0 then Inl (Panic ''loadseg: va must be page aligned'')
      else bnd (scan (\<lambda>k s.
        let i = k * 4096 in
        bnd (walkaddr pagetable (va + of_nat i) s) (\<lambda>pa.
        if pa = 0 then Inl (Panic ''loadseg: address should exist'')
        else
          let n = (if unat sz - i < 4096 then unat sz - i else 4096) in
          bnd (readi ip (Ram pa) (offset + of_nat i) (of_nat n) s) (\<lambda>(r, _, s).
          Inr (if r \<noteq> of_nat n then Some () else None, s)))) [0..<(unat sz + 4095) div 4096] s) (\<lambda>(r, s).
        Inr (case r of Some _ \<Rightarrow> -1 | None \<Rightarrow> 0, s)))"

section \<open>exec\<close>

record proghdr =
  ph_type :: u32
  ph_off :: u64
  ph_vaddr :: u64
  ph_filesz :: u64
  ph_memsz :: u64

definition get_proghdr :: "u8 list \<Rightarrow> proghdr" where
  "get_proghdr d = \<lparr>ph_type = get_le 0 4 d, ph_off = get_le 8 8 d, ph_vaddr = get_le 16 8 d, ph_filesz = get_le 32 8 d, ph_memsz = get_le 40 8 d\<rparr>"

text \<open>Read \<open>n\<close> bytes into a variable of the kernel; \<open>None\<close> if fewer came.\<close>

definition read_struct :: "nat \<Rightarrow> u32 \<Rightarrow> nat \<Rightarrow> 'a kfs_scheme \<Rightarrow> (u8 list option \<times> 'a kfs_scheme) result" where
  "read_struct ip off n s =
     bnd (readi ip (Local []) off (of_nat n) s) (\<lambda>(r, dst, s).
     Inr (if r \<noteq> of_nat n then None else case dst of Local d \<Rightarrow> Some d | _ \<Rightarrow> None, s))"

text \<open>
  The loop over the program headers, from number \<open>i\<close> on: the new size, and whether it succeeded. On failure the
  size is what \<open>bad:\<close> frees.
\<close>

fun exec_load :: "nat \<Rightarrow> u32 \<Rightarrow> u64 \<Rightarrow> nat \<Rightarrow> u64 \<Rightarrow> 'a kern_scheme \<Rightarrow> (bool \<times> u64 \<times> 'a kern_scheme) result" where
  "exec_load 0 off pagetable ip sz s = Inr (True, sz, s)"
| "exec_load (Suc k) off pagetable ip sz s =
     bnd (read_struct ip off 56 s) (\<lambda>(d, s).
     case d of None \<Rightarrow> Inr (False, sz, s)
     | Some d \<Rightarrow>
         let ph = get_proghdr d in
         if ph_type ph \<noteq> ELF_PROG_LOAD then exec_load k (off + 56) pagetable ip sz s
         else if ph_memsz ph < ph_filesz ph then Inr (False, sz, s)
         else if ph_vaddr ph + ph_memsz ph < ph_vaddr ph then Inr (False, sz, s)
         else bnd (uvmalloc pagetable sz (ph_vaddr ph + ph_memsz ph) s) (\<lambda>(sz, s).
           if sz = 0 then Inr (False, sz, s)
           else if ph_vaddr ph mod PGSIZE \<noteq> 0 then Inr (False, sz, s)
           else bnd (loadseg pagetable (ph_vaddr ph) ip (ucast (ph_off ph)) (ucast (ph_filesz ph)) s) (\<lambda>(r, s).
             if r < 0 then Inr (False, sz, s) else exec_load k (off + 56) pagetable ip sz s)))"

text \<open>
  Pushing the argument strings: \<open>Some (sp, ustack)\<close>, or \<open>None\<close> where the code goes to \<open>bad\<close>. The
  strings are given without their NUL.
\<close>

definition push_sp :: "u64 \<Rightarrow> u64 \<Rightarrow> u64" where
  "push_sp sp n = (let sp = sp - n in sp - sp mod 16)"

fun push_args :: "u64 \<Rightarrow> u64 \<Rightarrow> nat \<Rightarrow> u64 \<Rightarrow> u64 list \<Rightarrow> u8 list list \<Rightarrow> 'a kern_scheme \<Rightarrow> ((u64 \<times> u64 list) option \<times> 'a kern_scheme) result" where
  "push_args pagetable stackbase argc sp ustack [] s = Inr (Some (sp, ustack), s)"
| "push_args pagetable stackbase argc sp ustack (a # as) s =
     (if argc \<ge> MAXARG then Inr (None, s)
      else
        let sp = push_sp sp (of_nat (length a) + 1) in
        if sp < stackbase then Inr (None, s)
        else bnd (copyout pagetable sp (a @ [0]) s) (\<lambda>(r, s).
          if r < 0 then Inr (None, s)
          else push_args pagetable stackbase (Suc argc) sp (ustack @ [sp]) as s))"

definition path_last :: "u8 list \<Rightarrow> u8 list" where
  "path_last path = rev (takeWhile (\<lambda>c. c \<noteq> 47) (rev path))"

text \<open>The exit at \<open>bad:\<close>, with the inode locked in the transaction or not.\<close>

definition exec_bad :: "u64 \<Rightarrow> u64 \<Rightarrow> nat option \<Rightarrow> 'a kern_scheme \<Rightarrow> (u32 \<times> 'a kern_scheme) result" where
  "exec_bad pagetable sz ip s =
     bnd (if pagetable \<noteq> 0 then proc_freepagetable pagetable sz s else Inr s) (\<lambda>s.
     bnd (case ip of None \<Rightarrow> Inr s | Some ip \<Rightarrow> bnd (iunlockput ip s) (\<lambda>s. end_op s)) (\<lambda>s.
     Inr (-1, s)))"

text \<open>Everything after the image is loaded.\<close>

definition exec_stack :: "nat \<Rightarrow> u8 list \<Rightarrow> u8 list list \<Rightarrow> u64 \<Rightarrow> u64 \<Rightarrow> u64 \<Rightarrow> 'a kern_scheme \<Rightarrow> (u32 \<times> 'a kern_scheme) result" where
  "exec_stack p path argv ent pagetable sz s =
     (let oldsz = p_sz (procs s p); sz = PGROUNDUP sz in
      bnd (uvmalloc pagetable sz (sz + 2 * PGSIZE) s) (\<lambda>(sz, s).
      if sz = 0 then exec_bad pagetable sz None s
      else bnd (uvmclear pagetable (sz - 2 * PGSIZE) s) (\<lambda>s.
        let stackbase = sz - PGSIZE in
        bnd (push_args pagetable stackbase 0 sz [] argv s) (\<lambda>(r, s).
        case r of None \<Rightarrow> exec_bad pagetable sz None s
        | Some (sp, ustack) \<Rightarrow>
            let argc = length argv;
                sp = push_sp sp (of_nat ((argc + 1) * 8))
            in if sp < stackbase then exec_bad pagetable sz None s
               else bnd (copyout pagetable sp (concat (map (le_bytes 8) (ustack @ [0]))) s) (\<lambda>(r, s).
                 if r < 0 then exec_bad pagetable sz None s
                 else
                   let s = put_tf TF_A1 sp p s;
                       s = upd_proc p (\<lambda>x. x\<lparr>p_name := set_name (p_name x) (path_last path)\<rparr>) s;
                       oldpagetable = p_pagetable (procs s p);
                       s = upd_proc p (\<lambda>x. x\<lparr>p_pagetable := pagetable, p_sz := sz\<rparr>) s;
                       s = put_tf TF_EPC ent p s;
                       s = put_tf TF_SP sp p s
                   in bnd (proc_freepagetable oldpagetable oldsz s) (\<lambda>s.
                      Inr (of_nat argc, s)))))))"

definition exec :: "u8 list \<Rightarrow> u8 list list \<Rightarrow> 'a kern_scheme \<Rightarrow> (u32 \<times> 'a kern_scheme) result" where
  "exec path argv s =
     bnd (myproc s) (\<lambda>p.
     bnd (begin_op s) (\<lambda>s.
     bnd (namei path s) (\<lambda>(r, s).
     case r of None \<Rightarrow> bnd (end_op s) (\<lambda>s. Inr (-1, s))
     | Some ip \<Rightarrow>
         bnd (ilock ip s) (\<lambda>s.
         bnd (read_struct ip 0 64 s) (\<lambda>(elf, s).
         case elf of None \<Rightarrow> exec_bad 0 0 (Some ip) s
         | Some elf \<Rightarrow>
             if get_le 0 4 elf \<noteq> ELF_MAGIC then exec_bad 0 0 (Some ip) s
             else bnd (proc_pagetable p s) (\<lambda>(pagetable, s).
               if pagetable = 0 then exec_bad 0 0 (Some ip) s
               else bnd (exec_load (unat (get_le 56 2 elf :: u16)) (ucast (get_le 32 8 elf :: u64)) pagetable ip 0 s) (\<lambda>(ok, sz, s).
                 if \<not> ok then exec_bad pagetable sz (Some ip) s
                 else bnd (iunlockput ip s) (\<lambda>s.
                   bnd (end_op s) (\<lambda>s.
                   exec_stack p path argv (get_le 24 8 elf) pagetable sz s)))))))))"

section \<open>Suspending a process\<close>

text \<open>\<open>struct header\<close>: the name and four 32-bit numbers.\<close>

record header =
  h_name :: "u8 list"
  h_mem_sz :: u32
  h_stack_sz :: u32
  h_code_sz :: u32
  h_tracing :: u32

definition header_bytes :: "header \<Rightarrow> u8 list" where
  "header_bytes h = h_name h @ le_bytes 4 (h_mem_sz h) @ le_bytes 4 (h_stack_sz h) @ le_bytes 4 (h_code_sz h) @ le_bytes 4 (h_tracing h)"

definition get_header :: "u8 list \<Rightarrow> header" where
  "get_header d = \<lparr>h_name = get_bytes 0 16 d, h_mem_sz = get_le 16 4 d, h_stack_sz = get_le 20 4 d, h_code_sz = get_le 24 4 d, h_tracing = get_le 28 4 d\<rparr>"

definition suspend_scan :: "u32 \<Rightarrow> 'a kproc_scheme \<Rightarrow> (nat option \<times> 'a kproc_scheme) result" where
  "suspend_scan pid s = scan (\<lambda>i s.
     bnd (acquire (LkProc i) s) (\<lambda>s.
     if p_pid (procs s i) = pid
     then bnd (release (LkProc i) (upd_proc i (\<lambda>x. x\<lparr>p_state := SUSPENDED\<rparr>) s)) (\<lambda>s. Inr (Some i, s))
     else bnd (release (LkProc i) s) (\<lambda>s. Inr (None, s)))) [0..<NPROC] s"

definition ksuspend :: "u32 \<Rightarrow> nat \<Rightarrow> 'a kern_scheme \<Rightarrow> (u32 \<times> 'a kern_scheme) result" where
  "ksuspend pid f s =
     bnd (suspend_scan pid s) (\<lambda>(r, s).
     case r of None \<Rightarrow> Inr (-1, s)
     | Some d \<Rightarrow>
         bnd (myproc s) (\<lambda>p.
         let x = procs s d;
             hdr = \<lparr>h_name = map (strncpy (\<lambda>_. 0) (at_buf (p_name x)) 16) [0..<16], h_mem_sz = ucast (p_sz x),
                    h_stack_sz = ucast PGSIZE, h_code_sz = ucast (p_sz x - 2 * PGSIZE), h_tracing = p_tracing x\<rparr>;
             code_sz = h_code_sz hdr;
             tmp = p_pagetable (procs s p);
             s = upd_proc p (\<lambda>y. y\<lparr>p_pagetable := p_pagetable x\<rparr>) s
         in bnd (filewrite f (Local (header_bytes hdr)) 32 s) (\<lambda>(_, s).
            bnd (filewrite f (Ram (p_tf (procs s d))) (of_nat TF_SIZE) s) (\<lambda>(_, s).
            bnd (filewrite f (User 0) code_sz s) (\<lambda>(_, s).
            bnd (filewrite f (User (scast (code_sz + ucast PGSIZE))) (ucast PGSIZE) s) (\<lambda>(_, s).
            let s = upd_proc p (\<lambda>y. y\<lparr>p_pagetable := tmp\<rparr>) s in
            bnd (kill pid s) (\<lambda>(_, s).
            Inr (0, s))))))))"

text \<open>
  \<open>kresume\<close>. The results of \<open>uvmalloc\<close> and \<open>loadseg\<close> are ignored, as in the code; all 36 words of the
  trapframe are taken from the file.
\<close>

definition kresume :: "u8 list \<Rightarrow> 'a kern_scheme \<Rightarrow> (u32 \<times> 'a kern_scheme) result" where
  "kresume path s =
     bnd (myproc s) (\<lambda>p.
     bnd (begin_op s) (\<lambda>s.
     bnd (namei path s) (\<lambda>(r, s).
     case r of None \<Rightarrow> bnd (end_op s) (\<lambda>s. Inr (-1, s))
     | Some ip \<Rightarrow>
         bnd (proc_pagetable p s) (\<lambda>(pagetable, s).
         if pagetable = 0 then bnd (end_op s) (\<lambda>s. Inr (-1, s))
         else bnd (ilock ip s) (\<lambda>s.
           bnd (read_struct ip 0 32 s) (\<lambda>(h, s).
           case h of None \<Rightarrow> bnd (iunlockput ip s) (\<lambda>s. bnd (end_op s) (\<lambda>s. Inr (-1, s)))
           | Some h \<Rightarrow>
               let hdr = get_header h in
               bnd (read_struct ip 32 TF_SIZE s) (\<lambda>(tf, s).
               case tf of None \<Rightarrow> bnd (iunlockput ip s) (\<lambda>s. bnd (end_op s) (\<lambda>s. Inr (-1, s)))
               | Some tf \<Rightarrow>
                   bnd (uvmalloc pagetable 0 (scast (h_mem_sz hdr)) s) (\<lambda>(_, s).
                   let off = 32 + of_nat TF_SIZE in
                   bnd (loadseg pagetable 0 ip off (h_code_sz hdr) s) (\<lambda>(_, s).
                   let off = off + h_code_sz hdr;
                       sz = ucast (PGROUNDUP (scast (h_code_sz hdr))) :: u32
                   in bnd (loadseg pagetable (scast sz + PGSIZE) ip off (ucast PGSIZE) s) (\<lambda>(_, s).
                      bnd (uvmclear pagetable (scast sz) s) (\<lambda>s.
                      bnd (end_op s) (\<lambda>s.
                      bnd (iunlockput ip s) (\<lambda>s.
                      let s = s\<lparr>ram := store_bytes (ram s) (p_tf (procs s p)) tf\<rparr>;
                          oldpagetable = p_pagetable (procs s p);
                          oldsz = ucast (p_sz (procs s p)) :: u32;
                          s = upd_proc p (\<lambda>x. x\<lparr>p_pagetable := pagetable, p_sz := scast (h_mem_sz hdr),
                                p_name := map (strncpy (at_buf (p_name x)) (at_buf (h_name hdr)) 16) [0..<16]\<rparr>) s
                      in bnd (proc_freepagetable oldpagetable (scast oldsz) s) (\<lambda>s.
                         Inr (0, s)))))))))))))))"

end
