(* ===== verification/Syscall.thy ===== *)
theory Syscall
  imports Exec
begin

unbundle bit_operations_syntax

text \<open>
  System calls: fetching arguments and the dispatch of kernel/syscall.c, the calls on processes of
  kernel/sysproc.c and those on files of kernel/sysfile.c, with their tracing. A call returns the 64-bit
  value that ends up in \<open>a0\<close>; an \<open>int\<close> result is sign-extended. The \<open>name\<close> buffers passed to
  \<open>nameiparent\<close> start as zeros: the bytes of one that \<open>skipelem\<close> leaves alone follow the NUL it writes,
  and nothing reads them.
\<close>

section \<open>Arguments\<close>

abbreviation (input) MAXPATH :: nat where "MAXPATH \<equiv> 128"

definition fetchaddr :: "u64 \<Rightarrow> 'a kern_scheme \<Rightarrow> u64 option result" where
  "fetchaddr addr s =
     bnd (myproc s) (\<lambda>p.
     if addr \<ge> p_sz (procs s p) \<or> addr + 8 > p_sz (procs s p) then Inr None
     else bnd (copyin (p_pagetable (procs s p)) addr 8 s) (\<lambda>(r, d).
       Inr (if r \<noteq> 0 then None else Some (le_word d))))"

text \<open>The string without its NUL and its length, or \<open>None\<close> for the result -1.\<close>

definition fetchstr :: "u64 \<Rightarrow> nat \<Rightarrow> 'a kern_scheme \<Rightarrow> u8 list option result" where
  "fetchstr addr mx s =
     bnd (myproc s) (\<lambda>p.
     bnd (copyinstr (p_pagetable (procs s p)) addr mx s) (\<lambda>(err, buf).
     Inr (if err < 0 then None else Some (takeWhile (\<lambda>c. c \<noteq> 0) buf))))"

definition argraw :: "nat \<Rightarrow> 'a kern_scheme \<Rightarrow> u64 result" where
  "argraw n s = bnd (myproc s) (\<lambda>p.
     if n \<le> 5 then Inr (get_tf (TF_A0 + 8 * of_nat n) p s) else Inl (Panic ''argraw''))"

definition argint :: "nat \<Rightarrow> 'a kern_scheme \<Rightarrow> u32 result" where
  "argint n s = bnd (argraw n s) (\<lambda>x. Inr (ucast x))"

definition argaddr :: "nat \<Rightarrow> 'a kern_scheme \<Rightarrow> u64 result" where
  "argaddr n s = argraw n s"

definition argstr :: "nat \<Rightarrow> nat \<Rightarrow> 'a kern_scheme \<Rightarrow> u8 list option result" where
  "argstr n mx s = bnd (argaddr n s) (\<lambda>addr. fetchstr addr mx s)"

definition argfd :: "nat \<Rightarrow> 'a kern_scheme \<Rightarrow> (nat \<times> nat) option result" where
  "argfd n s =
     bnd (argint n s) (\<lambda>fd.
     if sint fd < 0 \<or> sint fd \<ge> int NOFILE then Inr None
     else bnd (myproc s) (\<lambda>p.
       case p_ofile (procs s p) (unat fd) of None \<Rightarrow> Inr None | Some f \<Rightarrow> Inr (Some (unat fd, f))))"

definition fdalloc :: "nat \<Rightarrow> 'a kern_scheme \<Rightarrow> (nat option \<times> 'a kern_scheme) result" where
  "fdalloc f s =
     bnd (myproc s) (\<lambda>p.
     case first_idx (\<lambda>fd. p_ofile (procs s p) fd = None) 0 NOFILE of
       None \<Rightarrow> Inr (None, s)
     | Some fd \<Rightarrow> Inr (Some fd, upd_proc p (\<lambda>x. x\<lparr>p_ofile := (p_ofile x)(fd := Some f)\<rparr>) s))"

section \<open>Tracing\<close>

abbreviation (input) nl :: string where "nl \<equiv> [CHR 0x0a]"

definition num :: "u32 \<Rightarrow> va_arg" where
  "num x = ANum (scast x)"

definition trace :: "string \<Rightarrow> va_arg list \<Rightarrow> 'a kern_scheme \<Rightarrow> 'a kern_scheme result" where
  "trace fmt as s =
     bnd (myproc s) (\<lambda>p.
     if p_tracing (procs s p) \<noteq> 0 then printf fmt (num (p_pid (procs s p)) # as) s else Inr s)"

definition ret :: "u32 \<Rightarrow> 's \<Rightarrow> (u64 \<times> 's) result" where
  "ret r s = Inr (scast r, s)"

definition cputc_encoded :: "u8 \<Rightarrow> 'a kern_scheme \<Rightarrow> 'a kern_scheme result" where
  "cputc_encoded c s = (if c = 10 then printf (CHR 0x5c # ''n'') [] s else printf ''%s'' [AStr (Some [c])] s)"

definition cprintfn :: "u8 list \<Rightarrow> 'a kern_scheme \<Rightarrow> 'a kern_scheme result" where
  "cprintfn cs s = loop (\<lambda>i. cputc_encoded (cs ! i)) [0..<length cs] s"

section \<open>Processes\<close>

definition sys_exit :: "'a kern_scheme \<Rightarrow> 'a kern_scheme result" where
  "sys_exit s =
     bnd (argint 0 s) (\<lambda>n.
     bnd (trace (nl @ ''[%d]sys_exit(%d)'') [num n] s) (\<lambda>s.
     exit n s))"

definition sys_getpid :: "'a kern_scheme \<Rightarrow> (u64 \<times> 'a kern_scheme) result" where
  "sys_getpid s =
     bnd (trace (nl @ ''[%d]sys_getpid()'') [] s) (\<lambda>s.
     bnd (myproc s) (\<lambda>p. ret (p_pid (procs s p)) s))"

definition sys_fork :: "'a kern_scheme \<Rightarrow> (u64 \<times> 'a kern_scheme) result" where
  "sys_fork s =
     bnd (trace (nl @ ''[%d]sys_fork()'') [] s) (\<lambda>s.
     bnd (fork s) (\<lambda>(r, s). ret r s))"

definition sys_wait :: "'a kern_scheme \<Rightarrow> (u64 \<times> 'a kern_scheme) result" where
  "sys_wait s =
     bnd (argaddr 0 s) (\<lambda>p.
     bnd (trace (nl @ ''[%d]sys_wait(%d)'') [ANum p] s) (\<lambda>s.
     bnd (wait p s) (\<lambda>(r, s). ret r s)))"

definition sys_sbrk :: "'a kern_scheme \<Rightarrow> (u64 \<times> 'a kern_scheme) result" where
  "sys_sbrk s =
     bnd (argint 0 s) (\<lambda>n.
     bnd (trace (nl @ ''[%d]sys_sbrk(%d)'') [num n] s) (\<lambda>s.
     bnd (myproc s) (\<lambda>p.
     let addr = ucast (p_sz (procs s p)) :: u32 in
     bnd (growproc n s) (\<lambda>(r, s).
     if r < 0 then ret (-1) s else ret addr s))))"

text \<open>\<open>sys_sleep\<close>: the comparison of \<open>ticks - ticks0\<close> with \<open>n\<close> is unsigned.\<close>

definition sys_sleep_from :: "u32 \<Rightarrow> u32 \<Rightarrow> 'a kern_scheme \<Rightarrow> (u64 \<times> 'a kern_scheme) result" where
  "sys_sleep_from ticks0 n s =
     (if ticks s - ticks0 < n then
        bnd (myproc s) (\<lambda>p.
        if p_killed (procs s p) \<noteq> 0 then bnd (release LkTicks s) (\<lambda>s. ret (-1) s)
        else Inl (Sleep ChTicks))
      else bnd (release LkTicks s) (\<lambda>s. ret 0 s))"

definition sys_sleep :: "'a kern_scheme \<Rightarrow> (u64 \<times> 'a kern_scheme) result" where
  "sys_sleep s =
     bnd (argint 0 s) (\<lambda>n.
     bnd (trace (nl @ ''[%d]sys_sleep(%d)'') [num n] s) (\<lambda>s.
     bnd (acquire LkTicks s) (\<lambda>s.
     sys_sleep_from (ticks s) n s)))"

definition sys_kill :: "'a kern_scheme \<Rightarrow> (u64 \<times> 'a kern_scheme) result" where
  "sys_kill s =
     bnd (argint 0 s) (\<lambda>pid.
     bnd (trace (nl @ ''[%d]sys_kill(%d)'') [num pid] s) (\<lambda>s.
     bnd (kill pid s) (\<lambda>(r, s). ret (of_int r) s)))"

definition sys_uptime :: "'a kern_scheme \<Rightarrow> (u64 \<times> 'a kern_scheme) result" where
  "sys_uptime s =
     bnd (trace (nl @ ''[%d]sys_uptime()'') [] s) (\<lambda>s.
     bnd (acquire LkTicks s) (\<lambda>s.
     let xticks = ticks s in
     bnd (release LkTicks s) (\<lambda>s.
     Inr (ucast xticks, s))))"

definition sys_traceon :: "'a kern_scheme \<Rightarrow> (u64 \<times> 'a kern_scheme) result" where
  "sys_traceon s = bnd (traceon s) (\<lambda>s. Inr (0, s))"

definition sys_ps :: "'a kern_scheme \<Rightarrow> (u64 \<times> 'a kern_scheme) result" where
  "sys_ps s =
     bnd (trace ''[%d]ps'' [] s) (\<lambda>s.
     bnd (argaddr 0 s) (\<lambda>piaddr.
     bnd (kps (map (junk s) [0..<1540]) piaddr s) (\<lambda>s.
     Inr (0, s))))"

definition sys_resume :: "'a kern_scheme \<Rightarrow> (u64 \<times> 'a kern_scheme) result" where
  "sys_resume s =
     bnd (argstr 0 16 s) (\<lambda>path.
     case path of None \<Rightarrow> ret (-1) s
     | Some path \<Rightarrow>
         bnd (trace (nl @ ''[%d]sys_resumeproc(%s)'') [AStr (Some path)] s) (\<lambda>s.
         bnd (kresume path s) (\<lambda>(r, s). ret r s)))"

section \<open>Files\<close>

definition sys_dup :: "'a kern_scheme \<Rightarrow> (u64 \<times> 'a kern_scheme) result" where
  "sys_dup s =
     bnd (argfd 0 s) (\<lambda>r.
     case r of None \<Rightarrow> ret (-1) s
     | Some (fdin, f) \<Rightarrow>
         bnd (fdalloc f s) (\<lambda>(fd, s).
         case fd of None \<Rightarrow> ret (-1) s
         | Some fd \<Rightarrow>
             bnd (trace (nl @ ''[%d]sys_dup(%d, '') [ANum (of_nat fdin)] s) (\<lambda>s.
             bnd (filedup f s) (\<lambda>(_, s).
             ret (of_nat fd) s))))"

definition sys_read :: "'a kern_scheme \<Rightarrow> (u64 \<times> 'a kern_scheme) result" where
  "sys_read s =
     bnd (argfd 0 s) (\<lambda>r.
     case r of None \<Rightarrow> ret (-1) s
     | Some (fd, f) \<Rightarrow>
         bnd (argint 2 s) (\<lambda>n.
         bnd (argaddr 1 s) (\<lambda>p.
         bnd (trace (nl @ ''[%d]sys_read(%d, %d, %d) '') [ANum (of_nat fd), ANum p, num n] s) (\<lambda>s.
         bnd (fileread f p n s) (\<lambda>(r, s). ret r s)))))"

text \<open>
  The buffer of \<open>sys_write\<close> for the traced bytes has a size that is not initialised: a traced
  write, which uses the buffer, is undefined.
\<close>

definition sys_write :: "'a kern_scheme \<Rightarrow> (u64 \<times> 'a kern_scheme) result" where
  "sys_write s =
     bnd (argfd 0 s) (\<lambda>r.
     case r of None \<Rightarrow> ret (-1) s
     | Some (fd, f) \<Rightarrow>
         bnd (argint 2 s) (\<lambda>n.
         bnd (argaddr 1 s) (\<lambda>addr.
         bnd (myproc s) (\<lambda>p.
         if p_tracing (procs s p) \<noteq> 0 then Inl Undef
         else bnd (filewrite f (User addr) n s) (\<lambda>(r, s). ret r s)))))"

definition sys_close :: "'a kern_scheme \<Rightarrow> (u64 \<times> 'a kern_scheme) result" where
  "sys_close s =
     bnd (argfd 0 s) (\<lambda>r.
     case r of None \<Rightarrow> ret (-1) s
     | Some (fd, f) \<Rightarrow>
         bnd (trace (nl @ ''[%d]sys_close(%d) '') [ANum (of_nat fd)] s) (\<lambda>s.
         bnd (myproc s) (\<lambda>p.
         bnd (fileclose f (upd_proc p (\<lambda>x. x\<lparr>p_ofile := (p_ofile x)(fd := None)\<rparr>) s)) (\<lambda>s.
         ret 0 s))))"

definition sys_fstat :: "'a kern_scheme \<Rightarrow> (u64 \<times> 'a kern_scheme) result" where
  "sys_fstat s =
     bnd (argfd 0 s) (\<lambda>r.
     case r of None \<Rightarrow> ret (-1) s
     | Some (fd, f) \<Rightarrow>
         bnd (argaddr 1 s) (\<lambda>st.
         bnd (trace (nl @ ''[%d]sys_fstat(%d, %d) '') [ANum (of_nat fd), ANum st] s) (\<lambda>s.
         bnd (filestat (map (junk s) [0..<4]) f st s) (\<lambda>(r, s). ret (of_int r) s))))"

text \<open>\<open>end_op\<close> and the result -1, and the exit of \<open>sys_link\<close> at \<open>bad:\<close>.\<close>

definition end_fail :: "'a kern_scheme \<Rightarrow> (u64 \<times> 'a kern_scheme) result" where
  "end_fail s = bnd (end_op s) (\<lambda>s. ret (-1) s)"

definition link_bad :: "nat \<Rightarrow> 'a kern_scheme \<Rightarrow> (u64 \<times> 'a kern_scheme) result" where
  "link_bad ip s =
     bnd (ilock ip s) (\<lambda>s.
     bnd (iupdate ip (upd_inode ip (\<lambda>x. x\<lparr>i_nlink := i_nlink x - 1\<rparr>) s)) (\<lambda>s.
     bnd (iunlockput ip s) (\<lambda>s.
     end_fail s)))"

definition sys_link :: "'a kern_scheme \<Rightarrow> (u64 \<times> 'a kern_scheme) result" where
  "sys_link s =
     bnd (argstr 0 MAXPATH s) (\<lambda>old.
     case old of None \<Rightarrow> ret (-1) s
     | Some old \<Rightarrow>
     bnd (argstr 1 MAXPATH s) (\<lambda>new.
     case new of None \<Rightarrow> ret (-1) s
     | Some new \<Rightarrow>
     bnd (trace (nl @ ''[%d]sys_link(%s, %s) '') [AStr (Some old), AStr (Some new)] s) (\<lambda>s.
     bnd (begin_op s) (\<lambda>s.
     bnd (namei old s) (\<lambda>(r, s).
     case r of None \<Rightarrow> end_fail s
     | Some ip \<Rightarrow>
     bnd (ilock ip s) (\<lambda>s.
     if i_type (inodes s ip) = T_DIR then bnd (iunlockput ip s) (\<lambda>s. end_fail s)
     else
       bnd (iupdate ip (upd_inode ip (\<lambda>x. x\<lparr>i_nlink := i_nlink x + 1\<rparr>) s)) (\<lambda>s.
       bnd (iunlock ip s) (\<lambda>s.
       bnd (nameiparent new (replicate DIRSIZ 0) s) (\<lambda>(r, name, s).
       case r of None \<Rightarrow> link_bad ip s
       | Some dp \<Rightarrow>
           bnd (ilock dp s) (\<lambda>s.
           bnd (if i_dev (inodes s dp) \<noteq> i_dev (inodes s ip) then Inr (-1, s)
                else dirlink dp name (i_inum (inodes s ip)) s) (\<lambda>(r, s).
           if r < 0 then bnd (iunlockput dp s) (\<lambda>s. link_bad ip s)
           else bnd (iunlockput dp s) (\<lambda>s.
             bnd (iput ip s) (\<lambda>s.
             bnd (end_op s) (\<lambda>s. ret 0 s))))))))))))))"

definition isdirempty :: "nat \<Rightarrow> 'a kfs_scheme \<Rightarrow> (bool \<times> 'a kfs_scheme) result" where
  "isdirempty dp s =
     bnd (scan (\<lambda>k s.
       bnd (read_de ''isdirempty: readi'' dp (of_nat (16 * k)) s) (\<lambda>(de, s).
       Inr (if de_inum de \<noteq> 0 then Some () else None, s))) [2..<dir_slots (inodes s dp)] s) (\<lambda>(r, s).
     Inr (r = None, s))"

definition unlink_bad :: "nat \<Rightarrow> 'a kern_scheme \<Rightarrow> (u64 \<times> 'a kern_scheme) result" where
  "unlink_bad dp s = bnd (iunlockput dp s) (\<lambda>s. end_fail s)"

definition sys_unlink :: "'a kern_scheme \<Rightarrow> (u64 \<times> 'a kern_scheme) result" where
  "sys_unlink s =
     bnd (argstr 0 MAXPATH s) (\<lambda>path.
     case path of None \<Rightarrow> ret (-1) s
     | Some path \<Rightarrow>
     bnd (trace (nl @ ''[%d]sys_unlink(%s)'') [AStr (Some path)] s) (\<lambda>s.
     bnd (begin_op s) (\<lambda>s.
     bnd (nameiparent path (replicate DIRSIZ 0) s) (\<lambda>(r, name, s).
     case r of None \<Rightarrow> end_fail s
     | Some dp \<Rightarrow>
     bnd (ilock dp s) (\<lambda>s.
     if namecmp (at_buf name) (at_buf [46]) = 0 \<or> namecmp (at_buf name) (at_buf [46, 46]) = 0 then unlink_bad dp s
     else bnd (dirlookup dp name s) (\<lambda>(r, s).
       case r of None \<Rightarrow> unlink_bad dp s
       | Some (ip, off) \<Rightarrow>
       bnd (ilock ip s) (\<lambda>s.
       if sint (i_nlink (inodes s ip)) < 1 then Inl (Panic ''unlink: nlink < 1'')
       else bnd (if i_type (inodes s ip) = T_DIR then isdirempty ip s else Inr (True, s)) (\<lambda>(empty, s).
         if \<not> empty then bnd (iunlockput ip s) (\<lambda>s. unlink_bad dp s)
         else bnd (writei dp (Local (replicate 16 0)) off 16 s) (\<lambda>(n, s).
           if n \<noteq> 16 then Inl (Panic ''unlink: writei'')
           else bnd (if i_type (inodes s ip) = T_DIR
                     then iupdate dp (upd_inode dp (\<lambda>x. x\<lparr>i_nlink := i_nlink x - 1\<rparr>) s) else Inr s) (\<lambda>s.
             bnd (iunlockput dp s) (\<lambda>s.
             bnd (iupdate ip (upd_inode ip (\<lambda>x. x\<lparr>i_nlink := i_nlink x - 1\<rparr>) s)) (\<lambda>s.
             bnd (iunlockput ip s) (\<lambda>s.
             bnd (end_op s) (\<lambda>s. ret 0 s))))))))))))))"

text \<open>\<open>create\<close> returns a locked inode.\<close>

definition create :: "u8 list \<Rightarrow> u16 \<Rightarrow> u16 \<Rightarrow> u16 \<Rightarrow> 'a kfs_scheme \<Rightarrow> (nat option \<times> 'a kfs_scheme) result" where
  "create path type major minor s =
     bnd (nameiparent path (replicate DIRSIZ 0) s) (\<lambda>(r, name, s).
     case r of None \<Rightarrow> Inr (None, s)
     | Some dp \<Rightarrow>
     bnd (ilock dp s) (\<lambda>s.
     bnd (dirlookup dp name s) (\<lambda>(r, s).
     case r of
       Some (ip, _) \<Rightarrow>
         bnd (iunlockput dp s) (\<lambda>s.
         bnd (ilock ip s) (\<lambda>s.
         if type = T_FILE \<and> (i_type (inodes s ip) = T_FILE \<or> i_type (inodes s ip) = T_DEVICE) then Inr (Some ip, s)
         else bnd (iunlockput ip s) (\<lambda>s. Inr (None, s))))
     | None \<Rightarrow>
         bnd (ialloc (i_dev (inodes s dp)) type s) (\<lambda>(ip, s).
         bnd (ilock ip s) (\<lambda>s.
         bnd (iupdate ip (upd_inode ip (\<lambda>x. x\<lparr>i_major := major, i_minor := minor, i_nlink := 1\<rparr>) s)) (\<lambda>s.
         bnd (if type = T_DIR then
                bnd (iupdate dp (upd_inode dp (\<lambda>x. x\<lparr>i_nlink := i_nlink x + 1\<rparr>) s)) (\<lambda>s.
                bnd (dirlink ip [46] (i_inum (inodes s ip)) s) (\<lambda>(r, s).
                bnd (if r < 0 then Inr (r, s) else dirlink ip [46, 46] (i_inum (inodes s dp)) s) (\<lambda>(r, s).
                if r < 0 then Inl (Panic ''create dots'') else Inr s)))
              else Inr s) (\<lambda>s.
         bnd (dirlink dp name (i_inum (inodes s ip)) s) (\<lambda>(r, s).
         if r < 0 then Inl (Panic ''create: dirlink'')
         else bnd (iunlockput dp s) (\<lambda>s. Inr (Some ip, s))))))))))"

definition open_fail :: "nat \<Rightarrow> 'a kern_scheme \<Rightarrow> (u64 \<times> 'a kern_scheme) result" where
  "open_fail ip s = bnd (iunlockput ip s) (\<lambda>s. end_fail s)"

definition sys_open :: "'a kern_scheme \<Rightarrow> (u64 \<times> 'a kern_scheme) result" where
  "sys_open s =
     bnd (argstr 0 MAXPATH s) (\<lambda>path.
     case path of None \<Rightarrow> ret (-1) s
     | Some path \<Rightarrow>
     bnd (argint 1 s) (\<lambda>omode.
     bnd (trace (nl @ ''[%d]sys_open(%s, %d)'') [AStr (Some path), num omode] s) (\<lambda>s.
     bnd (begin_op s) (\<lambda>s.
     bnd (if omode AND 0x200 \<noteq> 0 then create path T_FILE 0 0 s
          else bnd (namei path s) (\<lambda>(r, s).
            case r of None \<Rightarrow> Inr (None, s) | Some ip \<Rightarrow> bnd (ilock ip s) (\<lambda>s. Inr (Some ip, s)))) (\<lambda>(r, s).
     case r of None \<Rightarrow> end_fail s
     | Some ip \<Rightarrow>
     if omode AND 0x200 = 0 \<and> i_type (inodes s ip) = T_DIR \<and> omode \<noteq> 0 then open_fail ip s
     else if i_type (inodes s ip) = T_DEVICE \<and> (sint (i_major (inodes s ip)) < 0 \<or> sint (i_major (inodes s ip)) \<ge> int NDEV)
     then open_fail ip s
     else
     bnd (filealloc s) (\<lambda>(r, s).
     case r of None \<Rightarrow> open_fail ip s
     | Some f \<Rightarrow>
     bnd (fdalloc f s) (\<lambda>(r, s).
     case r of None \<Rightarrow> bnd (fileclose f s) (\<lambda>s. open_fail ip s)
     | Some fd \<Rightarrow>
       let s = (if i_type (inodes s ip) = T_DEVICE
                then upd_file f (\<lambda>x. x\<lparr>f_type := FD_DEVICE, f_major := i_major (inodes s ip)\<rparr>) s
                else upd_file f (\<lambda>x. x\<lparr>f_type := FD_INODE, f_off := 0\<rparr>) s);
           s = upd_file f (\<lambda>x. x\<lparr>f_ip := ip, f_readable := (if omode AND 1 \<noteq> 0 then 0 else 1),
                 f_writable := (if omode AND 1 \<noteq> 0 \<or> omode AND 2 \<noteq> 0 then 1 else 0)\<rparr>) s
       in bnd (iunlock ip s) (\<lambda>s.
          bnd (end_op s) (\<lambda>s.
          ret (of_nat fd) s)))))))))"

definition sys_mkdir :: "'a kern_scheme \<Rightarrow> (u64 \<times> 'a kern_scheme) result" where
  "sys_mkdir s =
     bnd (begin_op s) (\<lambda>s.
     bnd (argstr 0 MAXPATH s) (\<lambda>path.
     case path of None \<Rightarrow> end_fail s
     | Some path \<Rightarrow>
     bnd (create path T_DIR 0 0 s) (\<lambda>(r, s).
     case r of None \<Rightarrow> end_fail s
     | Some ip \<Rightarrow>
         bnd (trace (nl @ ''[%d]sys_mkdir(%s)'') [AStr (Some path)] s) (\<lambda>s.
         bnd (iunlockput ip s) (\<lambda>s.
         bnd (end_op s) (\<lambda>s. ret 0 s))))))"

definition sys_mknod :: "'a kern_scheme \<Rightarrow> (u64 \<times> 'a kern_scheme) result" where
  "sys_mknod s =
     bnd (begin_op s) (\<lambda>s.
     bnd (argstr 0 MAXPATH s) (\<lambda>path.
     case path of None \<Rightarrow> end_fail s
     | Some path \<Rightarrow>
     bnd (argint 1 s) (\<lambda>major.
     bnd (argint 2 s) (\<lambda>minor.
     bnd (create path T_DEVICE (ucast major) (ucast minor) s) (\<lambda>(r, s).
     case r of None \<Rightarrow> end_fail s
     | Some ip \<Rightarrow>
         bnd (trace (nl @ ''[%d]sys_mknod(%s, %d, %d)'') [AStr (Some path), num major, num minor] s) (\<lambda>s.
         bnd (iunlockput ip s) (\<lambda>s.
         bnd (end_op s) (\<lambda>s. ret 0 s))))))))"

definition sys_chdir :: "'a kern_scheme \<Rightarrow> (u64 \<times> 'a kern_scheme) result" where
  "sys_chdir s =
     bnd (myproc s) (\<lambda>p.
     bnd (begin_op s) (\<lambda>s.
     bnd (argstr 0 MAXPATH s) (\<lambda>path.
     case path of None \<Rightarrow> end_fail s
     | Some path \<Rightarrow>
     bnd (namei path s) (\<lambda>(r, s).
     case r of None \<Rightarrow> end_fail s
     | Some ip \<Rightarrow>
         bnd (trace (nl @ ''[%d]sys_chdir(%s)'') [AStr (Some path)] s) (\<lambda>s.
         bnd (ilock ip s) (\<lambda>s.
         if i_type (inodes s ip) \<noteq> T_DIR then bnd (iunlockput ip s) (\<lambda>s. end_fail s)
         else bnd (iunlock ip s) (\<lambda>s.
           bnd (deref (p_cwd (procs s p))) (\<lambda>cwd.
           bnd (iput cwd s) (\<lambda>s.
           bnd (end_op s) (\<lambda>s.
           ret 0 (upd_proc p (\<lambda>x. x\<lparr>p_cwd := Some ip\<rparr>) s)))))))))))"

text \<open>
  \<open>sys_exec\<close>: the loop that fetches the argument strings, each into a page of its own. The list of pages
  in use is returned on failure, too, to be freed.
\<close>

fun fetch_args :: "nat \<Rightarrow> u64 \<Rightarrow> (u64 \<times> u8 list) list \<Rightarrow> 'a kern_scheme \<Rightarrow> (bool \<times> (u64 \<times> u8 list) list \<times> 'a kern_scheme) result" where
  "fetch_args 0 uargv argv s = Inr (False, argv, s)"
| "fetch_args (Suc k) uargv argv s =
     bnd (fetchaddr (uargv + 8 * of_nat (length argv)) s) (\<lambda>r.
     case r of None \<Rightarrow> Inr (False, argv, s)
     | Some uarg \<Rightarrow>
         if uarg = 0 then Inr (True, argv, s)
         else bnd (kalloc s) (\<lambda>(pg, s).
           if pg = 0 then Inl (Panic ''sys_exec kalloc'')
           else bnd (fetchstr uarg 4096 s) (\<lambda>str.
             case str of None \<Rightarrow> Inr (False, argv @ [(pg, [])], s)
             | Some a \<Rightarrow> fetch_args k uargv (argv @ [(pg, a)]) (s\<lparr>ram := store_bytes (ram s) pg (a @ [0])\<rparr>))))"

definition free_args :: "(u64 \<times> u8 list) list \<Rightarrow> 'a kern_scheme \<Rightarrow> 'a kern_scheme result" where
  "free_args argv s = loop (\<lambda>i s. kfree (fst (argv ! i)) s) [0..<length argv] s"

definition trace_args :: "u8 list \<Rightarrow> (u64 \<times> u8 list) list \<Rightarrow> 'a kern_scheme \<Rightarrow> 'a kern_scheme result" where
  "trace_args path argv s =
     bnd (myproc s) (\<lambda>p.
     if p_tracing (procs s p) \<noteq> 0 then
       bnd (printf (nl @ ''[%d]sys_exec(%s'') [num (p_pid (procs s p)), AStr (Some path)] s) (\<lambda>s.
       bnd (loop (\<lambda>j s. printf '', %s'' [AStr (Some (snd (argv ! j)))] s) [0..<length argv] s) (\<lambda>s.
       printf '')'' [] s))
     else Inr s)"

definition sys_exec :: "'a kern_scheme \<Rightarrow> (u64 \<times> 'a kern_scheme) result" where
  "sys_exec s =
     bnd (argstr 0 MAXPATH s) (\<lambda>path.
     case path of None \<Rightarrow> ret (-1) s
     | Some path \<Rightarrow>
     bnd (argaddr 1 s) (\<lambda>uargv.
     bnd (fetch_args MAXARG uargv [] s) (\<lambda>(ok, argv, s).
     if \<not> ok then bnd (free_args argv s) (\<lambda>s. ret (-1) s)
     else bnd (trace_args path argv s) (\<lambda>s.
       bnd (exec path (map snd argv) s) (\<lambda>(r, s).
       bnd (free_args argv s) (\<lambda>s. ret r s))))))"

definition clear_fd :: "nat \<Rightarrow> nat \<Rightarrow> 'a kern_scheme \<Rightarrow> 'a kern_scheme" where
  "clear_fd p fd s = upd_proc p (\<lambda>x. x\<lparr>p_ofile := (p_ofile x)(fd := None)\<rparr>) s"

definition close_both :: "nat \<Rightarrow> nat \<Rightarrow> 'a kern_scheme \<Rightarrow> (u64 \<times> 'a kern_scheme) result" where
  "close_both rfl wfl s = bnd (fileclose rfl s) (\<lambda>s. bnd (fileclose wfl s) (\<lambda>s. ret (-1) s))"

definition sys_pipe :: "'a kern_scheme \<Rightarrow> (u64 \<times> 'a kern_scheme) result" where
  "sys_pipe s =
     bnd (myproc s) (\<lambda>p.
     bnd (argaddr 0 s) (\<lambda>fdarray.
     bnd (pipealloc s) (\<lambda>(r, s).
     case r of None \<Rightarrow> ret (-1) s
     | Some (rfl, wfl) \<Rightarrow>
     bnd (fdalloc rfl s) (\<lambda>(fd0, s).
     case fd0 of None \<Rightarrow> close_both rfl wfl s
     | Some fd0 \<Rightarrow>
     bnd (fdalloc wfl s) (\<lambda>(fd1, s).
     case fd1 of None \<Rightarrow> close_both rfl wfl (clear_fd p fd0 s)
     | Some fd1 \<Rightarrow>
     bnd (trace (nl @ ''[%d]sys_pipe(%d,%d)'') [ANum (of_nat fd0), ANum (of_nat fd1)] s) (\<lambda>s.
     bnd (copyout (p_pagetable (procs s p)) fdarray (le_bytes 4 (of_nat fd0 :: u32)) s) (\<lambda>(r, s).
     bnd (if r < 0 then Inr (r, s)
          else copyout (p_pagetable (procs s p)) (fdarray + 4) (le_bytes 4 (of_nat fd1 :: u32)) s) (\<lambda>(r, s).
     if r < 0 then close_both rfl wfl (clear_fd p fd1 (clear_fd p fd0 s))
     else ret 0 s))))))))"

text \<open>Tracing \<open>suspend\<close> prints a variable that was never set.\<close>

definition sys_suspend :: "'a kern_scheme \<Rightarrow> (u64 \<times> 'a kern_scheme) result" where
  "sys_suspend s =
     bnd (argint 0 s) (\<lambda>pid.
     bnd (argfd 1 s) (\<lambda>r.
     case r of None \<Rightarrow> ret (-1) s
     | Some (_, f) \<Rightarrow>
         bnd (myproc s) (\<lambda>p.
         if p_tracing (procs s p) \<noteq> 0 then Inl Undef
         else bnd (ksuspend pid f s) (\<lambda>(r, s). ret r s))))"

section \<open>Dispatch\<close>

text \<open>
  \<open>sys_exit\<close> does not return: its outcome, a switch to the scheduler, is \<open>None\<close>.
\<close>

definition syscalls :: "nat \<Rightarrow> ('a kern_scheme \<Rightarrow> (u64 option \<times> 'a kern_scheme) result) option" where
  "syscalls n =
     (let r = (\<lambda>f. Some (\<lambda>s. bnd (f s) (\<lambda>(v, s). Inr (Some v, s)))) in
      if n = 1 then r sys_fork
      else if n = 2 then Some (\<lambda>s. bnd (sys_exit s) (\<lambda>s. Inr (None, s)))
      else if n = 3 then r sys_wait
      else if n = 4 then r sys_pipe
      else if n = 5 then r sys_read
      else if n = 6 then r sys_kill
      else if n = 7 then r sys_exec
      else if n = 8 then r sys_fstat
      else if n = 9 then r sys_chdir
      else if n = 10 then r sys_dup
      else if n = 11 then r sys_getpid
      else if n = 12 then r sys_sbrk
      else if n = 13 then r sys_sleep
      else if n = 14 then r sys_uptime
      else if n = 15 then r sys_open
      else if n = 16 then r sys_write
      else if n = 17 then r sys_mknod
      else if n = 18 then r sys_unlink
      else if n = 19 then r sys_link
      else if n = 20 then r sys_mkdir
      else if n = 21 then r sys_close
      else if n = 22 then r sys_traceon
      else if n = 23 then r sys_ps
      else if n = 24 then r sys_suspend
      else if n = 25 then r sys_resume
      else None)"

text \<open>\<open>False\<close>: the process has switched to the scheduler for good.\<close>

definition syscall :: "'a kern_scheme \<Rightarrow> (bool \<times> 'a kern_scheme) result" where
  "syscall s =
     bnd (myproc s) (\<lambda>p.
     let n = ucast (get_tf TF_A7 p s) :: u32 in
     case (if sint n > 0 then syscalls (unat n) else None) of
       Some f \<Rightarrow> bnd (f s) (\<lambda>(r, s). case r of Some v \<Rightarrow> Inr (True, put_tf TF_A0 v p s) | None \<Rightarrow> Inr (False, s))
     | None \<Rightarrow>
         bnd (printf (''%d %s: unknown sys call %d'' @ nl) [num (p_pid (procs s p)), AStr (Some (p_name (procs s p))), num n] s) (\<lambda>s.
         Inr (True, put_tf TF_A0 (-1) p s)))"

end
