(* ===== verification/Trap.thy ===== *)
theory Trap
  imports Syscall
begin

unbundle bit_operations_syntax

text \<open>
  Traps and boot: kernel/trap.c and kernel/main.c. \<open>usertrap\<close> yields what becomes of the process: it returns to
  user space, it is gone, or it gives up the CPU and returns later.
\<close>

definition trapinithart :: "'a kern_scheme \<Rightarrow> 'a kern_scheme" where
  "trapinithart s = s\<lparr>stvec := kernelvec_addr s\<rparr>"

definition clockintr :: "'a kern_scheme \<Rightarrow> 'a kern_scheme result" where
  "clockintr s =
     bnd (acquire LkTicks s) (\<lambda>s.
     bnd (wakeup ChTicks (s\<lparr>ticks := ticks s + 1\<rparr>)) (\<lambda>s.
     release LkTicks s))"

definition devintr :: "'a kern_scheme \<Rightarrow> (nat \<times> 'a kern_scheme) result" where
  "devintr s =
     (if scause s AND 0x8000000000000000 \<noteq> 0 \<and> scause s AND 0xff = 9 then
        let irq = plic_claim (hartid s) s in
        bnd (if irq = UART0_IRQ then uartintr s else if irq = VIRTIO0_IRQ then virtio_disk_intr s else Inr s) (\<lambda>s.
        Inr (1, plic_complete (hartid s) irq s))
      else if scause s = 0x8000000000000001 then
        bnd (if hartid s = 0 then clockintr s else Inr s) (\<lambda>s.
        Inr (2, s\<lparr>sip := sip s AND NOT 2\<rparr>))
      else Inr (0, s))"

datatype trap_out = ToUser "u64 \<times> u64 \<times> u64" | Gone | Yielded

text \<open>After the trap is handled: a killed process exits, a timer interrupt costs it the CPU.\<close>

definition usertrap_end :: "nat \<Rightarrow> nat \<Rightarrow> 'a kern_scheme \<Rightarrow> (trap_out \<times> 'a kern_scheme) result" where
  "usertrap_end p which_dev s =
     (if p_killed (procs s p) \<noteq> 0 then bnd (exit (-1) s) (\<lambda>s. Inr (Gone, s))
      else if which_dev = 2 then bnd (yield_begin p s) (\<lambda>s. Inr (Yielded, s))
      else bnd (usertrapret s) (\<lambda>(r, s). Inr (ToUser r, s)))"

definition usertrap :: "'a kern_scheme \<Rightarrow> (trap_out \<times> 'a kern_scheme) result" where
  "usertrap s =
     (if sstatus s AND SSTATUS_SPP \<noteq> 0 then Inl (Panic ''usertrap: not from user mode'')
      else
        let s = s\<lparr>stvec := kernelvec_addr s\<rparr> in
        bnd (myproc s) (\<lambda>p.
        let s = put_tf TF_EPC (sepc s) p s in
        if scause s = 8 then
          if p_killed (procs s p) \<noteq> 0 then bnd (exit (-1) s) (\<lambda>s. Inr (Gone, s))
          else
            let s = put_tf TF_EPC (get_tf TF_EPC p s + 4) p s; s = intr_on s in
            bnd (syscall s) (\<lambda>(alive, s).
            if alive then usertrap_end p 0 s else Inr (Gone, s))
        else bnd (devintr s) (\<lambda>(which_dev, s).
          if which_dev \<noteq> 0 then usertrap_end p which_dev s
          else
            bnd (printf (''usertrap(): unexpected scause %p pid=%d'' @ nl) [ANum (scause s), num (p_pid (procs s p))] s) (\<lambda>s.
            bnd (printf (''            sepc=%p stval=%p'' @ nl) [ANum (sepc s), ANum (stval s)] s) (\<lambda>s.
            usertrap_end p 0 (upd_proc p (\<lambda>x. x\<lparr>p_killed := 1\<rparr>) s))))))"

text \<open>The second half of a \<open>usertrap\<close> that yielded, when the process runs again.\<close>

definition usertrap_resume :: "nat \<Rightarrow> 'a kern_scheme \<Rightarrow> ((u64 \<times> u64 \<times> u64) \<times> 'a kern_scheme) result" where
  "usertrap_resume p s = bnd (yield_end p s) (\<lambda>s. usertrapret s)"

text \<open>\<open>kerneltrap\<close>, with the process that yields if it does.\<close>

definition kerneltrap :: "'a kern_scheme \<Rightarrow> (nat option \<times> 'a kern_scheme) result" where
  "kerneltrap s =
     (let epc = sepc s; status = sstatus s; cause = scause s in
      if status AND SSTATUS_SPP = 0 then Inl (Panic ''kerneltrap: not from supervisor mode'')
      else if status AND SSTATUS_SIE \<noteq> 0 then Inl (Panic ''kerneltrap: interrupts enabled'')
      else bnd (devintr s) (\<lambda>(which_dev, s).
        if which_dev = 0 then
          bnd (printf (''scause %p'' @ nl) [ANum cause] s) (\<lambda>s.
          bnd (printf (''sepc=%p stval=%p'' @ nl) [ANum (sepc s), ANum (stval s)] s) (\<lambda>s.
          Inl (Panic ''kerneltrap'')))
        else case cur s of
          Some p \<Rightarrow>
            if which_dev = 2 \<and> p_state (procs s p) = RUNNING
            then bnd (yield_begin p s) (\<lambda>s. Inr (Some p, s))
            else Inr (None, s\<lparr>sepc := epc, sstatus := status\<rparr>)
        | None \<Rightarrow> Inr (None, s\<lparr>sepc := epc, sstatus := status\<rparr>)))"

definition kerneltrap_resume :: "nat \<Rightarrow> u64 \<Rightarrow> u64 \<Rightarrow> 'a kern_scheme \<Rightarrow> 'a kern_scheme result" where
  "kerneltrap_resume p epc status s =
     bnd (yield_end p s) (\<lambda>s. Inr (s\<lparr>sepc := epc, sstatus := status\<rparr>))"

section \<open>Boot\<close>

text \<open>
  \<open>main\<close> on the boot CPU up to the scheduler. \<open>fileinit\<close> and \<open>trapinit\<close> only name locks; \<open>pages\<close> is
  the address of the disk driver's two pages.
\<close>

definition boot :: "u64 \<Rightarrow> 'a kern_scheme \<Rightarrow> 'a kern_scheme result" where
  "boot pages s =
     (let s = connect_consoles (consoleinit s); s = printfinit s in
      bnd (printf nl [] s) (\<lambda>s.
      bnd (printf (''xv6 kernel is booting'' @ nl) [] s) (\<lambda>s.
      bnd (printf nl [] s) (\<lambda>s.
      bnd (kinit s) (\<lambda>s.
      bnd (kvminit s) (\<lambda>s.
      let s = kvminithart s in
      bnd (procinit s) (\<lambda>s.
      let s = plicinithart (hartid s) (plicinit (trapinithart s)); s = iinit (binit s) in
      bnd (virtio_disk_init pages s) (\<lambda>s.
      userinit s))))))))"

definition boot_other :: "'a kern_scheme \<Rightarrow> 'a kern_scheme result" where
  "boot_other s =
     bnd (printf (''hart %d starting'' @ nl) [ANum (of_nat (hartid s))] s) (\<lambda>s.
     Inr (plicinithart (hartid s) (trapinithart (kvminithart s))))"

end
