(* ===== verification/Ring.thy ===== *)
theory Ring
  imports Prelude
begin

text \<open>
  Ring buffers: an array indexed modulo its length by free-running 32-bit counters, as pipes
  (kernel/pipe.c) and the input of a console (kernel/console.c) have them; and the interface of
  a bounded first-in first-out queue, which they provide.
\<close>

section \<open>Slices of a ring\<close>

text \<open>The \<open>n\<close> entries from counter \<open>i\<close> on, and the store to entry \<open>i\<close>.\<close>

definition ring_slice :: "'b list \<Rightarrow> u32 \<Rightarrow> nat \<Rightarrow> 'b list" where
  "ring_slice xs i n = map (\<lambda>k. xs ! (unat (i + of_nat k) mod length xs)) [0..<n]"

definition ring_put :: "u32 \<Rightarrow> 'b \<Rightarrow> 'b list \<Rightarrow> 'b list" where
  "ring_put i x xs = xs[unat i mod length xs := x]"

lemma length_ring_put [simp]: "length (ring_put i x xs) = length xs"
  by (simp add: ring_put_def)

lemma length_ring_slice [simp]: "length (ring_slice xs i n) = n"
  by (simp add: ring_slice_def)

lemma ring_slice_0 [simp]: "ring_slice xs i 0 = []"
  by (simp add: ring_slice_def)

lemma ring_slice_Suc: "ring_slice xs i (Suc n) = ring_slice xs i n @ [xs ! (unat (i + of_nat n) mod length xs)]"
  by (simp add: ring_slice_def)

lemma ring_slice_Cons: "ring_slice xs i (Suc n) = xs ! (unat i mod length xs) # ring_slice xs (i + 1) n"
  by (induction n) (simp_all add: ring_slice_Suc algebra_simps)

lemma ring_slice_add: "ring_slice xs i (n + k) = ring_slice xs i n @ ring_slice xs (i + of_nat n) k"
  by (induction n arbitrary: i) (simp_all add: ring_slice_Cons algebra_simps)

text \<open>The counters wrap at \<open>2 ^ 32\<close>, which the length divides.\<close>

lemma ring_index:
  assumes "N dvd 2 ^ 32"
  shows "unat (i + of_nat k :: u32) mod N = (unat i + k) mod N"
proof -
  have "unat (i + of_nat k :: u32) = (unat i + k) mod 2 ^ 32" by (simp add: unat_word_ariths unat_of_nat mod_simps)
  with assms show ?thesis by (simp add: mod_mod_cancel)
qed

lemma ring_put_nth: "xs \<noteq> [] \<Longrightarrow> ring_put i x xs ! (unat i mod length xs) = x"
  unfolding ring_put_def by (rule nth_list_update_eq) simp

lemma ring_slice_put:
  assumes "length xs dvd 2 ^ 32" "n < length xs"
  shows "ring_slice (ring_put (i + of_nat n) x xs) i n = ring_slice xs i n"
    and "ring_slice (ring_put (i + of_nat n) x xs) i (Suc n) = ring_slice xs i n @ [x]"
proof -
  have ne: "(unat i + k) mod length xs \<noteq> (unat i + n) mod length xs" if "k < n" for k
  proof
    assume "(unat i + k) mod length xs = (unat i + n) mod length xs"
    then have "length xs dvd (unat i + n) - (unat i + k)" using that mod_eq_dvd_iff_nat [of "unat i + k" "unat i + n" "length xs"] by simp
    then show False using that assms(2) by (auto dest: dvd_imp_le)
  qed
  show e: "ring_slice (ring_put (i + of_nat n) x xs) i n = ring_slice xs i n"
    using ne [symmetric] by (simp add: ring_slice_def ring_put_def ring_index [OF assms(1)] nth_list_update_neq)
  show "ring_slice (ring_put (i + of_nat n) x xs) i (Suc n) = ring_slice xs i n @ [x]"
    using ring_put_nth [of xs "i + of_nat n" x] assms(2) by (subst ring_slice_Suc, subst e) force
qed

text \<open>Distances between counters.\<close>

lemma ring_dist_Suc:
  fixes i j :: u32
  assumes "unat (j - i) < 2 ^ 32 - 1"
  shows "unat (j + 1 - i) = Suc (unat (j - i))"
proof -
  have "unat ((j - i) + 1) = Suc (unat (j - i))" using assms by (simp only: unat_word_ariths) simp
  then show ?thesis by (simp add: algebra_simps)
qed

lemma ring_dist_pred:
  fixes i j :: u32
  assumes "i \<noteq> j"
  shows "unat (j - (i + 1)) = unat (j - i) - 1" and "unat (j - 1 - i) = unat (j - i) - 1"
proof -
  have "j - i \<noteq> 0" using assms by simp
  then have "unat ((j - i) - 1) = unat (j - i) - 1" by (simp add: unat_minus_one)
  then show "unat (j - (i + 1)) = unat (j - i) - 1" "unat (j - 1 - i) = unat (j - i) - 1" by (simp_all add: algebra_simps)
qed

lemma ring_dist_eq_iff:
  fixes i j :: u32
  assumes "n < 2 ^ 32"
  shows "j = i + of_nat n \<longleftrightarrow> unat (j - i) = n"
proof -
  have "j = i + of_nat n \<longleftrightarrow> j - i = of_nat n" by (auto simp: algebra_simps)
  also have "\<dots> \<longleftrightarrow> unat (j - i) = n" using assms by (auto simp: word_unat_eq_iff unat_of_nat)
  finally show ?thesis .
qed

section \<open>Bounded queues\<close>

fun gets :: "('q \<Rightarrow> 'b \<times> 'q) \<Rightarrow> nat \<Rightarrow> 'q \<Rightarrow> 'b list \<times> 'q" where
  "gets get 0 q = ([], q)"
| "gets get (Suc n) q = (let (b, q) = get q; (bs, q) = gets get n q in (b # bs, q))"

locale fifo =
  fixes put :: "'b \<Rightarrow> 'q \<Rightarrow> 'q" and get :: "'q \<Rightarrow> 'b \<times> 'q" and contents :: "'q \<Rightarrow> 'b list"
    and ok :: "'q \<Rightarrow> bool" and cap :: nat
  assumes bounded: "ok q \<Longrightarrow> length (contents q) \<le> cap"
    and put_ok: "ok q \<Longrightarrow> length (contents q) < cap \<Longrightarrow> ok (put b q)"
    and contents_put: "ok q \<Longrightarrow> length (contents q) < cap \<Longrightarrow> contents (put b q) = contents q @ [b]"
    and get_ok: "ok q \<Longrightarrow> contents q \<noteq> [] \<Longrightarrow> ok (snd (get q))"
    and contents_get: "ok q \<Longrightarrow> contents q \<noteq> [] \<Longrightarrow> contents q = fst (get q) # contents (snd (get q))"
begin

lemma puts:
  assumes "ok q" "length (contents q) + length bs \<le> cap"
  shows "ok (fold put bs q) \<and> contents (fold put bs q) = contents q @ bs"
  using assms by (induction bs arbitrary: q) (simp_all add: put_ok contents_put)

lemma gets_spec:
  assumes "ok q" "n \<le> length (contents q)"
  shows "ok (snd (gets get n q)) \<and> contents q = fst (gets get n q) @ contents (snd (gets get n q)) \<and>
    length (fst (gets get n q)) = n"
  using assms
proof (induction n arbitrary: q)
  case (Suc n)
  then have "contents q \<noteq> []" by auto
  with Suc.prems have g: "ok (snd (get q))" "contents q = fst (get q) # contents (snd (get q))"
    by (blast intro: get_ok contents_get)+
  then have "n \<le> length (contents (snd (get q)))" using Suc.prems(2) arg_cong [OF g(2), of length] by simp
  from Suc.IH [OF g(1) this] have i: "ok (snd (gets get n (snd (get q))))"
    "contents (snd (get q)) = fst (gets get n (snd (get q))) @ contents (snd (gets get n (snd (get q))))"
    "length (fst (gets get n (snd (get q)))) = n" by blast+
  have "gets get (Suc n) q = (fst (get q) # fst (gets get n (snd (get q))), snd (gets get n (snd (get q))))"
    by (simp add: case_prod_beta Let_def)
  with i g(2) show ?case by (metis append_Cons fst_conv snd_conv length_Cons)
qed simp

text \<open>What went in comes out, in order, behind what was there.\<close>

lemma puts_gets:
  assumes "ok q" "length (contents q) + length bs \<le> cap"
  shows "fst (gets get (length (contents q) + length bs) (fold put bs q)) = contents q @ bs"
proof -
  note p = puts [OF assms]
  let ?n = "length (contents q) + length bs"
  have "length (contents (fold put bs q)) = ?n" using p by simp
  with gets_spec [of "fold put bs q" ?n] p
  have g: "contents q @ bs = fst (gets get ?n (fold put bs q)) @ contents (snd (gets get ?n (fold put bs q)))"
    "length (fst (gets get ?n (fold put bs q))) = ?n" by simp_all
  from arg_cong [OF g(1), of length] g(2) have "contents (snd (gets get ?n (fold put bs q))) = []" by simp
  with g(1) show ?thesis by simp
qed

end

end
