(* ===== verification/Uaccess.thy ===== *)
theory Uaccess
  imports Sleeplock
begin

text \<open>
  How the loops of pipes and consoles cross the user boundary: one byte at a time, up to the first one that is not
  mapped.
\<close>

text \<open>The bytes that the user can read from \<open>va\<close> on, at most \<open>n\<close> and before the first that is not mapped.\<close>

fun uprefix :: "mem \<Rightarrow> u64 \<Rightarrow> u64 \<Rightarrow> nat \<Rightarrow> u8 list" where
  "uprefix m pt va 0 = []"
| "uprefix m pt va (Suc n) = (case umem m pt va of None \<Rightarrow> [] | Some b \<Rightarrow> b # uprefix m pt (va + 1) n)"

lemma uprefix_le: "length (uprefix m pt va n) \<le> n"
  by (induction n arbitrary: va) (auto split: option.splits)

lemma uprefix_full: "uload m pt va n = Some bs \<Longrightarrow> uprefix m pt va n = bs"
  by (induction n arbitrary: va bs) (auto split: option.splits)

lemma copyin_1:
  assumes "pt_wf (ram s) pt"
  shows "\<exists>bs. copyin pt va 1 s = Inr (case umem (ram s) pt va of None \<Rightarrow> (-1, bs) | Some b \<Rightarrow> (0, [b]))"
  using copyin_uload [OF assms, of va 1] by (auto split: option.splits)

lemma keeps_user_ram: "keeps_user pt s s' \<Longrightarrow> s' = s\<lparr>ram := ram s'\<rparr>"
  by (cases s, cases s') (simp add: keeps_user_def touches_def same_rest_def)

lemma uprefix_length_cong:
  "(\<And>v. uaddr m' pt v = uaddr m pt v) \<Longrightarrow> length (uprefix m' pt va n) = length (uprefix m pt va n)"
  by (induction n arbitrary: va) (auto simp: umem_def split: option.splits)

lemma copyout_1:
  assumes "pt_wf (ram s) pt" "user_wf (ram s) pt"
  shows "\<exists>m. copyout pt va [b] s = Inr (if umem (ram s) pt va = None then -1 else 0, s\<lparr>ram := m\<rparr>) \<and>
    keeps_user pt s (s\<lparr>ram := m\<rparr>) \<and>
    (\<forall>v. umem m pt v = (if v = va \<and> umem (ram s) pt va \<noteq> None then Some b else umem (ram s) pt v))"
proof -
  have z: "unat (v - va) = 0 \<longleftrightarrow> v = va" "Suc 0 \<le> unat (v - va) \<longleftrightarrow> v \<noteq> va" for v
    by (simp_all add: unat_eq_0 Suc_le_eq unat_gt_0)
  from copyout_spec [OF assms, of "[b]" va] obtain r s' where c: "copyout pt va [b] s = Inr (r, s')" "keeps_user pt s s'"
    and d: "r = 0 \<and> uload (ram s) pt va 1 \<noteq> None \<and> (\<forall>v. umem (ram s') pt v =
         (if unat (v - va) = 0 then Some ([b] ! unat (v - va)) else umem (ram s) pt v)) \<or>
       r = -1 \<and> uload (ram s) pt va 1 = None \<and> (\<forall>v. Suc 0 \<le> unat (v - va) \<longrightarrow> umem (ram s') pt v = umem (ram s) pt v)"
    by auto
  have u: "uload (ram s) pt va 1 = None \<longleftrightarrow> umem (ram s) pt va = None" by (simp split: option.splits)
  from d have d: "r = 0 \<and> umem (ram s) pt va \<noteq> None \<and> (\<forall>v. umem (ram s') pt v = (if v = va then Some b else umem (ram s) pt v)) \<or>
       r = -1 \<and> umem (ram s) pt va = None \<and> (\<forall>v. v \<noteq> va \<longrightarrow> umem (ram s') pt v = umem (ram s) pt v)"
    unfolding u z by (simp cong: if_cong)
  have e: "umem (ram s') pt va = None \<longleftrightarrow> umem (ram s) pt va = None"
    using c(2) by (simp add: keeps_user_def umem_def)
  have "umem (ram s') pt v = (if v = va \<and> umem (ram s) pt va \<noteq> None then Some b else umem (ram s) pt v)" for v
    using d e by (cases "v = va") auto
  with c d keeps_user_ram [OF c(2)] show ?thesis by (intro exI [of _ "ram s'"]) auto
qed

text \<open>The address space of a process that is in the kernel, without locks.\<close>

definition in_kernel :: "nat \<Rightarrow> u64 \<Rightarrow> 'a kproc_scheme \<Rightarrow> bool" where
  "in_kernel p pt s \<longleftrightarrow> running p s \<and> pt = p_pagetable (procs s p) \<and> pt_wf (ram s) pt \<and> user_wf (ram s) pt"

end
