(* ===== verification/Pipes.thy ===== *)
theory Pipes
  imports File Ring Uaccess
begin

text \<open>
  Pipes are bounded queues of bytes. The two counters of a pipe run freely and wrap at \<open>2 ^ 32\<close>;
  \<open>pipe_bytes\<close> is what the pipe holds. \<open>pipewrite\<close> appends and \<open>piperead\<close> takes from the front, and
  every way out of the two loops is an equation.
\<close>

definition pipe_ok :: "pipe \<Rightarrow> bool" where
  "pipe_ok x \<longleftrightarrow> length (pi_data x) = PIPESIZE \<and> unat (pi_nwrite x - pi_nread x) \<le> PIPESIZE"

definition pipe_bytes :: "pipe \<Rightarrow> u8 list" where
  "pipe_bytes x = ring_slice (pi_data x) (pi_nread x) (unat (pi_nwrite x - pi_nread x))"

lemma length_pipe_bytes: "length (pipe_bytes x) = unat (pi_nwrite x - pi_nread x)"
  by (simp add: pipe_bytes_def)

lemma pipe_full_iff: "pi_nwrite x = pi_nread x + 0x200 \<longleftrightarrow> length (pipe_bytes x) = PIPESIZE"
  using ring_dist_eq_iff [of PIPESIZE "pi_nwrite x" "pi_nread x"] by (simp add: length_pipe_bytes)

lemma pipe_empty_iff: "pi_nread x = pi_nwrite x \<longleftrightarrow> pipe_bytes x = []"
  using ring_dist_eq_iff [of 0 "pi_nwrite x" "pi_nread x"]
  by (auto simp: length_pipe_bytes simp flip: length_0_conv)

lemma pipe_put_bytes:
  assumes "pipe_ok x" "length (pipe_bytes x) < PIPESIZE"
  shows "pipe_ok (pipe_put b x)" "pipe_bytes (pipe_put b x) = pipe_bytes x @ [b]"
proof -
  let ?d = "unat (pi_nwrite x - pi_nread x)"
  have len: "length (pi_data x) = PIPESIZE" using assms(1) by (simp add: pipe_ok_def)
  have d: "?d < PIPESIZE" using assms(2) by (simp add: length_pipe_bytes)
  then have s: "unat (pi_nwrite x + 1 - pi_nread x) = Suc ?d" by (intro ring_dist_Suc) simp
  then show "pipe_ok (pipe_put b x)" using d len by (simp add: pipe_ok_def pipe_put_def)
  have "pi_data (pipe_put b x) = ring_put (pi_nread x + of_nat ?d) b (pi_data x)"
    by (simp add: pipe_put_def ring_put_def len)
  with ring_slice_put(2) [of "pi_data x" ?d "pi_nread x" b] d len s
  show "pipe_bytes (pipe_put b x) = pipe_bytes x @ [b]"
    by (simp add: pipe_bytes_def) (simp add: pipe_put_def)
qed

lemma pipe_get_bytes:
  assumes "pipe_ok x" "pipe_bytes x \<noteq> []"
  shows "pipe_ok (snd (pipe_get x))" "pipe_bytes x = fst (pipe_get x) # pipe_bytes (snd (pipe_get x))"
proof -
  have ne: "pi_nread x \<noteq> pi_nwrite x" using assms(2) by (simp add: pipe_empty_iff)
  then obtain d where d: "unat (pi_nwrite x - pi_nread x) = Suc d"
    using assms(2) length_pipe_bytes [of x] by (cases "unat (pi_nwrite x - pi_nread x)") auto
  note p = ring_dist_pred(1) [OF ne]
  show "pipe_ok (snd (pipe_get x))" using assms(1) p d by (simp add: pipe_ok_def pipe_get_def)
  show "pipe_bytes x = fst (pipe_get x) # pipe_bytes (snd (pipe_get x))"
    using assms(1) p d by (simp add: pipe_bytes_def pipe_get_def ring_slice_Cons pipe_ok_def)
qed

interpretation pipeq: fifo pipe_put pipe_get pipe_bytes pipe_ok PIPESIZE
  by unfold_locales (use pipe_put_bytes pipe_get_bytes in \<open>auto simp: pipe_ok_def length_pipe_bytes\<close>)

section \<open>Writing\<close>

lemma upd_pipe_simps [simp]:
  "held (upd_pipe pi g s) = held s" "ram (upd_pipe pi g s) = ram s" "freelist (upd_pipe pi g s) = freelist s"
  "procs (upd_pipe pi g s) = procs s" "cur (upd_pipe pi g s) = cur s"
  "pipes (upd_pipe pi g s) = (pipes s)(pi := g (pipes s pi))" "files (upd_pipe pi g s) = files s"
  "upd_pipe pi g (upd_pipe pi f s) = upd_pipe pi (\<lambda>x. g (f x)) s"
  by (simp_all add: upd_pipe_def)

lemma upd_pipe_id [simp]: "upd_pipe pi id s = s"
  by (simp add: upd_pipe_def)

lemma pipe_put_open [simp]: "pi_readopen (pipe_put b x) = pi_readopen x" "pi_writeopen (pipe_put b x) = pi_writeopen x"
  by (simp_all add: pipe_put_def)

text \<open>
  The loop puts the bytes it can read as long as there is room. If it finds the pipe full with bytes to go, it gives
  up when nobody reads any more or the writer was killed, and waits otherwise; else it returns \<open>n\<close>.
\<close>

definition write_outcome :: "u64 \<Rightarrow> u32 \<Rightarrow> nat \<Rightarrow> nat \<Rightarrow> u8 list \<Rightarrow> nat \<Rightarrow> 'a kfile_scheme \<Rightarrow> (pipe_out \<times> 'a kfile_scheme) result" where
  "write_outcome pi n i k bs p s =
     (let room = PIPESIZE - length (pipe_bytes (pipes s pi));
          t = upd_pipe pi (fold pipe_put (take room bs)) s;
          unlock = (\<lambda>t. t\<lparr>held := held t - {LkPipe pi}\<rparr>)
      in if room < k \<and> room \<le> length bs then
           if pi_readopen (pipes s pi) = 0 \<or> p_killed (procs s p) \<noteq> 0 then Inr (PDone (-1), unlock t)
           else Inr (PWait (i + room), wake_all (ChPipeRead pi) t)
         else Inr (PDone n, unlock (wake_all (ChPipeRead pi) t)))"

lemma pipewrite_from_eq:
  assumes "cur s = Some p" "pt_wf (ram s) (p_pagetable (procs s p))" "pipe_ok (pipes s pi)" "no_proc_lock s" "LkPipe pi \<in> held s"
  shows "pipewrite_from pi addr n i k s =
    write_outcome pi n i k (uprefix (ram s) (p_pagetable (procs s p)) (addr + of_nat i) k) p s"
  using assms
proof (induction k arbitrary: i s)
  case 0
  then show ?case by (simp add: write_outcome_def Let_def wakeup_eq release_def)
next
  case (Suc k)
  let ?x = "pipes s pi" and ?pt = "p_pagetable (procs s p)" and ?a = "addr + of_nat i"
  have le: "length (pipe_bytes ?x) \<le> PIPESIZE" using pipeq.bounded [OF Suc.prems(3)] .
  have my: "myproc s = Inr p" using Suc.prems(1) by (simp add: myproc_def)
  show ?case
  proof (cases "length (pipe_bytes ?x) = PIPESIZE")
    case True
    then show ?thesis using Suc.prems my by (simp add: write_outcome_def Let_def pipe_full_iff wakeup_eq release_def)
  next
    case False
    then have room: "length (pipe_bytes ?x) < PIPESIZE" using le by simp
    obtain cs where c: "copyin ?pt ?a 1 s = Inr (case umem (ram s) ?pt ?a of None \<Rightarrow> (-1, cs) | Some b \<Rightarrow> (0, [b]))"
      using copyin_1 [OF Suc.prems(2)] by blast
    show ?thesis
    proof (cases "umem (ram s) ?pt ?a")
      case None
      then show ?thesis using Suc.prems my room c
        by (simp add: write_outcome_def Let_def pipe_full_iff wakeup_eq release_def)
    next
      case (Some b)
      let ?s = "upd_pipe pi (pipe_put b) s"
      let ?bs = "uprefix (ram s) ?pt (addr + of_nat (Suc i)) k"
      note put = pipe_put_bytes [OF Suc.prems(3) room, of b]
      have "pipewrite_from pi addr n i (Suc k) s = pipewrite_from pi addr n (Suc i) k ?s"
        using my room c Some by (simp add: pipe_full_iff)
      also have "\<dots> = write_outcome pi n (Suc i) k ?bs p ?s"
        using Suc.IH [of ?s "Suc i"] Suc.prems put(1) by (simp add: no_proc_lock_def)
      also have "\<dots> = write_outcome pi n i (Suc k) (b # ?bs) p s"
      proof -
        have r: "PIPESIZE - length (pipe_bytes ?x) = Suc (PIPESIZE - length (pipe_bytes (pipe_put b ?x)))"
          using put(2) room by simp
        show ?thesis unfolding write_outcome_def Let_def r by (simp add: comp_def)
      qed
      also have "b # ?bs = uprefix (ram s) ?pt ?a (Suc k)" using Some by (simp add: algebra_simps)
      finally show ?thesis .
    qed
  qed
qed

section \<open>Reading\<close>

definition read_count :: "mem \<Rightarrow> u64 \<Rightarrow> u64 \<Rightarrow> nat \<Rightarrow> pipe \<Rightarrow> nat" where
  "read_count m pt a k x = length (uprefix m pt a (min k (length (pipe_bytes x))))"

text \<open>The bytes that leave the pipe: one more than those delivered, if the destination ends early.\<close>

definition read_taken :: "mem \<Rightarrow> u64 \<Rightarrow> u64 \<Rightarrow> nat \<Rightarrow> pipe \<Rightarrow> nat" where
  "read_taken m pt a k x = min (read_count m pt a k x + 1) (min k (length (pipe_bytes x)))"

lemma piperead_from_spec:
  assumes "cur s = Some p" "pt = p_pagetable (procs s p)" "pt_wf (ram s) pt" "user_wf (ram s) pt" "pipe_ok (pipes s pi)"
    and "a = addr + of_nat i"
  shows "\<exists>m x. piperead_from pi addr i k s = Inr (i + read_count (ram s) pt a k (pipes s pi), upd_pipe pi (\<lambda>_. x) (s\<lparr>ram := m\<rparr>)) \<and>
    keeps_user pt s (s\<lparr>ram := m\<rparr>) \<and> pipe_ok x \<and>
    pipe_bytes x = drop (read_taken (ram s) pt a k (pipes s pi)) (pipe_bytes (pipes s pi)) \<and>
    pi_readopen x = pi_readopen (pipes s pi) \<and> pi_writeopen x = pi_writeopen (pipes s pi) \<and>
    (\<forall>v. umem m pt v = (if unat (v - a) < read_count (ram s) pt a k (pipes s pi)
       then Some (pipe_bytes (pipes s pi) ! unat (v - a)) else umem (ram s) pt v))"
  using assms
proof (induction k arbitrary: i s a)
  case 0
  then show ?case
    by (intro exI [of _ "ram s"] exI [of _ "pipes s pi"])
      (simp add: read_count_def read_taken_def keeps_user_refl upd_pipe_def)
next
  case (Suc k)
  let ?x = "pipes s pi"
  have my: "myproc s = Inr p" using Suc.prems(1) by (simp add: myproc_def)
  show ?case
  proof (cases "pipe_bytes ?x = []")
    case True
    then show ?thesis using Suc.prems my
      by (intro exI [of _ "ram s"] exI [of _ ?x])
        (simp add: read_count_def read_taken_def keeps_user_refl upd_pipe_def pipe_empty_iff)
  next
    case False
    obtain b y where g: "pipe_get ?x = (b, y)" by fastforce
    note gb = pipe_get_bytes [OF Suc.prems(5) False, unfolded g fst_conv snd_conv]
    have op: "pi_readopen y = pi_readopen ?x" "pi_writeopen y = pi_writeopen ?x" using g by (auto simp: pipe_get_def)
    let ?s = "upd_pipe pi (\<lambda>_. y) s"
    from copyout_1 [of ?s pt a b] Suc.prems obtain m where
      c: "copyout pt a [b] ?s = Inr (if umem (ram s) pt a = None then -1 else 0, ?s\<lparr>ram := m\<rparr>)"
      and ku: "keeps_user pt ?s (?s\<lparr>ram := m\<rparr>)"
      and um: "\<forall>v. umem m pt v = (if v = a \<and> umem (ram s) pt a \<noteq> None then Some b else umem (ram s) pt v)"
      by auto
    have ks: "keeps_user pt s (s\<lparr>ram := m\<rparr>)" using ku by (auto simp: keeps_user_def touches_def same_rest_def)
    have step: "piperead_from pi addr i (Suc k) s =
        (if umem (ram s) pt a = None then Inr (i, ?s\<lparr>ram := m\<rparr>) else piperead_from pi addr (Suc i) k (?s\<lparr>ram := m\<rparr>))"
      using my False g c Suc.prems(2,6) by (simp add: pipe_empty_iff)
    show ?thesis
    proof (cases "umem (ram s) pt a")
      case None
      then have "read_count (ram s) pt a (Suc k) ?x = 0" "read_taken (ram s) pt a (Suc k) ?x = 1"
        using gb(2) by (simp_all add: read_count_def read_taken_def)
      with None step ks gb um op show ?thesis
        by (intro exI [of _ m] exI [of _ y]) (simp add: upd_pipe_def)
    next
      case (Some b0)
      have ua: "uaddr m pt v = uaddr (ram s) pt v" for v using ks by (simp add: keeps_user_def)
      have cnt: "read_count (ram s) pt a (Suc k) ?x = Suc (read_count m pt (a + 1) k y)"
        using Some gb(2) uprefix_length_cong [of m pt "ram s", OF ua] by (simp add: read_count_def)
      have tk: "read_taken (ram s) pt a (Suc k) ?x = Suc (read_taken m pt (a + 1) k y)"
        using gb(2) cnt by (simp add: read_taken_def)
      from Suc.IH [of "?s\<lparr>ram := m\<rparr>" "a + 1" "Suc i"] Suc.prems gb(1) ks obtain m' x where
        r: "piperead_from pi addr (Suc i) k (?s\<lparr>ram := m\<rparr>) = Inr (Suc i + read_count m pt (a + 1) k y, upd_pipe pi (\<lambda>_. x) (s\<lparr>ram := m'\<rparr>))"
        and k2: "keeps_user pt (?s\<lparr>ram := m\<rparr>) (?s\<lparr>ram := m'\<rparr>)" and ok: "pipe_ok x"
        and pb: "pipe_bytes x = drop (read_taken m pt (a + 1) k y) (pipe_bytes y)"
        and o2: "pi_readopen x = pi_readopen y" "pi_writeopen x = pi_writeopen y"
        and u2: "\<forall>v. umem m' pt v = (if unat (v - (a + 1)) < read_count m pt (a + 1) k y
          then Some (pipe_bytes y ! unat (v - (a + 1))) else umem m pt v)"
        by (auto simp: keeps_user_def algebra_simps upd_pipe_def)
      have k3: "keeps_user pt (s\<lparr>ram := m\<rparr>) (s\<lparr>ram := m'\<rparr>)" using k2 by (auto simp: keeps_user_def touches_def same_rest_def)
      have cl: "read_count m pt (a + 1) k y < 2 ^ 63"
        using uprefix_le [of m pt "a + 1" "min k (length (pipe_bytes y))"] pipeq.bounded [OF gb(1)]
        by (simp add: read_count_def)
      note D = unat_diff_run [of 1 "read_count m pt (a + 1) k y" _ a, OF _ cl, simplified]
      have "umem m' pt v = (if unat (v - a) < Suc (read_count m pt (a + 1) k y)
          then Some (pipe_bytes ?x ! unat (v - a)) else umem (ram s) pt v)" for v
      proof (cases "v = a")
        case True
        then show ?thesis using u2 um Some gb(2) D(1) [of v] by auto
      next
        case False
        then have "unat (v - a) \<noteq> 0" by (simp add: unat_eq_0)
        then show ?thesis using False u2 um gb(2) D [of v] by (auto simp: Suc_le_eq nth_Cons' less_diff_conv)
      qed
      with step Some r cnt tk keeps_user_trans [OF ks k3] ok pb gb(2) op o2 show ?thesis
        by (intro exI [of _ m'] exI [of _ x]) simp
    qed
  qed
qed

section \<open>Properties\<close>

lemma fold_pipe_put_open [simp]:
  "pi_readopen (fold pipe_put bs x) = pi_readopen x" "pi_writeopen (fold pipe_put bs x) = pi_writeopen x"
  by (induction bs arbitrary: x) simp_all

lemma pipewrite_spec:
  fixes n :: u32 and addr :: u64
  assumes "in_kernel p pt s" "pipe_ok (pipes s pi)"
  defines "q \<equiv> pipe_bytes (pipes s pi)" and "k \<equiv> nat (sint n)"
  defines "bs \<equiv> uprefix (ram s) pt addr k" and "room \<equiv> PIPESIZE - length q"
  shows "\<exists>out t. pipewrite pi addr n s = Inr (out, t) \<and> pipe_ok (pipes t pi) \<and> pipe_bytes (pipes t pi) = q @ take room bs \<and>
    out = (if room < k \<and> room \<le> length bs
           then if pi_readopen (pipes s pi) = 0 \<or> p_killed (procs s p) \<noteq> 0 then PDone (-1) else PWait room
           else PDone n) \<and>
    ram t = ram s \<and> files t = files s \<and> (\<forall>pj. pj \<noteq> pi \<longrightarrow> pipes t pj = pipes s pj)"
proof -
  let ?s = "s\<lparr>held := {LkPipe pi}\<rparr>"
  have s: "cur ?s = Some p" "pt_wf (ram ?s) (p_pagetable (procs ?s p))" "pipe_ok (pipes ?s pi)" "no_proc_lock ?s" "LkPipe pi \<in> held ?s"
    using assms(1,2) by (auto simp: in_kernel_def running_def no_proc_lock_def)
  have "pipewrite pi addr n s = write_outcome pi n 0 k bs p ?s"
    using pipewrite_from_eq [OF s, of addr n 0 k] assms(1)
    by (simp add: pipewrite_def acquire_def in_kernel_def running_def k_def bs_def)
  moreover have "length q + length (take room bs) \<le> PIPESIZE"
    using pipeq.bounded [OF assms(2)] by (simp add: room_def q_def)
  then have "pipe_ok (fold pipe_put (take room bs) (pipes s pi))"
    "pipe_bytes (fold pipe_put (take room bs) (pipes s pi)) = q @ take room bs"
    using pipeq.puts [OF assms(2), of "take room bs"] by (simp_all add: q_def)
  ultimately show ?thesis
    unfolding write_outcome_def Let_def by (auto simp: room_def q_def wake_all_def)
qed

lemma piperead_spec:
  fixes n :: u32 and addr :: u64
  assumes "in_kernel p pt s" "pipe_ok (pipes s pi)"
  defines "q \<equiv> pipe_bytes (pipes s pi)" and "k \<equiv> nat (sint n)"
  defines "c \<equiv> length (uprefix (ram s) pt addr (min k (length q)))"
  assumes "q \<noteq> [] \<or> pi_writeopen (pipes s pi) = 0"
  shows "\<exists>t. piperead pi addr n s = Inr (PDone (of_nat c), t) \<and> pipe_ok (pipes t pi) \<and>
    pipe_bytes (pipes t pi) = drop (min (c + 1) (min k (length q))) q \<and> pt_wf (ram t) pt \<and> user_wf (ram t) pt \<and>
    (\<forall>v. uaddr (ram t) pt v = uaddr (ram s) pt v) \<and>
    (\<forall>v. umem (ram t) pt v = (if unat (v - addr) < c then Some (q ! unat (v - addr)) else umem (ram s) pt v)) \<and>
    files t = files s \<and> (\<forall>pj. pj \<noteq> pi \<longrightarrow> pipes t pj = pipes s pj)"
proof -
  let ?s = "s\<lparr>held := {LkPipe pi}\<rparr>"
  have s: "cur ?s = Some p" "pt = p_pagetable (procs ?s p)" "pt_wf (ram ?s) pt" "user_wf (ram ?s) pt" "pipe_ok (pipes ?s pi)"
    using assms(1,2) by (auto simp: in_kernel_def running_def)
  have my: "myproc ?s = Inr p" using s(1) by (simp add: myproc_def)
  from piperead_from_spec [OF s, of addr addr 0 k] obtain m x where
    r: "piperead_from pi addr 0 k ?s = Inr (c, upd_pipe pi (\<lambda>_. x) (?s\<lparr>ram := m\<rparr>))"
    and x: "pipe_ok x" "pipe_bytes x = drop (min (c + 1) (min k (length q))) q" and ku: "keeps_user pt ?s (?s\<lparr>ram := m\<rparr>)"
    and um: "\<forall>v. umem m pt v = (if unat (v - addr) < c then Some (q ! unat (v - addr)) else umem (ram s) pt v)"
    by (auto simp: read_count_def read_taken_def c_def q_def)
  have "\<not> (pi_nread (pipes s pi) = pi_nwrite (pipes s pi) \<and> pi_writeopen (pipes s pi) \<noteq> 0)"
    using assms(6) by (auto simp: pipe_empty_iff q_def)
  then have "piperead pi addr n s = Inr (PDone (of_nat c),
      wake_all (ChPipeWrite pi) (upd_pipe pi (\<lambda>_. x) (?s\<lparr>ram := m\<rparr>))\<lparr>held := {}\<rparr>)"
    using r my assms(1) unfolding piperead_def
    by (auto simp: acquire_def in_kernel_def running_def wakeup_eq no_proc_lock_def release_def simp flip: k_def)
  with x ku um show ?thesis by (auto simp: keeps_user_def wake_all_def)
qed


text \<open>A process with one user page at 0x5000, and an empty pipe whose counters are about to wrap.\<close>

lemma pipe_example:
  "\<exists>s :: kfile. in_kernel 0 0x80030000 s \<and>
     pipes s 0x80040000 = \<lparr>pi_data = replicate PIPESIZE 5, pi_nread = 0xFFFFFFFE, pi_nwrite = 0xFFFFFFFE, pi_readopen = 1, pi_writeopen = 1\<rparr> \<and>
     p_killed (procs s 0) = 0 \<and> (\<forall>v. uaddr (ram s) 0x80030000 v = (if page_idx v = 5 then 0x80033000 else 0))"
proof -
  from vm_example_mapped obtain m :: kmem where m: "pt_wf (ram m) 0x80030000" "user_wf (ram m) 0x80030000"
    "\<And>v. uaddr (ram m) 0x80030000 v = (if page_idx v = 5 then 0x80033000 else 0)" by blast
  let ?s = "(undefined :: kfile)\<lparr>held := {}, ram := ram m, cur := Some 0,
    procs := \<lambda>_. undefined\<lparr>p_pagetable := 0x80030000, p_killed := 0\<rparr>,
    pipes := \<lambda>_. \<lparr>pi_data = replicate PIPESIZE 5, pi_nread = 0xFFFFFFFE, pi_nwrite = 0xFFFFFFFE, pi_readopen = 1, pi_writeopen = 1\<rparr>\<rparr>"
  show ?thesis by (rule exI [of _ ?s]) (use m in \<open>simp add: in_kernel_def running_def\<close>)
qed

lemma pipe_example_bytes:
  fixes x :: pipe
  assumes "x = \<lparr>pi_data = replicate PIPESIZE 5, pi_nread = 0xFFFFFFFE, pi_nwrite = 0xFFFFFFFE, pi_readopen = 1, pi_writeopen = 1\<rparr>"
  shows "pipe_ok x" "pipe_bytes x = []"
  by (simp_all add: assms pipe_ok_def pipe_bytes_def)

lemma uload_example:
  assumes "\<forall>v. uaddr m pt v = (if page_idx v = 5 then 0x80033000 else 0)"
  shows "\<exists>b c d. uload m pt 0x5FF0 3 = Some [b, c, d]"
  unfolding numeral_3_eq_3 using assms by (simp add: umem_def page_idx_def)


text \<open>
  C20. What is written comes out: a writer puts \<open>bs\<close> into a pipe that holds \<open>q\<close> and has room for it; whatever happens to
  the rest of the machine meanwhile, a process that then reads all of it from the pipe has \<open>q @ bs\<close> at the
  address it gave, and the pipe is empty.
\<close>

theorem pipe_roundtrip:
  fixes n n' :: u32 and addr addr' :: u64 and s :: "'a kfile_scheme"
  assumes "in_kernel p pt s" "pipe_ok (pipes s pi)" "uload (ram s) pt addr (nat (sint n)) = Some bs"
    and "length (pipe_bytes (pipes s pi)) + length bs \<le> PIPESIZE" "bs \<noteq> []"
    and "sint n' = int (length (pipe_bytes (pipes s pi)) + length bs)"
  shows "\<exists>t. pipewrite pi addr n s = Inr (PDone n, t) \<and>
    (\<forall>(u :: 'a kfile_scheme) p' pt'. in_kernel p' pt' u \<longrightarrow> pipes u pi = pipes t pi \<longrightarrow> uload (ram u) pt' addr' (nat (sint n')) \<noteq> None \<longrightarrow>
      (\<exists>w. piperead pi addr' n' u = Inr (PDone n', w) \<and> pipe_bytes (pipes w pi) = [] \<and>
        copyin pt' addr' (nat (sint n')) w = Inr (0, pipe_bytes (pipes s pi) @ bs)))"
proof -
  let ?q = "pipe_bytes (pipes s pi)" and ?k = "nat (sint n')"
  have lb: "length bs = nat (sint n)" using uload_length assms(3) by simp
  have up: "uprefix (ram s) pt addr (nat (sint n)) = bs" using uprefix_full assms(3) by simp
  have nr: "\<not> PIPESIZE - length ?q < nat (sint n)" "take (PIPESIZE - length ?q) bs = bs" using lb assms(4) by simp_all
  from pipewrite_spec [OF assms(1,2), where n = n and addr = addr] obtain t where
    w: "pipewrite pi addr n s = Inr (PDone n, t)" "pipe_ok (pipes t pi)" "pipe_bytes (pipes t pi) = ?q @ bs"
    unfolding up using nr by auto
  have k: "?k = length (?q @ bs)" using assms(6) by simp
  have k': "of_nat (length (?q @ bs)) = n'" using arg_cong [OF assms(6), of "of_int :: int \<Rightarrow> u32"] by simp
  have "\<exists>w. piperead pi addr' n' u = Inr (PDone n', w) \<and> pipe_bytes (pipes w pi) = [] \<and> copyin pt' addr' ?k w = Inr (0, ?q @ bs)"
    if u: "in_kernel p' pt' u" "pipes u pi = pipes t pi" "uload (ram u) pt' addr' ?k \<noteq> None" for u :: "'a kfile_scheme" and p' pt'
  proof -
    from u(3) obtain cs where cs: "uload (ram u) pt' addr' ?k = Some cs" by blast
    then have c: "length (uprefix (ram u) pt' addr' (length (?q @ bs))) = length (?q @ bs)"
      using uprefix_full uload_length k by simp
    from piperead_spec [OF u(1), of pi, where n = n' and addr = addr'] u(2) w(2,3) assms(5) c k k' obtain v where
      r: "piperead pi addr' n' u = Inr (PDone n', v)" "pipe_bytes (pipes v pi) = []" "pt_wf (ram v) pt'"
      "\<forall>x. umem (ram v) pt' x = (if unat (x - addr') < length (?q @ bs) then Some ((?q @ bs) ! unat (x - addr')) else umem (ram u) pt' x)"
      by auto
    have "umem (ram v) pt' (addr' + of_nat j) = Some ((?q @ bs) ! j)" if "j < length (?q @ bs)" for j
      using r(4) that assms(4) by (simp add: unat_of_nat)
    then have "uload (ram v) pt' addr' ?k = Some (?q @ bs)" unfolding k by (rule uload_run)
    with copyin_uload [OF r(3), of addr' ?k] r(1,2) show ?thesis by auto
  qed
  with w(1) show ?thesis by blast
qed

theorem pipe_roundtrip_witness:
  "\<exists>(s :: kfile) t b c d. uload (ram s) 0x80030000 0x5FF0 3 = Some [b, c, d] \<and> pipewrite 0x80040000 0x5FF0 3 s = Inr (PDone 3, t) \<and>
     (\<exists>w. piperead 0x80040000 0x5FF0 3 (s\<lparr>pipes := pipes t\<rparr>) = Inr (PDone 3, w) \<and> copyin 0x80030000 0x5FF0 3 w = Inr (0, [b, c, d]))"
proof -
  from pipe_example obtain s :: kfile where s: "in_kernel 0 0x80030000 s"
    "\<forall>v. uaddr (ram s) 0x80030000 v = (if page_idx v = 5 then 0x80033000 else 0)"
    and x: "pipes s 0x80040000 = \<lparr>pi_data = replicate PIPESIZE 5, pi_nread = 0xFFFFFFFE, pi_nwrite = 0xFFFFFFFE, pi_readopen = 1, pi_writeopen = 1\<rparr>"
    by blast
  note e = pipe_example_bytes [OF x]
  obtain b c d where l: "uload (ram s) 0x80030000 0x5FF0 3 = Some [b, c, d]"
    using uload_example [OF s(2)] by blast
  from pipe_roundtrip [OF s(1) e(1), where n = 3 and addr = "0x5FF0" and bs = "[b, c, d]" and n' = 3 and addr' = "0x5FF0"] e(2) l obtain t where
    t: "pipewrite 0x80040000 0x5FF0 3 s = Inr (PDone 3, t)"
    "\<forall>(u :: kfile) p' pt'. in_kernel p' pt' u \<longrightarrow> pipes u 0x80040000 = pipes t 0x80040000 \<longrightarrow> uload (ram u) pt' 0x5FF0 3 \<noteq> None \<longrightarrow>
      (\<exists>w. piperead 0x80040000 0x5FF0 3 u = Inr (PDone 3, w) \<and> pipe_bytes (pipes w 0x80040000) = [] \<and>
        copyin pt' 0x5FF0 3 w = Inr (0, [b, c, d]))" by auto
  let ?u = "s\<lparr>pipes := pipes t\<rparr>"
  have "in_kernel 0 0x80030000 ?u" using s(1) by (simp add: in_kernel_def running_def)
  with t(2) [rule_format, of 0 "0x80030000" ?u] l obtain w where
    "piperead 0x80040000 0x5FF0 3 ?u = Inr (PDone 3, w)" "copyin 0x80030000 0x5FF0 3 w = Inr (0, [b, c, d])" by auto
  with t(1) l show ?thesis by (intro exI [of _ s] exI [of _ t] exI [of _ b] exI [of _ c] exI [of _ d]) simp
qed

end
