(* ===== verification/Consoles.thy ===== *)
theory Consoles
  imports Console Ring Uaccess
begin

text \<open>
  Line editing on the virtual consoles. What a console's input buffer holds is two lists: the bytes ready for readers and
  the line being edited. The interrupt handler refines an editor on these lists, and typing and
  reading a line is a round trip.
\<close>

definition cons_ready :: "input \<Rightarrow> u8 list" where
  "cons_ready x = ring_slice (in_buf x) (in_r x) (unat (in_w x - in_r x))"

definition cons_line :: "input \<Rightarrow> u8 list" where
  "cons_line x = ring_slice (in_buf x) (in_w x) (unat (in_e x - in_w x))"

definition cons_ok :: "input \<Rightarrow> bool" where
  "cons_ok x \<longleftrightarrow> length (in_buf x) = INPUT_BUF \<and> length (cons_ready x) + length (cons_line x) \<le> INPUT_BUF \<and>
     10 \<notin> set (cons_line x) \<and> 4 \<notin> set (cons_line x)"

lemma length_cons [simp]:
  "length (cons_ready x) = unat (in_w x - in_r x)" "length (cons_line x) = unat (in_e x - in_w x)"
  by (simp_all add: cons_ready_def cons_line_def)

lemma cons_dist:
  assumes "cons_ok x"
  shows "unat (in_e x - in_r x) = unat (in_w x - in_r x) + unat (in_e x - in_w x)"
proof -
  have "in_e x - in_r x = (in_w x - in_r x) + (in_e x - in_w x)" by simp
  moreover have "unat (in_w x - in_r x) + unat (in_e x - in_w x) < 2 ^ 32" using assms by (simp add: cons_ok_def)
  ultimately show ?thesis using unat_add_lem [of "in_w x - in_r x" "in_e x - in_w x"] by simp
qed

lemma cons_all:
  assumes "cons_ok x"
  shows "cons_ready x @ cons_line x = ring_slice (in_buf x) (in_r x) (unat (in_e x - in_r x))"
  by (simp add: cons_dist [OF assms] ring_slice_add cons_ready_def cons_line_def)

lemma cons_line_empty: "cons_line x = [] \<longleftrightarrow> in_e x = in_w x"
  using ring_dist_eq_iff [of 0 "in_e x" "in_w x"] by (simp flip: length_0_conv)

lemma cons_ready_empty: "cons_ready x = [] \<longleftrightarrow> in_r x = in_w x"
  using ring_dist_eq_iff [of 0 "in_w x" "in_r x"] by (auto simp flip: length_0_conv)

section \<open>The steps of the editor\<close>

definition cons_put :: "u8 \<Rightarrow> input \<Rightarrow> input" where
  "cons_put c x = x\<lparr>in_buf := (in_buf x)[unat (in_e x) mod INPUT_BUF := c], in_e := in_e x + 1\<rparr>"

lemma cons_put_lists:
  assumes "cons_ok x" "length (cons_ready x) + length (cons_line x) < INPUT_BUF"
  shows "cons_ready (cons_put c x) = cons_ready x" "cons_line (cons_put c x) = cons_line x @ [c]"
    and "length (in_buf (cons_put c x)) = INPUT_BUF"
proof -
  let ?d = "unat (in_e x - in_r x)" and ?w = "unat (in_w x - in_r x)" and ?y = "cons_put c x"
  have len: "length (in_buf x) = INPUT_BUF" using assms(1) by (simp add: cons_ok_def)
  have d: "?d < INPUT_BUF" using assms cons_dist [OF assms(1)] by simp
  have buf: "in_buf ?y = ring_put (in_r x + of_nat ?d) c (in_buf x)" by (simp add: cons_put_def ring_put_def len)
  have "unat (in_e x - in_w x) < 2 ^ 32 - 1" using assms(2) by simp
  then have e: "unat (in_e ?y - in_w ?y) = Suc (unat (in_e x - in_w x))" by (simp add: cons_put_def ring_dist_Suc)
  have "ring_slice (in_buf ?y) (in_r x) (Suc ?d) = (cons_ready x @ cons_line x) @ [c]"
    unfolding buf cons_all [OF assms(1)] by (rule ring_slice_put(2)) (use len d in simp_all)
  moreover have d': "Suc ?d = ?w + Suc (unat (in_e x - in_w x))" using cons_dist [OF assms(1)] by simp
  ultimately have "ring_slice (in_buf ?y) (in_r x) ?w @ ring_slice (in_buf ?y) (in_w x) (Suc (unat (in_e x - in_w x))) =
      cons_ready x @ (cons_line x @ [c])" unfolding d' ring_slice_add by simp
  then show "cons_ready ?y = cons_ready x" "cons_line ?y = cons_line x @ [c]"
    using e by (simp_all add: cons_ready_def cons_line_def) (simp_all add: cons_put_def)
  show "length (in_buf ?y) = INPUT_BUF" by (simp add: cons_put_def len)
qed

lemma cons_commit_lists:
  assumes "length (in_buf x) = INPUT_BUF" "length (cons_ready x) + length (cons_line x) \<le> INPUT_BUF"
  shows "cons_ready (x\<lparr>in_w := in_e x\<rparr>) = cons_ready x @ cons_line x" "cons_line (x\<lparr>in_w := in_e x\<rparr>) = []"
proof -
  have "in_e x - in_r x = (in_w x - in_r x) + (in_e x - in_w x)" by simp
  moreover have "unat (in_w x - in_r x) + unat (in_e x - in_w x) < 2 ^ 32" using assms by simp
  ultimately have "unat (in_e x - in_r x) = unat (in_w x - in_r x) + unat (in_e x - in_w x)"
    using unat_add_lem [of "in_w x - in_r x" "in_e x - in_w x"] by simp
  then show "cons_ready (x\<lparr>in_w := in_e x\<rparr>) = cons_ready x @ cons_line x" "cons_line (x\<lparr>in_w := in_e x\<rparr>) = []"
    by (simp_all add: cons_ready_def cons_line_def ring_slice_add)
qed

lemma cons_erase_lists:
  assumes "cons_line x \<noteq> []"
  shows "cons_ready (x\<lparr>in_e := in_e x - 1\<rparr>) = cons_ready x" "cons_line (x\<lparr>in_e := in_e x - 1\<rparr>) = butlast (cons_line x)"
    and "length (in_buf x) = INPUT_BUF \<Longrightarrow> in_buf x ! (unat (in_e x - 1) mod INPUT_BUF) = last (cons_line x)"
proof -
  have ne: "in_w x \<noteq> in_e x" using assms by (metis cons_line_empty)
  then obtain d where d: "unat (in_e x - in_w x) = Suc d" by (cases "unat (in_e x - in_w x)") (auto simp: unat_eq_0)
  have "unat (in_e x - 1 - in_w x) = d" using ring_dist_pred(2) [OF ne] d by simp
  with d show "cons_ready (x\<lparr>in_e := in_e x - 1\<rparr>) = cons_ready x" "cons_line (x\<lparr>in_e := in_e x - 1\<rparr>) = butlast (cons_line x)"
    by (simp_all add: cons_ready_def cons_line_def ring_slice_Suc)
  have "of_nat d = in_e x - 1 - in_w x" unfolding \<open>unat (in_e x - 1 - in_w x) = d\<close> [symmetric] by simp
  then have "in_w x + of_nat d = in_e x - 1" by simp
  then show "in_buf x ! (unat (in_e x - 1) mod INPUT_BUF) = last (cons_line x)" if "length (in_buf x) = INPUT_BUF"
    using d that by (simp add: cons_line_def ring_slice_Suc)
qed

section \<open>The editor\<close>

text \<open>
  What a typed character does to the ready bytes and the line of the active console, and its echo. Characters 21, 8 and 127
  are control-U and backspace; 16, 14 and 2 list the processes and switch consoles; 13 counts as newline.
\<close>

definition accepts :: "u8 \<Rightarrow> u8 list \<times> u8 list \<Rightarrow> bool" where
  "accepts c rl \<longleftrightarrow> c \<notin> {0, 2, 8, 14, 16, 21, 127} \<and> length (fst rl) + length (snd rl) < INPUT_BUF"

definition typed :: "u8 \<Rightarrow> u8" where
  "typed c = (if c = 13 then 10 else c)"

definition edit_line :: "u8 \<Rightarrow> u8 list \<times> u8 list \<Rightarrow> u8 list \<times> u8 list" where
  "edit_line c rl =
     (let (ready, line) = rl in
      if c = 21 then (ready, [])
      else if c = 8 \<or> c = 127 then (ready, butlast line)
      else if \<not> accepts c rl then rl
      else let line = line @ [typed c] in
        if typed c = 10 \<or> typed c = 4 \<or> length ready + length line = INPUT_BUF then (ready @ line, []) else (ready, line))"

definition echo :: "u8 \<Rightarrow> u8 list \<times> u8 list \<Rightarrow> u8 list" where
  "echo c rl =
     (if c = 21 then concat (replicate (length (snd rl)) [8, 32, 8])
      else if c = 8 \<or> c = 127 then (if snd rl = [] then [] else [8, 32, 8])
      else if accepts c rl then [typed c] else [])"

definition edit :: "u8 \<Rightarrow> nat \<times> (nat \<Rightarrow> u8 list \<times> u8 list) \<Rightarrow> nat \<times> (nat \<Rightarrow> u8 list \<times> u8 list)" where
  "edit c = (\<lambda>(a, f). (if c = 14 \<and> a < 9 then a + 1 else if c = 2 \<and> 0 < a then a - 1 else a, f(a := edit_line c (f a))))"

definition cons_lists :: "input \<Rightarrow> u8 list \<times> u8 list" where
  "cons_lists x = (cons_ready x, cons_line x)"

definition consoles :: "'a kcons_scheme \<Rightarrow> nat \<times> (nat \<Rightarrow> u8 list \<times> u8 list)" where
  "consoles s = (consa s, \<lambda>i. cons_lists (vcons s i))"

definition consoles_ok :: "'a kcons_scheme \<Rightarrow> bool" where
  "consoles_ok s \<longleftrightarrow> (\<forall>i < 10. cons_ok (vcons s i)) \<and> consa s < 10 \<and> active s = int (consa s)"

lemma edit_line_ok:
  assumes "cons_ok x" "cons_lists y = edit_line c (cons_lists x)" "length (in_buf y) = INPUT_BUF"
  shows "cons_ok y"
proof -
  obtain r l where rl: "cons_lists x = (r, l)" by fastforce
  then have "length r + length l \<le> INPUT_BUF" "10 \<notin> set l" "4 \<notin> set l" using assms(1)
    by (auto simp: cons_lists_def cons_ok_def simp del: length_cons)
  then have "length (fst (edit_line c (r, l))) + length (snd (edit_line c (r, l))) \<le> INPUT_BUF"
    "10 \<notin> set (snd (edit_line c (r, l)))" "4 \<notin> set (snd (edit_line c (r, l)))"
    by (auto simp: edit_line_def Let_def accepts_def dest: in_set_butlastD)
  with assms(2,3) rl show ?thesis by (simp add: cons_lists_def cons_ok_def del: length_cons) (metis fst_conv snd_conv)
qed

section \<open>The interrupt handler\<close>

lemma printf_eq:
  assumes "format fmt as = Some out" "panicked s = 0" "LkPr \<notin> held s"
  shows "printf fmt as s = Inr (s\<lparr>uart_tx := uart_tx s @ out\<rparr>)"
proof -
  have "held s = insert LkPr (held s) - {LkPr}" using assms(3) by auto
  then show ?thesis using assms by (cases "pr_locking s") (simp_all add: printf_def acquire_def release_def Let_def)
qed

lemma consputc_eq:
  "panicked s = 0 \<Longrightarrow> consputc c s = Inr (s\<lparr>uart_tx := uart_tx s @ (if c = BACKSPACE then [8, 32, 8] else [ucast c])\<rparr>)"
  by (simp add: consputc_def uartputc_def)

lemma procdump_loop:
  assumes "panicked s = 0" "LkPr \<notin> held s"
  shows "\<exists>out. loop (\<lambda>i s.
       if p_state (procs s i) = UNUSED then Inr s
       else bnd (printf ''%d %s %s'' [ANum (ucast (p_pid (procs s i))), AStr (Some (bytes (state_name (p_state (procs s i))))),
              AStr (Some (p_name (procs s i)))] s) (\<lambda>s.
         printf [CHR 0x0a] [] s)) is s = Inr (s\<lparr>uart_tx := uart_tx s @ out\<rparr>)"
  using assms
proof (induction "is" arbitrary: s)
  case Nil
  show ?case by (rule exI [of _ "[]"]) simp
next
  case (Cons i "is")
  show ?case
  proof (cases "p_state (procs s i) = UNUSED")
    case True
    then show ?thesis using Cons.IH [OF Cons.prems] by simp
  next
    case False
    obtain out where "format ''%d %s %s'' [ANum (ucast (p_pid (procs s i))), AStr (Some (bytes (state_name (p_state (procs s i))))),
              AStr (Some (p_name (procs s i)))] = Some out" by simp
    moreover obtain nl where "format [CHR 0x0a] [] = Some nl" by simp
    moreover note Cons.IH [of "s\<lparr>uart_tx := uart_tx s @ out @ nl\<rparr>"]
    ultimately show ?thesis using Cons.prems False by (simp add: printf_eq del: format.simps) metis
  qed
qed

lemma procdump_eq:
  assumes "panicked s = 0" "LkPr \<notin> held s"
  shows "\<exists>out. procdump s = Inr (s\<lparr>uart_tx := uart_tx s @ out\<rparr>)"
proof -
  obtain nl where nl: "format [CHR 0x0a] [] = Some nl" by simp
  with procdump_loop [of "s\<lparr>uart_tx := uart_tx s @ nl\<rparr>" "[0..<NPROC]"] assms
  show ?thesis unfolding procdump_def by (auto simp: printf_eq simp del: format.simps upt_rec_numeral)
qed

lemma kill_line_eq:
  assumes "panicked s = 0" "length (in_buf (vcons s (consa s))) = INPUT_BUF" "10 \<notin> set (cons_line (vcons s (consa s)))"
    and "k = length (cons_line (vcons s (consa s)))"
  shows "\<exists>y. kill_line k s = Inr (s\<lparr>vcons := (vcons s)(consa s := y), uart_tx := uart_tx s @ concat (replicate k [8, 32, 8])\<rparr>) \<and>
    cons_ready y = cons_ready (vcons s (consa s)) \<and> cons_line y = [] \<and> length (in_buf y) = INPUT_BUF"
  using assms
proof (induction k arbitrary: s)
  case 0
  then show ?case by (intro exI [of _ "vcons s (consa s)"]) (simp flip: length_0_conv)
next
  case (Suc k)
  let ?x = "vcons s (consa s)"
  let ?y = "?x\<lparr>in_e := in_e ?x - 1\<rparr>"
  have ne: "cons_line ?x \<noteq> []" using Suc.prems(4) by (auto simp del: length_cons)
  note er = cons_erase_lists [OF ne]
  have "last (cons_line ?x) \<noteq> 10" using Suc.prems(3) last_in_set [OF ne] by auto
  then have b: "in_e ?x \<noteq> in_w ?x" "in_buf ?x ! (unat (in_e ?x - 1) mod INPUT_BUF) \<noteq> 10"
    using ne er(3) Suc.prems(2) by (simp_all add: cons_line_empty)
  let ?s = "s\<lparr>vcons := (vcons s)(consa s := ?y), uart_tx := uart_tx s @ [8, 32, 8]\<rparr>"
  have st: "kill_line (Suc k) s = kill_line k ?s"
    using b Suc.prems(1) by (simp add: Let_def consputc_eq upd_cons_def)
  have "10 \<notin> set (cons_line ?y)" "k = length (cons_line ?y)"
    using er(2) Suc.prems(3,4) by (auto dest: in_set_butlastD simp del: length_cons)
  then have "panicked ?s = 0" "length (in_buf (vcons ?s (consa ?s))) = INPUT_BUF" "10 \<notin> set (cons_line (vcons ?s (consa ?s)))"
    "k = length (cons_line (vcons ?s (consa ?s)))" using Suc.prems(1,2) by (simp_all del: length_cons)
  from Suc.IH [OF this] obtain y where
    y: "kill_line k ?s = Inr (?s\<lparr>vcons := (vcons ?s)(consa ?s := y), uart_tx := uart_tx ?s @ concat (replicate k [8, 32, 8])\<rparr>)"
    "cons_ready y = cons_ready (vcons ?s (consa ?s))" "cons_line y = []" "length (in_buf y) = INPUT_BUF" by blast
  have "kill_line (Suc k) s = Inr (s\<lparr>vcons := (vcons s)(consa s := y), uart_tx := uart_tx s @ concat (replicate (Suc k) [8, 32, 8])\<rparr>)"
    unfolding st y(1) by simp
  moreover have "cons_ready y = cons_ready ?x" using y(2) er(1) by simp
  ultimately show ?case using y(3,4) by blast
qed

lemma unat_lt8: "unat (a :: u8) < 256"
  by (rule order_less_le_trans [OF unsigned_less]) simp

lemma ucast_key:
  fixes c :: u8
  shows "(ucast c :: u32) = 0 \<longleftrightarrow> c = 0" "(ucast c :: u32) = 2 \<longleftrightarrow> c = 2" "(ucast c :: u32) = 4 \<longleftrightarrow> c = 4"
    "(ucast c :: u32) = 8 \<longleftrightarrow> c = 8" "(ucast c :: u32) = 10 \<longleftrightarrow> c = 10" "(ucast c :: u32) = 13 \<longleftrightarrow> c = 13"
    "(ucast c :: u32) = 14 \<longleftrightarrow> c = 14" "(ucast c :: u32) = 16 \<longleftrightarrow> c = 16" "(ucast c :: u32) = 21 \<longleftrightarrow> c = 21"
    "(ucast c :: u32) = 0x7f \<longleftrightarrow> c = 127" "(ucast c :: u32) \<noteq> 0x100"
    "ucast (ucast c :: u32) = c"
proof -
  have u: "unat (ucast d :: u32) = unat d" for d :: u8
    using unat_lt8 [of d] by (simp add: unsigned_ucast_eq take_bit_nat_eq_self)
  have e: "(ucast c :: u32) = ucast d \<longleftrightarrow> c = d" for d :: u8
    by (simp add: word_unat_eq_iff u)
  show "(ucast c :: u32) = 0 \<longleftrightarrow> c = 0" "(ucast c :: u32) = 2 \<longleftrightarrow> c = 2" "(ucast c :: u32) = 4 \<longleftrightarrow> c = 4"
    "(ucast c :: u32) = 8 \<longleftrightarrow> c = 8" "(ucast c :: u32) = 10 \<longleftrightarrow> c = 10" "(ucast c :: u32) = 13 \<longleftrightarrow> c = 13"
    "(ucast c :: u32) = 14 \<longleftrightarrow> c = 14" "(ucast c :: u32) = 16 \<longleftrightarrow> c = 16" "(ucast c :: u32) = 21 \<longleftrightarrow> c = 21"
    "(ucast c :: u32) = 0x7f \<longleftrightarrow> c = 127"
    using e [of 0] e [of 2] e [of 4] e [of 8] e [of 10] e [of 13] e [of 14] e [of 16] e [of 21] e [of 127] by simp_all
  have "unat (ucast c :: u32) < 256" using unat_lt8 [of c] by (simp add: u)
  then show "(ucast c :: u32) \<noteq> 0x100" by auto
  show "ucast (ucast c :: u32) = c" by (simp add: word_unat_eq_iff unsigned_ucast_eq take_bit_word_eq_self)
qed

lemma console_key_edit:
  assumes ok: "cons_ok (vcons s a)" and a: "a = consa s" and k: "panicked s = 0" "held s = {LkCons a}"
  shows "\<exists>y out pr. console_key (ucast c) a s = Inr (s\<lparr>vcons := (vcons s)(a := y), uart_tx := uart_tx s @ out, procs := pr\<rparr>) \<and>
    cons_lists y = edit_line c (cons_lists (vcons s a)) \<and> length (in_buf y) = INPUT_BUF \<and>
    (c \<noteq> 16 \<longrightarrow> out = echo c (cons_lists (vcons s a))) \<and>
    (\<forall>i. p_pagetable (pr i) = p_pagetable (procs s i) \<and> p_killed (pr i) = p_killed (procs s i))"
proof -
  let ?x = "vcons s a"
  have len: "length (in_buf ?x) = INPUT_BUF" using ok by (simp add: cons_ok_def)
  consider (dump) "c = 16" | (kill) "c = 21" | (bs) "c = 8 \<or> c = 127" | (acc) "accepts c (cons_lists ?x)"
    | (rest) "c \<notin> {16, 21, 8, 127}" "\<not> accepts c (cons_lists ?x)" by blast
  then show ?thesis
  proof cases
    case dump
    obtain out where "procdump s = Inr (s\<lparr>uart_tx := uart_tx s @ out\<rparr>)" using procdump_eq k by fastforce
    with dump len show ?thesis
      by (intro exI [of _ ?x] exI [of _ out] exI [of _ "procs s"]) (simp add: console_key_def edit_line_def accepts_def Let_def cons_lists_def)
  next
    case kill
    from kill_line_eq [of s "unat (in_e ?x - in_w ?x)"] ok k a obtain y where
      "kill_line (unat (in_e ?x - in_w ?x)) s = Inr (s\<lparr>vcons := (vcons s)(a := y),
         uart_tx := uart_tx s @ concat (replicate (unat (in_e ?x - in_w ?x)) [8, 32, 8])\<rparr>)"
      "cons_ready y = cons_ready ?x" "cons_line y = []" "length (in_buf y) = INPUT_BUF"
      by (auto simp: cons_ok_def)
    with kill show ?thesis
      by (intro exI [of _ y] exI [of _ "echo c (cons_lists ?x)"] exI [of _ "procs s"])
        (simp add: console_key_def edit_line_def cons_lists_def echo_def)
  next
    case bs
    show ?thesis
    proof (cases "cons_line ?x = []")
      case True
      then have "in_e ?x = in_w ?x" by (simp add: cons_line_empty)
      with bs len True show ?thesis
        by (intro exI [of _ ?x] exI [of _ "[]"] exI [of _ "procs s"])
          (auto simp: console_key_def ucast_key edit_line_def cons_lists_def echo_def)
    next
      case False
      let ?y = "?x\<lparr>in_e := in_e ?x - 1\<rparr>"
      have "in_e ?x \<noteq> in_w ?x" using False by (simp add: cons_line_empty)
      then have "console_key (ucast c) a s = Inr (s\<lparr>vcons := (vcons s)(a := ?y), uart_tx := uart_tx s @ [8, 32, 8]\<rparr>)"
        using bs k by (elim disjE) (simp_all add: console_key_def ucast_key consputc_eq upd_cons_def)
      moreover have "edit_line c (cons_lists ?x) = cons_lists ?y" "echo c (cons_lists ?x) = [8, 32, 8]"
        using bs False cons_erase_lists(1,2) [OF False]
        by (elim disjE; simp add: edit_line_def cons_lists_def echo_def)+
      ultimately show ?thesis using len
        by (intro exI [of _ ?y] exI [of _ "[8, 32, 8]"] exI [of _ "procs s"]) simp
    qed
  next
    case rest
    then have "console_key (ucast c) a s = Inr s"
      using cons_dist [OF ok] by (auto simp: console_key_def ucast_key accepts_def cons_lists_def)
    with rest len show ?thesis
      by (intro exI [of _ ?x] exI [of _ "[]"] exI [of _ "procs s"]) (simp add: edit_line_def echo_def split: prod.split)
  next
    case acc
    let ?d = "typed c" and ?y = "cons_put (typed c) ?x"
    have c: "c \<notin> {0, 2, 8, 14, 16, 21, 127}" and room: "length (cons_ready ?x) + length (cons_line ?x) < INPUT_BUF"
      using acc by (simp_all add: accepts_def cons_lists_def)
    note put = cons_put_lists [OF ok room, of ?d]
    have le: "length (cons_ready ?y) + length (cons_line ?y) \<le> INPUT_BUF" using put(1,2) room by (simp del: length_cons)
    note com = cons_commit_lists [OF put(3) le]
    define full where "full \<longleftrightarrow> in_e ?y = in_r ?y + of_nat INPUT_BUF"
    have "in_e ?y - in_r ?y = in_e ?x + 1 - in_r ?x" by (simp add: cons_put_def)
    then have "unat (in_e ?y - in_r ?y) = Suc (length (cons_ready ?x) + length (cons_line ?x))"
      using room cons_dist [OF ok] ring_dist_Suc [of "in_e ?x" "in_r ?x"] by simp
    then have full: "full \<longleftrightarrow> length (cons_ready ?x) + length (cons_line ?x @ [?d]) = INPUT_BUF"
      using ring_dist_eq_iff [of INPUT_BUF "in_e ?y" "in_r ?y"] by (simp add: full_def)
    let ?s = "s\<lparr>vcons := (vcons s)(a := ?y), uart_tx := uart_tx s @ [?d]\<rparr>"
    have "(if (ucast c :: u32) = 13 then 10 else ucast c) = (ucast ?d :: u32)" by (simp add: ucast_key typed_def)
    then have "console_key (ucast c) a s =
        (if ?d = 10 \<or> ?d = 4 \<or> full then wakeup (ChConsRead a) (upd_cons a (\<lambda>x. x\<lparr>in_w := in_e x\<rparr>) ?s) else Inr ?s)"
      using c room k cons_dist [OF ok]
      by (simp add: console_key_def ucast_key Let_def consputc_eq upd_cons_def full_def cons_put_def)
    moreover have "no_proc_lock (upd_cons a (\<lambda>x. x\<lparr>in_w := in_e x\<rparr>) ?s)" using k by (simp add: no_proc_lock_def upd_cons_def)
    ultimately have key: "console_key (ucast c) a s =
        Inr (if ?d = 10 \<or> ?d = 4 \<or> full then wake_all (ChConsRead a) (upd_cons a (\<lambda>x. x\<lparr>in_w := in_e x\<rparr>) ?s) else ?s)"
      by (simp add: wakeup_eq)
    show ?thesis
    proof (cases "?d = 10 \<or> ?d = 4 \<or> full")
      case True
      with key acc put com c full show ?thesis
        by (intro exI [of _ "?y\<lparr>in_w := in_e ?y\<rparr>"] exI [of _ "[?d]"]
              exI [of _ "\<lambda>i. if i < NPROC then wake (ChConsRead a) (procs s i) else procs s i"])
          (simp add: wake_all_def upd_cons_def edit_line_def echo_def cons_lists_def Let_def del: length_cons cong: if_cong)
    next
      case False
      with key acc put c full show ?thesis
        by (intro exI [of _ ?y] exI [of _ "[?d]"] exI [of _ "procs s"])
          (simp add: edit_line_def echo_def cons_lists_def Let_def del: length_cons)
    qed
  qed
qed

text \<open>What handling input keeps: the consoles stay well-formed, and memory and the processes' address spaces are not touched.\<close>

definition cons_frame :: "'a kcons_scheme \<Rightarrow> 'a kcons_scheme \<Rightarrow> bool" where
  "cons_frame s t \<longleftrightarrow> consoles_ok t \<and> panicked t = 0 \<and> held t = {} \<and> ram t = ram s \<and> cur t = cur s \<and>
     (\<forall>i. p_pagetable (procs t i) = p_pagetable (procs s i) \<and> p_killed (procs t i) = p_killed (procs s i))"

lemma cons_frame_trans: "cons_frame s t \<Longrightarrow> cons_frame t u \<Longrightarrow> cons_frame s u"
  by (simp add: cons_frame_def)

lemma cons_frameD: "cons_frame s t \<Longrightarrow> consoles_ok t" "cons_frame s t \<Longrightarrow> panicked t = 0" "cons_frame s t \<Longrightarrow> held t = {}"
  by (simp_all add: cons_frame_def)

lemma consoleintr_edit:
  assumes ok: "consoles_ok s" and k: "panicked s = 0" "held s = {}"
  shows "\<exists>t. consoleintr (ucast c) s = Inr t \<and> consoles t = edit c (consoles s) \<and> cons_frame s t \<and> uart_rx t = uart_rx s \<and>
    (c \<notin> {2, 14, 16} \<longrightarrow> uart_tx t = uart_tx s @ echo c (snd (consoles s) (consa s)))"
proof -
  let ?a = "consa s" and ?s = "s\<lparr>held := {LkCons (consa s)}\<rparr>"
  have a: "?a < 10" "active s = int ?a" and okc: "cons_ok (vcons s i)" if "i < 10" for i
    using ok that by (auto simp: consoles_ok_def)
  have a: "?a < 10" "active s = int ?a" using ok by (auto simp: consoles_ok_def)
  have pre: "cons_ok (vcons ?s ?a)" "?a = consa ?s" "panicked ?s = 0" "held ?s = {LkCons ?a}" using okc [OF a(1)] k by simp_all
  from console_key_edit [OF pre, of c] obtain y out pr where
    key: "console_key (ucast c) ?a ?s = Inr (?s\<lparr>vcons := (vcons ?s)(?a := y), uart_tx := uart_tx ?s @ out, procs := pr\<rparr>)"
    and y: "cons_lists y = edit_line c (cons_lists (vcons s ?a))" "length (in_buf y) = INPUT_BUF"
    and out: "c \<noteq> 16 \<Longrightarrow> out = echo c (cons_lists (vcons s ?a))"
    and pr: "\<And>i. p_pagetable (pr i) = p_pagetable (procs s i)" "\<And>i. p_killed (pr i) = p_killed (procs s i)" by fastforce
  have oky: "cons_ok y" using okc [OF a(1)] y by (rule edit_line_ok)
  let ?t = "s\<lparr>vcons := (vcons s)(?a := y), uart_tx := uart_tx s @ out, procs := pr\<rparr>"
  define mv where "mv = (if c = 14 then 1 else if c = 2 then -1 else 0 :: int)"
  obtain msg where msg: "format (CHR 0x0a # ''Active console now: %d'' @ [CHR 0x0a]) [ANum (of_int (active s + mv))] = Some msg" by simp
  have acq: "acquire (LkCons ?a) s = Inr ?s" using k(2) by (simp add: acquire_def)
  have rel: "release (LkCons ?a) (?s\<lparr>vcons := (vcons ?s)(?a := y), uart_tx := uart_tx ?s @ out, procs := pr\<rparr>) = Inr ?t"
    using k(2) by (simp add: release_def)
  have mv': "(if (ucast c :: u32) = 14 then 1 else if (ucast c :: u32) = 2 then -1 else 0) = mv" by (simp add: mv_def ucast_key)
  have "consoleintr (ucast c) s = (if mv \<noteq> 0 \<and> mv + active s \<ge> 0 \<and> mv + active s < 10 then
      printf (CHR 0x0a # ''Active console now: %d'' @ [CHR 0x0a]) [ANum (of_int (active s + mv))]
        (?t\<lparr>active := active s + mv, consa := nat (active s + mv)\<rparr>) else Inr ?t)"
    unfolding consoleintr_def Let_def acq bnd_simps key rel mv' by simp
  also have "\<dots> = Inr (if mv \<noteq> 0 \<and> mv + active s \<ge> 0 \<and> mv + active s < 10
      then ?t\<lparr>active := active s + mv, consa := nat (active s + mv), uart_tx := uart_tx s @ out @ msg\<rparr> else ?t)"
    using k msg by (simp add: printf_eq del: format.simps)
  finally have C: "consoleintr (ucast c) s = \<dots>" .
  let ?f = "(\<lambda>i. cons_lists (vcons s i))(?a := edit_line c (cons_lists (vcons s ?a)))"
  have f: "(\<lambda>i. cons_lists (((vcons s)(?a := y)) i)) = ?f" using y(1) by auto
  have okt: "\<forall>i < 10. cons_ok (((vcons s)(?a := y)) i)" using okc oky by simp
  show ?thesis
  proof (cases "mv \<noteq> 0 \<and> mv + active s \<ge> 0 \<and> mv + active s < 10")
    case True
    let ?b = "if c = 14 \<and> ?a < 9 then ?a + 1 else if c = 2 \<and> 0 < ?a then ?a - 1 else ?a"
    let ?u = "?t\<lparr>active := active s + mv, consa := nat (active s + mv), uart_tx := uart_tx s @ out @ msg\<rparr>"
    from True have n: "nat (active s + mv) = ?b" "active s + mv = int ?b" "?b < 10" and c: "\<not> (c \<noteq> 2 \<and> c \<noteq> 14 \<and> c \<noteq> 16)"
      using a by (auto simp: mv_def split: if_splits)
    have "consoles ?u = edit c (consoles s)" using n(1) f by (simp add: consoles_def edit_def)
    moreover have "consoles_ok ?u" using okt n(2,3) by (simp add: consoles_ok_def)
    then have "cons_frame s ?u" using k pr by (simp add: cons_frame_def)
    ultimately show ?thesis using C True c by (intro exI [of _ ?u]) (simp only: if_True simp_thms insert_iff empty_iff, simp)
  next
    case False
    then have n: "(if c = 14 \<and> ?a < 9 then ?a + 1 else if c = 2 \<and> 0 < ?a then ?a - 1 else ?a) = ?a"
      using a by (auto simp: mv_def split: if_splits)
    from C False have C: "consoleintr (ucast c) s = Inr ?t" by simp
    have "consoles ?t = edit c (consoles s)" using n f by (simp add: consoles_def edit_def)
    moreover have "consoles_ok ?t" using okt a by (simp add: consoles_ok_def)
    then have "cons_frame s ?t" using k pr by (simp add: cons_frame_def)
    ultimately show ?thesis using C out by (intro exI [of _ ?t]) (simp add: consoles_def)
  qed
qed

text \<open>The echo of a sequence of characters typed into one console.\<close>

fun echo_all :: "u8 list \<Rightarrow> u8 list \<times> u8 list \<Rightarrow> u8 list" where
  "echo_all [] rl = []"
| "echo_all (c # cs) rl = echo c rl @ echo_all cs (edit_line c rl)"

lemma uartintr_edit:
  assumes "consoles_ok s" "panicked s = 0" "held s = {}" "length (uart_rx s) < n"
  shows "\<exists>t. uartintr_from n s = Inr t \<and> uart_rx t = [] \<and> consoles t = fold edit (uart_rx s) (consoles s) \<and> cons_frame s t \<and>
    (set (uart_rx s) \<inter> {2, 14, 16} = {} \<longrightarrow> uart_tx t = uart_tx s @ echo_all (uart_rx s) (snd (consoles s) (consa s)))"
  using assms
proof (induction "uart_rx s" arbitrary: n s)
  case Nil
  then show ?case by (cases n) (simp_all add: uartgetc_def cons_frame_def)
next
  case (Cons c cs)
  from Cons.prems(4) Cons.hyps(2) [symmetric] obtain m where m: "n = Suc m" "length cs < m" by (cases n) auto
  let ?s = "s\<lparr>uart_rx := cs\<rparr>"
  have i: "of_int (uint c) = (ucast c :: u32)" by (simp only: ucast_eq)
  have ne: "uint c \<noteq> -1" using uint_ge_0 [of c] by linarith
  have cs: "consoles ?s = consoles s" by (simp add: consoles_def)
  have pre: "consoles_ok ?s" "panicked ?s = 0" "held ?s = {}" using Cons.prems by (simp_all add: consoles_ok_def)
  from consoleintr_edit [OF pre, of c] obtain t where t: "consoleintr (ucast c) ?s = Inr t"
    "consoles t = edit c (consoles ?s)" "cons_frame ?s t" "uart_rx t = uart_rx ?s"
    "c \<notin> {2, 14, 16} \<longrightarrow> uart_tx t = uart_tx ?s @ echo c (snd (consoles ?s) (consa ?s))" by blast
  have st: "uartintr_from n s = uartintr_from m t"
    using Cons.hyps(2) [symmetric] t(1) ne by (simp add: m(1) uartgetc_def i)
  have e: "snd (consoles t) (consa t) = edit_line c (snd (consoles s) (consa s))" if "c \<notin> {2, 14}"
    using t(2) that unfolding cs by (simp add: consoles_def edit_def fun_eq_iff)
  have "cs = uart_rx t" using t(4) by simp
  note IH = Cons.hyps(1) [OF this cons_frameD [OF t(3)], unfolded \<open>cs = uart_rx t\<close> [symmetric], OF m(2)]
  from IH obtain u where u: "uartintr_from m t = Inr u" "uart_rx u = []"
    "consoles u = fold edit cs (consoles t)" "cons_frame t u"
    "set cs \<inter> {2, 14, 16} = {} \<longrightarrow> uart_tx u = uart_tx t @ echo_all cs (snd (consoles t) (consa t))" by blast
  have "cons_frame s t" using t(3) by (simp add: cons_frame_def)
  then have "cons_frame s u" using u(4) by (rule cons_frame_trans)
  moreover have "uart_tx u = uart_tx s @ echo_all (uart_rx s) (snd (consoles s) (consa s))" if "set (uart_rx s) \<inter> {2, 14, 16} = {}"
  proof -
    from that have "c \<notin> {2, 14, 16}" "c \<notin> {2, 14}" "set cs \<inter> {2, 14, 16} = {}" using Cons.hyps(2) [symmetric] by auto
    with u(5) t(5) e show ?thesis using Cons.hyps(2) [symmetric] by (simp add: cs)
  qed
  moreover have "consoles u = fold edit (uart_rx s) (consoles s)" using u(3) t(2) Cons.hyps(2) [symmetric] by (simp add: cs)
  ultimately show ?case using st u(1,2) by (intro exI [of _ u]) simp
qed

section \<open>Reading a line\<close>

text \<open>
  What a reader that has already got something (or not) receives of the ready bytes, what remains, and whether the
  call ends: at a newline, at control-D (4), which stays for the next call if bytes were delivered, or when enough
  was read.
\<close>

fun cooked :: "nat \<Rightarrow> bool \<Rightarrow> u8 list \<Rightarrow> u8 list \<times> u8 list \<times> bool" where
  "cooked 0 started q = ([], q, True)"
| "cooked (Suc n) started [] = ([], [], False)"
| "cooked (Suc n) started (c # q) =
     (if c = 4 then ([], if started then c # q else q, True)
      else if c = 10 then ([c], q, True)
      else let (d, r, fin) = cooked n True q in (c # d, r, fin))"

lemma cooked_le: "cooked n b q = (d, r, fin) \<Longrightarrow> length d \<le> n"
  by (induction n b q arbitrary: d r fin rule: cooked.induct) (auto split: if_splits prod.splits)

lemma cons_get_lists:
  assumes "cons_ok x" "cons_ready x \<noteq> []"
  shows "cons_ready x = in_buf x ! (unat (in_r x) mod INPUT_BUF) # cons_ready (x\<lparr>in_r := in_r x + 1\<rparr>)"
    and "cons_ok (x\<lparr>in_r := in_r x + 1\<rparr>)"
proof -
  have ne: "in_r x \<noteq> in_w x" using assms(2) by (simp add: cons_ready_empty)
  then obtain d where d: "unat (in_w x - in_r x) = Suc d" by (cases "unat (in_w x - in_r x)") (auto simp: unat_eq_0)
  note p = ring_dist_pred(1) [OF ne]
  show "cons_ready x = in_buf x ! (unat (in_r x) mod INPUT_BUF) # cons_ready (x\<lparr>in_r := in_r x + 1\<rparr>)"
    using assms(1) p d by (simp add: cons_ready_def ring_slice_Cons cons_ok_def)
  show "cons_ok (x\<lparr>in_r := in_r x + 1\<rparr>)" using assms(1) p d by (simp add: cons_ok_def) (simp add: cons_line_def)
qed

definition read_result :: "nat \<Rightarrow> u64 \<Rightarrow> u32 \<Rightarrow> u32 \<Rightarrow> nat \<Rightarrow> bool \<Rightarrow> bool \<Rightarrow> 'a kcons_scheme \<Rightarrow> (cread_out \<times> 'a kcons_scheme) result" where
  "read_result i a n target len fin killed t =
     (if fin then Inr (CDone (target - n + of_nat len), t\<lparr>held := held t - {LkCons i}\<rparr>)
      else if killed then Inr (CDone (-1), t\<lparr>held := held t - {LkCons i}\<rparr>)
      else Inr (CWait (User (a + of_nat len)) (n - of_nat len), t))"

lemma vcons_ram_same [simp]: "s\<lparr>vcons := v, ram := ram s\<rparr> = s\<lparr>vcons := v\<rparr>"
  by (cases s) simp

lemma consoleread_from_spec:
  assumes "cur s = Some p" "pt = p_pagetable (procs s p)" "pt_wf (ram s) pt" "user_wf (ram s) pt" "cons_ok (vcons s i)"
    and "LkCons i \<in> held s" "uload (ram s) pt a k \<noteq> None" "n = of_nat k" "k \<le> unat target" "unat target < 2 ^ 31" "k < fuel"
    and "cooked k (n < target) (cons_ready (vcons s i)) = (d, r, fin)"
  shows "\<exists>m y. consoleread_from fuel i (User a) n target s =
      read_result i a n target (length d) fin (p_killed (procs s p) \<noteq> 0) (s\<lparr>vcons := (vcons s)(i := y), ram := m\<rparr>) \<and>
    cons_ok y \<and> cons_lists y = (r, cons_line (vcons s i)) \<and> keeps_user pt s (s\<lparr>ram := m\<rparr>) \<and>
    (\<forall>v. umem m pt v = (if unat (v - a) < length d then Some (d ! unat (v - a)) else umem (ram s) pt v))"
  using assms
proof (induction k arbitrary: s a n fuel d r)
  case 0
  then obtain f where "fuel = Suc f" by (cases fuel) auto
  with 0 show ?case
    by (intro exI [of _ "ram s"] exI [of _ "vcons s i"])
      (simp add: read_result_def release_def cons_lists_def keeps_user_refl)
next
  case (Suc k)
  let ?x = "vcons s i"
  from Suc.prems(11) obtain f where f: "fuel = Suc f" "k < f" by (cases fuel) auto
  have my: "myproc s = Inr p" using Suc.prems(1) by (simp add: myproc_def)
  have "Suc k < 2 ^ 31" using Suc.prems(9,10) by simp
  then have sn: "0 < sint n" and un: "unat n = Suc k"
    unfolding Suc.prems(8) by (simp_all add: unat_of_nat signed_of_nat signed_take_bit_int_eq_self del: of_nat_Suc)
  show ?case
  proof (cases "cons_ready ?x")
    case Nil
    then have "in_r ?x = in_w ?x" by (simp add: cons_ready_empty)
    with Nil Suc.prems(3-6,12) sn my f show ?thesis
      by (intro exI [of _ "ram s"] exI [of _ ?x])
        (simp add: read_result_def release_def cons_lists_def keeps_user_refl)
  next
    case (Cons c q)
    let ?y = "?x\<lparr>in_r := in_r ?x + 1\<rparr>"
    have rw: "in_r ?x \<noteq> in_w ?x" using Cons by (auto simp flip: cons_ready_empty)
    have ch: "in_buf ?x ! (unat (in_r ?x) mod INPUT_BUF) = c" "cons_ready ?y = q" "cons_ok ?y"
      using cons_get_lists [OF Suc.prems(5)] Cons by auto
    have line: "cons_line ?y = cons_line ?x" by (simp add: cons_line_def)
    let ?s = "upd_cons i (\<lambda>x. x\<lparr>in_r := in_r x + 1\<rparr>) s"
    have step: "consoleread_from fuel i (User a) n target s =
       (if c = 4 then
          let s = (if n < target then upd_cons i (\<lambda>x. x\<lparr>in_r := in_r x - 1\<rparr>) ?s else ?s) in
          bnd (release (LkCons i) s) (\<lambda>s. Inr (CDone (target - n), s))
        else bnd (put_to (User a) [c] ?s) (\<lambda>(r, dst, s).
          if r = -1 then bnd (release (LkCons i) s) (\<lambda>s. Inr (CDone (target - n), s))
          else if c = 10 then bnd (release (LkCons i) s) (\<lambda>s. Inr (CDone (target - (n - 1)), s))
          else consoleread_from f i dst (n - 1) target s))"
      using sn rw ch(1) by (simp add: f(1) Let_def)
    show ?thesis
    proof (cases "c = 4")
      case True
      have undo: "upd_cons i (\<lambda>x. x\<lparr>in_r := in_r x - 1\<rparr>) ?s = s" by (simp add: upd_cons_def)
      note T = True step Cons Suc.prems(3-6,12) ch line
      show ?thesis
      proof (cases "n < target")
        case True
        with T undo show ?thesis
          by (intro exI [of _ "ram s"] exI [of _ ?x]) (simp add: read_result_def release_def cons_lists_def keeps_user_refl Let_def)
      next
        case False
        with T show ?thesis
          by (intro exI [of _ "ram s"] exI [of _ ?y])
            (simp add: read_result_def release_def cons_lists_def keeps_user_refl upd_cons_def Let_def fun_upd_def)
      qed
    next
      case c4: False
      from Suc.prems(7) have um0: "umem (ram s) pt a \<noteq> None" and ul: "uload (ram s) pt (a + 1) k \<noteq> None"
        by (auto split: option.splits)
      have ws: "pt_wf (ram ?s) pt" "user_wf (ram ?s) pt" using Suc.prems(3,4) by (simp_all add: upd_cons_def)
      from copyout_1 [OF ws, of a c] um0 obtain m where
        m: "copyout pt a [c] ?s = Inr (0, ?s\<lparr>ram := m\<rparr>)" "keeps_user pt ?s (?s\<lparr>ram := m\<rparr>)"
        "\<forall>v. umem m pt v = (if v = a then Some c else umem (ram s) pt v)" by (auto simp: upd_cons_def)
      have ks: "keeps_user pt s (s\<lparr>ram := m\<rparr>)"
        using m(2) by (auto simp: keeps_user_def touches_def same_rest_def upd_cons_def)
      have pt: "put_to (User a) [c] ?s = Inr (0, User (a + 1), ?s\<lparr>ram := m\<rparr>)"
        using m(1) my Suc.prems(2) by (simp add: put_to_def either_copyout_def upd_cons_def myproc_def)
      have n1: "n - 1 = of_nat k" using Suc.prems(8) by simp
      show ?thesis
      proof (cases "c = 10")
        case True
        with Suc.prems(12) Cons c4 have d: "d = [10]" "r = q" "fin" by auto
        have "umem m pt v = (if unat (v - a) < length d then Some (d ! unat (v - a)) else umem (ram s) pt v)" for v
          using m(3) True d(1) by (simp add: unat_eq_0)
        moreover have "consoleread_from fuel i (User a) n target s = read_result i a n target (length d) fin
            (p_killed (procs s p) \<noteq> 0) (s\<lparr>vcons := (vcons s)(i := ?y), ram := m\<rparr>)"
          using pt True d Suc.prems(6) unfolding step by (simp add: read_result_def release_def upd_cons_def)
        moreover have "cons_lists ?y = (r, cons_line ?x)" using ch(2) line d(2) by (simp add: cons_lists_def)
        ultimately show ?thesis using ch(3) ks by blast
      next
        case c10: False
        obtain d' where cd: "cooked k True q = (d', r, fin)" and d: "d = c # d'"
          using Suc.prems(12) Cons c4 c10 by (auto split: prod.splits)
        have lt: "n - 1 < target" using Suc.prems(9) un by (simp add: word_less_nat_alt n1 unat_of_nat Suc.prems(10) order_less_le_trans)
        let ?u = "?s\<lparr>ram := m\<rparr>"
        have ua: "\<And>v. uaddr m pt v = uaddr (ram s) pt v" using ks by (simp add: keeps_user_def)
        have pre: "cur ?u = Some p" "pt = p_pagetable (procs ?u p)" "pt_wf (ram ?u) pt" "user_wf (ram ?u) pt" "cons_ok (vcons ?u i)"
          "LkCons i \<in> held ?u" "uload (ram ?u) pt (a + 1) k \<noteq> None" "n - 1 = of_nat k" "k \<le> unat target" "unat target < 2 ^ 31" "k < f"
          "cooked k (n - 1 < target) (cons_ready (vcons ?u i)) = (d', r, fin)"
          using Suc.prems(1,2,6,9,10) ks ch(2,3) f(2) cd lt n1 uload_None_cong [OF ua] ul
          by (simp_all add: upd_cons_def keeps_user_def)
        from Suc.IH [OF pre] obtain m' y where
          r: "consoleread_from f i (User (a + 1)) (n - 1) target ?u =
             read_result i (a + 1) (n - 1) target (length d') fin (p_killed (procs ?u p) \<noteq> 0) (?u\<lparr>vcons := (vcons ?u)(i := y), ram := m'\<rparr>)"
          and y: "cons_ok y" "cons_lists y = (r, cons_line (vcons ?u i))" and k2: "keeps_user pt ?u (?u\<lparr>ram := m'\<rparr>)"
          and u2: "\<forall>v. umem m' pt v = (if unat (v - (a + 1)) < length d' then Some (d' ! unat (v - (a + 1))) else umem (ram ?u) pt v)"
          by blast
        have k3: "keeps_user pt (s\<lparr>ram := m\<rparr>) (s\<lparr>ram := m'\<rparr>)"
          using k2 by (auto simp: keeps_user_def touches_def same_rest_def upd_cons_def)
        have dl: "length d' < 2 ^ 63" using cooked_le [OF cd] Suc.prems(9,10) by simp
        note D = unat_diff_run [of 1 "length d'" _ a, OF _ dl, simplified]
        have um: "umem m' pt v = (if unat (v - a) < length d then Some (d ! unat (v - a)) else umem (ram s) pt v)" for v
        proof (cases "v = a")
          case True
          then show ?thesis using u2 m(3) d D(1) [of v] by auto
        next
          case False
          then have "unat (v - a) \<noteq> 0" by (simp add: unat_eq_0)
          then show ?thesis using False u2 m(3) d D [of v] by (auto simp: Suc_le_eq nth_Cons' less_diff_conv)
        qed
        have rr: "read_result i (a + 1) (n - 1) target (length d') fin b t = read_result i a n target (length d) fin b t" for b t
          using d by (simp add: read_result_def algebra_simps)
        have "?u\<lparr>vcons := (vcons ?u)(i := y), ram := m'\<rparr> = s\<lparr>vcons := (vcons s)(i := y), ram := m'\<rparr>"
          "p_killed (procs ?u p) = p_killed (procs s p)" by (simp_all add: upd_cons_def)
        with r rr have "consoleread_from f i (User (a + 1)) (n - 1) target ?u =
          read_result i a n target (length d) fin (p_killed (procs s p) \<noteq> 0) (s\<lparr>vcons := (vcons s)(i := y), ram := m'\<rparr>)" by simp
        then have "consoleread_from fuel i (User a) n target s =
          read_result i a n target (length d) fin (p_killed (procs s p) \<noteq> 0) (s\<lparr>vcons := (vcons s)(i := y), ram := m'\<rparr>)"
          using pt c4 c10 unfolding step by simp
        moreover have "cons_lists y = (r, cons_line ?x)" using y(2) line by (simp add: upd_cons_def)
        ultimately show ?thesis using y(1) keeps_user_trans [OF ks k3] um by blast
      qed
    qed
  qed
qed

section \<open>Properties\<close>

lemma consoleinit_ok:
  assumes "\<forall>i < 10. length (in_buf (vcons s i)) = INPUT_BUF"
  shows "consoles_ok (consoleinit s)" and "\<forall>i < 10. cons_lists (vcons (consoleinit s) i) = ([], [])"
proof -
  have f: "vcons (fold (\<lambda>i s. upd_cons i (\<lambda>x. x\<lparr>in_r := 0, in_w := 0, in_e := 0\<rparr>) s) is s) j =
      (if j \<in> set is then (vcons s j)\<lparr>in_r := 0, in_w := 0, in_e := 0\<rparr> else vcons s j)" for "is" j
    by (induction "is" arbitrary: s) (auto simp: upd_cons_def)
  have v: "vcons (consoleinit s) i = (vcons s i)\<lparr>in_r := 0, in_w := 0, in_e := 0\<rparr>" if "i < 10" for i
    using that by (simp add: consoleinit_def Let_def uartinit_def f)
  show "consoles_ok (consoleinit s)"
    using assms v by (simp add: consoles_ok_def cons_ok_def cons_line_def) (simp add: consoleinit_def Let_def uartinit_def)
  show "\<forall>i < 10. cons_lists (vcons (consoleinit s) i) = ([], [])"
    using v by (simp add: cons_lists_def cons_ready_def cons_line_def)
qed

text \<open>
  C21. The interrupt handler implements a line editor, one per virtual console. Whatever characters the UART holds, \<open>uartintr\<close>
  terminates with all of them handled, in order; each is applied to the active console only: it ends up in the
  line being edited, or erases, or switches consoles, and newline, control-D or a full buffer hands the line over to readers.
  The ready bytes and the line never exceed the 128 bytes of the buffer. Except for the keys that print something else, the
  output is the echo of what was typed. Memory and address spaces stay as they are.
\<close>

theorem console_line_editor:
  assumes "consoles_ok s" "panicked s = 0" "held s = {}"
  shows "\<exists>t. uartintr s = Inr t \<and> uart_rx t = [] \<and> consoles t = fold edit (uart_rx s) (consoles s) \<and> cons_frame s t \<and>
    (\<forall>i < 10. length (cons_ready (vcons t i)) + length (cons_line (vcons t i)) \<le> INPUT_BUF) \<and>
    (set (uart_rx s) \<inter> {2, 14, 16} = {} \<longrightarrow> uart_tx t = uart_tx s @ echo_all (uart_rx s) (cons_lists (vcons s (consa s))))"
proof -
  from uartintr_edit [OF assms lessI] obtain t where t: "uartintr_from (Suc (length (uart_rx s))) s = Inr t" "uart_rx t = []"
    "consoles t = fold edit (uart_rx s) (consoles s)" "cons_frame s t"
    "set (uart_rx s) \<inter> {2, 14, 16} = {} \<longrightarrow> uart_tx t = uart_tx s @ echo_all (uart_rx s) (snd (consoles s) (consa s))" by blast
  have "\<forall>i < 10. length (cons_ready (vcons t i)) + length (cons_line (vcons t i)) \<le> INPUT_BUF"
    using cons_frameD(1) [OF t(4)] by (simp add: consoles_ok_def cons_ok_def)
  with t show ?thesis by (intro exI [of _ t]) (simp add: uartintr_def consoles_def)
qed

theorem console_line_editor_witness:
  "\<exists>s t :: kcons. uart_rx s = [97, 98, 8, 99, 14, 100, 13, 2, 13] \<and> uartintr s = Inr t \<and>
     cons_lists (vcons t 0) = ([97, 99, 10], []) \<and> cons_lists (vcons t 1) = ([100, 10], []) \<and> consa t = 0"
proof -
  define s :: kcons where "s = consoleinit (undefined\<lparr>held := {}, panicked := 0, uart_rx := [97, 98, 8, 99, 14, 100, 13, 2, 13],
    vcons := \<lambda>_. undefined\<lparr>in_buf := replicate INPUT_BUF 0\<rparr>\<rparr>)"
  have s: "consoles_ok s" "\<forall>i < 10. cons_lists (vcons s i) = ([], [])" unfolding s_def by (rule consoleinit_ok; simp)+
  have f: "held (fold (\<lambda>i s. upd_cons i (\<lambda>x. x\<lparr>in_r := 0, in_w := 0, in_e := 0\<rparr>) s) is s0) = held s0"
    "panicked (fold (\<lambda>i s. upd_cons i (\<lambda>x. x\<lparr>in_r := 0, in_w := 0, in_e := 0\<rparr>) s) is s0) = panicked s0"
    "uart_rx (fold (\<lambda>i s. upd_cons i (\<lambda>x. x\<lparr>in_r := 0, in_w := 0, in_e := 0\<rparr>) s) is s0) = uart_rx s0" for "is" and s0 :: kcons
    by (induction "is" arbitrary: s0) (simp_all add: upd_cons_def)
  have k: "panicked s = 0" "held s = {}" "uart_rx s = [97, 98, 8, 99, 14, 100, 13, 2, 13]" "consa s = 0"
    by (simp_all add: s_def consoleinit_def Let_def uartinit_def f)
  from console_line_editor [OF s(1) k(1,2)] obtain t where
    t: "uartintr s = Inr t" "consoles t = fold edit [97, 98, 8, 99, 14, 100, 13, 2, 13] (consoles s)" unfolding k(3) by blast
  have "consoles s = (0, \<lambda>i. cons_lists (vcons s i))" using k(4) by (simp add: consoles_def)
  moreover have "cons_lists (vcons s 0) = ([], [])" "cons_lists (vcons s 1) = ([], [])" using s(2) by simp_all
  ultimately have "consoles t = (0, (\<lambda>i. cons_lists (vcons s i))(1 := ([100, 10], []), 0 := ([97, 99, 10], [])))"
    using t(2) by (simp add: edit_def edit_line_def accepts_def typed_def)
  then have "consa t = 0" "cons_lists (vcons t 0) = ([97, 99, 10], [])" "cons_lists (vcons t 1) = ([100, 10], [])"
    by (auto simp: consoles_def fun_eq_iff)
  with t(1) k(3) show ?thesis by blast
qed

text \<open>Typing ordinary characters, and reading them back.\<close>

lemma fold_edit_typed:
  assumes "set bs \<inter> {0, 2, 4, 8, 10, 13, 14, 16, 21, 127} = {}" "f i = ([], l)" "length l + length bs < INPUT_BUF"
  shows "fold edit bs (i, f) = (i, f(i := ([], l @ bs)))"
  using assms
proof (induction bs arbitrary: f l)
  case Nil
  then show ?case by (simp add: fun_upd_idem)
next
  case (Cons b bs)
  have "edit b (i, f) = (i, f(i := ([], l @ [b])))"
    using Cons.prems by (simp add: edit_def edit_line_def accepts_def typed_def Let_def)
  moreover have "fold edit bs (i, f(i := ([], l @ [b]))) = (i, f(i := ([], (l @ [b]) @ bs)))"
    by (rule trans [OF Cons.IH [of _ "l @ [b]"]]) (use Cons.prems in \<open>auto simp: fun_eq_iff\<close>)
  ultimately show ?case by (simp add: fun_upd_def)
qed

lemma cooked_line:
  assumes "set bs \<inter> {4, 10} = {}" "length bs < n"
  shows "cooked n b (bs @ [10]) = (bs @ [10], [], True)"
  using assms
proof (induction bs arbitrary: n b)
  case Nil
  then show ?case by (cases n) simp_all
next
  case (Cons c bs)
  then show ?case by (cases n) simp_all
qed

lemma sint_pos_nat:
  fixes n :: u32
  assumes "0 \<le> sint n"
  shows "unat n = nat (sint n)" "n = of_nat (nat (sint n))" "unat n < 2 ^ 31"
proof -
  have r: "sint n < 2 ^ 31" using sint_range_size [of n] by (simp add: word_size)
  show e: "n = of_nat (nat (sint n))" using assms by simp
  have "unat (of_nat (nat (sint n)) :: u32) = nat (sint n)" using r by (simp add: unat_of_nat)
  with e show u: "unat n = nat (sint n)" by metis
  show "unat n < 2 ^ 31" using r by (simp add: u)
qed

text \<open>
  C22. Typing and reading is a round trip. The user types ordinary characters and return on a console that holds nothing;
  a process that then reads from this console at least as much as was typed, into memory it owns, gets exactly the
  characters and a newline, the count says so, and the console holds nothing again. The other consoles keep what they have.
\<close>

theorem console_type_read:
  assumes "consoles_ok s" "panicked s = 0" "in_kernel p pt s" "consa s = i" "cons_lists (vcons s i) = ([], [])"
    and "uart_rx s = bs @ [13]" "set bs \<inter> {0, 2, 4, 8, 10, 13, 14, 16, 21, 127} = {}" "length bs < INPUT_BUF"
    and "int (length bs) < sint n" "uload (ram s) pt a (nat (sint n)) \<noteq> None"
  shows "\<exists>t u. uartintr s = Inr t \<and> cread i (User a) n t = Inr (of_nat (Suc (length bs)), u) \<and>
    copyin pt a (Suc (length bs)) u = Inr (0, bs @ [10]) \<and> cons_lists (vcons u i) = ([], []) \<and>
    (\<forall>j. j \<noteq> i \<longrightarrow> cons_lists (vcons u j) = cons_lists (vcons s j))"
proof -
  have h: "held s = {}" "cur s = Some p" "pt = p_pagetable (procs s p)" "pt_wf (ram s) pt" "user_wf (ram s) pt"
    using assms(3) by (auto simp: in_kernel_def running_def)
  let ?f = "\<lambda>j. cons_lists (vcons s j)"
  from uartintr_edit [OF assms(1,2) h(1) lessI] obtain t where t: "uartintr_from (Suc (length (uart_rx s))) s = Inr t"
    "consoles t = fold edit (uart_rx s) (consoles s)" "cons_frame s t" by blast
  have "fold edit bs (i, ?f) = (i, ?f(i := ([], [] @ bs)))" using assms(5,7,8) by (intro fold_edit_typed) simp_all
  then have "consoles t = (i, ?f(i := (bs @ [10], [])))"
    using t(2) assms(4,6,8) by (simp add: consoles_def edit_def edit_line_def accepts_def typed_def Let_def)
  then have ca: "consa t = i" and ft: "\<And>j. cons_lists (vcons t j) = (?f(i := (bs @ [10], []))) j" by (simp_all add: consoles_def fun_eq_iff)
  have i: "i < 10" using assms(1,4) by (simp add: consoles_ok_def)
  let ?k = "nat (sint n)" and ?t = "t\<lparr>held := {LkCons i}\<rparr>"
  have k: "length bs < ?k" using assms(9) by linarith
  note n = sint_pos_nat [of n]
  have ready: "cons_ready (vcons t i) = bs @ [10]" "cons_line (vcons t i) = []" using ft [of i] by (simp_all add: cons_lists_def)
  have "cooked ?k (n < n) (cons_ready (vcons ?t i)) = (bs @ [10], [], True)"
    using assms(7) k ready by (simp add: cooked_line)
  moreover have "cur ?t = Some p" "pt = p_pagetable (procs ?t p)" "pt_wf (ram ?t) pt" "user_wf (ram ?t) pt" "cons_ok (vcons ?t i)"
    "LkCons i \<in> held ?t" "uload (ram ?t) pt a ?k \<noteq> None" "n = of_nat ?k" "?k \<le> unat n" "unat n < 2 ^ 31" "?k < Suc ?k"
    using h t(3) i assms(9,10) n by (simp_all add: cons_frame_def consoles_ok_def)
  ultimately obtain m y where
    r: "consoleread_from (Suc ?k) i (User a) n n ?t =
      read_result i a n n (length (bs @ [10])) True (p_killed (procs ?t p) \<noteq> 0) (?t\<lparr>vcons := (vcons ?t)(i := y), ram := m\<rparr>)"
    and y: "cons_lists y = ([], cons_line (vcons ?t i))" and ku: "keeps_user pt ?t (?t\<lparr>ram := m\<rparr>)"
    and um: "\<forall>v. umem m pt v = (if unat (v - a) < length (bs @ [10]) then Some ((bs @ [10]) ! unat (v - a)) else umem (ram ?t) pt v)"
    using consoleread_from_spec [of ?t p pt i a ?k n n "Suc ?k" "bs @ [10]" "[]" True] by blast
  let ?u = "t\<lparr>vcons := (vcons t)(i := y), ram := m\<rparr>"
  have ht: "held t = {}" using t(3) by (rule cons_frameD)
  then have "acquire (LkCons i) t = Inr ?t" by (simp add: acquire_def)
  then have "cread i (User a) n t = Inr (of_nat (Suc (length bs)), ?u)"
    using r ht by (simp add: cread_def consoleread_def read_result_def del: consoleread_from.simps)
  moreover have "uload m pt a (length (bs @ [10])) = Some (bs @ [10])"
  proof (rule uload_run)
    fix j
    assume "j < length (bs @ [10])"
    then show "umem m pt (a + of_nat j) = Some ((bs @ [10]) ! j)" using um assms(8) by (simp add: unat_of_nat)
  qed
  then have "copyin pt a (Suc (length bs)) ?u = Inr (0, bs @ [10])"
    using copyin_uload [of ?u pt a "Suc (length bs)"] ku by (auto simp: keeps_user_def)
  moreover have "cons_lists (vcons ?u i) = ([], [])" "\<forall>j. j \<noteq> i \<longrightarrow> cons_lists (vcons ?u j) = cons_lists (vcons s j)"
    using y ready(2) ft by simp_all
  moreover have "uartintr s = Inr t" using t(1) by (simp add: uartintr_def)
  ultimately show ?thesis by blast
qed

text \<open>A process with one user page at 0x5000, all consoles empty, and two characters and return in the UART.\<close>

lemma console_example:
  "\<exists>s :: kcons. consoles_ok s \<and> panicked s = 0 \<and> in_kernel 0 0x80030000 s \<and> consa s = 0 \<and> (\<forall>i < 10. cons_lists (vcons s i) = ([], [])) \<and>
     uart_rx s = [104, 105] @ [13] \<and> (\<forall>v. uaddr (ram s) 0x80030000 v = (if page_idx v = 5 then 0x80033000 else 0))"
proof -
  from vm_example_mapped obtain m :: kmem where m: "pt_wf (ram m) 0x80030000" "user_wf (ram m) 0x80030000"
    "\<And>v. uaddr (ram m) 0x80030000 v = (if page_idx v = 5 then 0x80033000 else 0)" by blast
  let ?s = "(undefined :: kcons)\<lparr>held := {}, ram := ram m, cur := Some 0, procs := \<lambda>_. undefined\<lparr>p_pagetable := 0x80030000\<rparr>,
    panicked := 0, uart_rx := [104, 105, 13], consa := 0, active := 0,
    vcons := \<lambda>_. \<lparr>in_buf = replicate INPUT_BUF 0, in_r = 0, in_w = 0, in_e = 0\<rparr>\<rparr>"
  show ?thesis
    by (rule exI [of _ ?s])
      (use m in \<open>simp add: in_kernel_def running_def consoles_ok_def cons_ok_def cons_lists_def cons_ready_def cons_line_def\<close>)
qed

theorem console_type_read_witness:
  "\<exists>s t u :: kcons. uart_rx s = [104, 105, 13] \<and> uartintr s = Inr t \<and> cread 0 (User 0x5FF0) 4 t = Inr (3, u) \<and>
     copyin 0x80030000 0x5FF0 3 u = Inr (0, [104, 105, 10])"
proof -
  from console_example obtain s :: kcons where s: "consoles_ok s" "panicked s = 0" "in_kernel 0 0x80030000 s" "consa s = 0"
    "\<forall>i < 10. cons_lists (vcons s i) = ([], [])" "uart_rx s = [104, 105] @ [13]"
    "\<forall>v. uaddr (ram s) 0x80030000 v = (if page_idx v = 5 then 0x80033000 else 0)" by blast
  have "uload (ram s) 0x80030000 0x5FF0 (Suc (Suc (Suc (Suc 0)))) \<noteq> None" using s(7) by (simp add: umem_def page_idx_def)
  then have "uload (ram s) 0x80030000 0x5FF0 (nat (sint (4 :: u32))) \<noteq> None" by (simp add: numeral_eq_Suc)
  with console_type_read [OF s(1-4) _ s(6), where n = 4 and a = "0x5FF0"] s(5) obtain t u where
    "uartintr s = Inr t" "cread 0 (User 0x5FF0) 4 t = Inr (3, u)" "copyin 0x80030000 0x5FF0 (Suc (Suc (Suc 0))) u = Inr (0, [104, 105, 10])"
    by auto
  with s(6) show ?thesis by (intro exI [of _ s] exI [of _ t] exI [of _ u]) (simp add: numeral_3_eq_3)
qed

text \<open>Writing.\<close>

lemma consolewrite_from_eq:
  assumes "cur s = Some p" "pt = p_pagetable (procs s p)" "pt_wf (ram s) pt" "panicked s = 0"
  shows "consolewrite_from i (User a) n s = Inr (s\<lparr>uart_tx := uart_tx s @ (if i = consa s then uprefix (ram s) pt a n else [])\<rparr>)"
  using assms
proof (induction n arbitrary: a s)
  case 0
  then show ?case by simp
next
  case (Suc n)
  obtain cs where c: "copyin pt a 1 s = Inr (case umem (ram s) pt a of None \<Rightarrow> (-1, cs) | Some b \<Rightarrow> (0, [b]))"
    using copyin_1 [OF Suc.prems(3)] by blast
  have g: "get_from (User a) 1 s = bnd (copyin pt a 1 s) (\<lambda>(r, data). Inr (r, data, User (a + 1)))"
    using Suc.prems(1,2) by (simp add: get_from_def either_copyin_def myproc_def)
  show ?case
  proof (cases "umem (ram s) pt a")
    case None
    then show ?thesis using c g by simp
  next
    case (Some b)
    let ?s = "s\<lparr>uart_tx := uart_tx s @ (if i = consa s then [b] else [])\<rparr>"
    have "(if i = consa s then consputc (ucast b) s else Inr s) = Inr ?s"
      using Suc.prems(4) by (simp add: consputc_eq ucast_key)
    then have "consolewrite_from i (User a) (Suc n) s = consolewrite_from i (User (a + 1)) n ?s"
      using c g Some by (cases "i = consa s") simp_all
    also have "\<dots> = Inr (?s\<lparr>uart_tx := uart_tx ?s @ (if i = consa ?s then uprefix (ram ?s) pt (a + 1) n else [])\<rparr>)"
      by (rule Suc.IH) (use Suc.prems in simp_all)
    finally show ?thesis using Some by simp
  qed
qed

text \<open>
  C23. Virtual consoles are separate. A write to a console goes to the screen exactly if the console is the active one, byte by byte in
  order up to the first byte the writer's memory does not have; to any other console it leaves no trace. Either way it
  returns the count it was given and changes nothing else. A read from one console never takes from another.
\<close>

theorem console_separation:
  assumes "in_kernel p pt s" "panicked s = 0"
  shows "consolewrite i (User a) n s =
      Inr (n, s\<lparr>uart_tx := uart_tx s @ (if i = consa s then uprefix (ram s) pt a (nat (sint n)) else [])\<rparr>) \<and>
    (consoles_ok s \<and> i < 10 \<and> 0 \<le> sint n \<and> uload (ram s) pt a (nat (sint n)) \<noteq> None \<longrightarrow>
      (\<exists>out t. consoleread i (User a) n s = Inr (out, t) \<and> (\<forall>j. j \<noteq> i \<longrightarrow> vcons t j = vcons s j) \<and> uart_tx t = uart_tx s))"
proof -
  have h: "held s = {}" "cur s = Some p" "pt = p_pagetable (procs s p)" "pt_wf (ram s) pt" "user_wf (ram s) pt"
    using assms(1) by (auto simp: in_kernel_def running_def)
  let ?s = "s\<lparr>held := {LkCons i}\<rparr>" and ?k = "nat (sint n)"
  have acq: "acquire (LkCons i) s = Inr ?s" using h(1) by (simp add: acquire_def)
  have "consolewrite_from i (User a) ?k ?s =
      Inr (?s\<lparr>uart_tx := uart_tx ?s @ (if i = consa ?s then uprefix (ram ?s) pt a ?k else [])\<rparr>)"
    by (rule consolewrite_from_eq) (use h assms(2) in simp_all)
  then have w: "consolewrite i (User a) n s =
      Inr (n, s\<lparr>uart_tx := uart_tx s @ (if i = consa s then uprefix (ram s) pt a ?k else [])\<rparr>)"
    using acq h(1) by (simp add: consolewrite_def release_def)
  have "\<exists>out t. consoleread i (User a) n s = Inr (out, t) \<and> (\<forall>j. j \<noteq> i \<longrightarrow> vcons t j = vcons s j) \<and> uart_tx t = uart_tx s"
    if r: "consoles_ok s" "i < 10" "0 \<le> sint n" "uload (ram s) pt a ?k \<noteq> None"
  proof -
    note n = sint_pos_nat [OF r(3)]
    obtain d rst fin where "cooked ?k (n < n) (cons_ready (vcons ?s i)) = (d, rst, fin)" by (metis prod_cases3)
    moreover have "cur ?s = Some p" "pt = p_pagetable (procs ?s p)" "pt_wf (ram ?s) pt" "user_wf (ram ?s) pt" "cons_ok (vcons ?s i)"
      "LkCons i \<in> held ?s" "uload (ram ?s) pt a ?k \<noteq> None" "n = of_nat ?k" "?k \<le> unat n" "unat n < 2 ^ 31" "?k < Suc ?k"
      using h r n by (simp_all add: consoles_ok_def)
    ultimately obtain m y where
      "consoleread_from (Suc ?k) i (User a) n n ?s =
        read_result i a n n (length d) fin (p_killed (procs ?s p) \<noteq> 0) (?s\<lparr>vcons := (vcons ?s)(i := y), ram := m\<rparr>)"
      using consoleread_from_spec [of ?s p pt i a ?k n n "Suc ?k" d rst fin] by blast
    then show ?thesis using acq by (simp add: consoleread_def read_result_def del: consoleread_from.simps)
  qed
  with w show ?thesis by blast
qed

theorem console_separation_witness:
  "\<exists>s :: kcons. consa s = 0 \<and> consolewrite 1 (User 0x5FF0) 2 s = Inr (2, s) \<and>
     (\<exists>b c. consolewrite 0 (User 0x5FF0) 2 s = Inr (2, s\<lparr>uart_tx := uart_tx s @ [b, c]\<rparr>))"
proof -
  from console_example obtain s :: kcons where s: "panicked s = 0" "in_kernel 0 0x80030000 s" "consa s = 0"
    "\<forall>v. uaddr (ram s) 0x80030000 v = (if page_idx v = 5 then 0x80033000 else 0)" by blast
  have "\<exists>b c. uprefix (ram s) 0x80030000 0x5FF0 (Suc (Suc 0)) = [b, c]" using s(4) by (simp add: umem_def page_idx_def)
  then obtain b c where bc: "uprefix (ram s) 0x80030000 0x5FF0 2 = [b, c]" by (auto simp only: numeral_2_eq_2)
  have "consolewrite 1 (User 0x5FF0) 2 s = Inr (2, s)"
    using conjunct1 [OF console_separation [OF s(2,1), of 1 "0x5FF0" 2]] s(3) by simp
  moreover have "consolewrite 0 (User 0x5FF0) 2 s = Inr (2, s\<lparr>uart_tx := uart_tx s @ [b, c]\<rparr>)"
    using conjunct1 [OF console_separation [OF s(2,1), of 0 "0x5FF0" 2]] s(3) bc by simp
  ultimately show ?thesis using s(3) by blast
qed

end
