(* ===== verification/Ulib.thy ===== *)
theory Ulib
  imports Cstring
begin

unbundle bit_operations_syntax

text \<open>
  The user library: user/ulib.c and user/printf.c, and the small programs cat, echo, wc, kill, rm, mkdir, ln, ps and ls. A C string is the
  list of its bytes before the NUL. A program runs against an operating system \<open>os\<close>, a record of the system calls it makes as
  functions on a world of type \<open>'w\<close>; \<open>read\<close> returns the bytes it stored, or nothing for a negative result.
\<close>

section \<open>System calls\<close>

record ustat =
  us_type :: u16
  us_ino :: u32
  us_size :: u64

record 'w os =
  os_read :: "u32 \<Rightarrow> nat \<Rightarrow> 'w \<Rightarrow> u8 list option \<times> 'w"
  os_write :: "u32 \<Rightarrow> u8 list \<Rightarrow> 'w \<Rightarrow> u32 \<times> 'w"
  os_open :: "u8 list \<Rightarrow> u32 \<Rightarrow> 'w \<Rightarrow> u32 \<times> 'w"
  os_close :: "u32 \<Rightarrow> 'w \<Rightarrow> 'w"
  os_fstat :: "u32 \<Rightarrow> 'w \<Rightarrow> ustat option \<times> 'w"
  os_kill :: "u32 \<Rightarrow> 'w \<Rightarrow> 'w"
  os_unlink :: "u8 list \<Rightarrow> 'w \<Rightarrow> u32 \<times> 'w"
  os_mkdir :: "u8 list \<Rightarrow> 'w \<Rightarrow> u32 \<times> 'w"
  os_link :: "u8 list \<Rightarrow> u8 list \<Rightarrow> 'w \<Rightarrow> u32 \<times> 'w"
  os_ps :: "'w \<Rightarrow> (u32 \<times> u32 \<times> u8 list) list \<times> 'w"

definition str :: "string \<Rightarrow> u8 list" where
  "str cs = map of_char cs"

abbreviation (input) O_RDONLY :: u32 where "O_RDONLY \<equiv> 0"
abbreviation (input) O_WRONLY :: u32 where "O_WRONLY \<equiv> 1"
abbreviation (input) O_RDWR :: u32 where "O_RDWR \<equiv> 2"
abbreviation (input) O_CREATE :: u32 where "O_CREATE \<equiv> 0x200"

text \<open>A program returns from a routine with \<open>Inr\<close>, or ends with \<open>exit\<close>: \<open>Inl\<close> with the status.\<close>

type_synonym 'w run = "(u32 \<times> 'w) + 'w"

section \<open>ulib.c\<close>

partial_function (option) strcpy :: "mem \<Rightarrow> u64 \<Rightarrow> u64 \<Rightarrow> mem option" where
  "strcpy m s t = (let m' = m(s := m t) in if m t \<noteq> 0 then strcpy m' (s + 1) (t + 1) else Some m')"

fun strcmp :: "u8 list \<Rightarrow> u8 list \<Rightarrow> int" where
  "strcmp (a # p) (b # q) = (if a = b then strcmp p q else uint a - uint b)"
| "strcmp (a # p) [] = uint a"
| "strcmp [] (b # q) = - uint b"
| "strcmp [] [] = 0"

definition strlen_u :: "u8 list \<Rightarrow> u32" where
  "strlen_u s = of_nat (length s)"

definition memset_u :: "mem \<Rightarrow> u64 \<Rightarrow> u8 \<Rightarrow> nat \<Rightarrow> mem" where
  "memset_u m dst c n = fold (\<lambda>i m. m(dst + of_nat i := c)) [0..<n] m"

text \<open>The offset of the first \<open>c\<close>, or nothing.\<close>

fun strchr :: "u8 list \<Rightarrow> u8 \<Rightarrow> nat option" where
  "strchr [] c = None"
| "strchr (a # s) c = (if a = c then Some 0 else map_option Suc (strchr s c))"

text \<open>\<open>gets\<close>: \<open>k\<close> is how many bytes still fit before the NUL.\<close>

fun gets_from :: "'w os \<Rightarrow> nat \<Rightarrow> u8 list \<Rightarrow> 'w \<Rightarrow> u8 list \<times> 'w" where
  "gets_from os 0 acc w = (acc, w)"
| "gets_from os (Suc k) acc w =
     (case os_read os 0 1 w of
        (Some (c # _), w) \<Rightarrow> if c = 10 \<or> c = 13 then (acc @ [c], w) else gets_from os k (acc @ [c]) w
      | (_, w) \<Rightarrow> (acc, w))"

definition gets :: "'w os \<Rightarrow> nat \<Rightarrow> 'w \<Rightarrow> u8 list \<times> 'w" where
  "gets os n w = gets_from os (n - 1) [] w"

definition stat_u :: "'w os \<Rightarrow> u8 list \<Rightarrow> 'w \<Rightarrow> ustat option \<times> 'w" where
  "stat_u os n w =
     (case os_open os n O_RDONLY w of (fd, w) \<Rightarrow>
      if sint fd < 0 then (None, w)
      else case os_fstat os fd w of (r, w) \<Rightarrow> (r, os_close os fd w))"

fun atoi_from :: "u32 \<Rightarrow> u8 list \<Rightarrow> u32" where
  "atoi_from n [] = n"
| "atoi_from n (c # s) = (if 48 \<le> c \<and> c \<le> 57 then atoi_from (n * 10 + ucast c - 48) s else n)"

definition atoi :: "u8 list \<Rightarrow> u32" where
  "atoi s = atoi_from 0 s"

definition memmove_u :: "mem \<Rightarrow> u64 \<Rightarrow> u64 \<Rightarrow> int \<Rightarrow> mem" where
  "memmove_u m dst src n = fold (\<lambda>i m. m(dst + of_nat i := m (src + of_nat i))) [0..<nat n] m"

section \<open>printf.c\<close>

definition putc :: "'w os \<Rightarrow> u32 \<Rightarrow> u8 \<Rightarrow> 'w \<Rightarrow> 'w" where
  "putc os fd c w = snd (os_write os fd [c] w)"

definition udigits :: "u8 list" where
  "udigits = str ''0123456789ABCDEF''"

text \<open>The do-while loop of \<open>printint\<close>: the digits, the least significant first.\<close>

function printint_loop :: "nat \<Rightarrow> nat \<Rightarrow> u8 list" where
  "printint_loop base x =
     udigits ! (x mod base) # (if base \<le> 1 \<or> x div base = 0 then [] else printint_loop base (x div base))"
  by pat_completeness auto
termination
  by (relation "measure (\<lambda>(base, x). x)") (auto simp: div_less_dividend div_eq_0_iff)

declare printint_loop.simps [simp del]

definition printint_u :: "u32 \<Rightarrow> nat \<Rightarrow> bool \<Rightarrow> u8 list" where
  "printint_u xx base sn =
     (let neg = sn \<and> sint xx < 0;
          x = (if neg then - xx else xx);
          buf = printint_loop base (unat x) @ (if neg then [45] else [])
      in rev buf)"

definition printptr_u :: "u64 \<Rightarrow> u8 list" where
  "printptr_u x = str ''0x'' @ map (\<lambda>i. udigits ! unat (drop_bit 60 (push_bit (4 * i) x))) [0..<16]"

text \<open>
  The arguments of a variadic call: numbers as 64-bit words, strings, where \<open>None\<close> is the null pointer. An argument that is missing or of
  the wrong kind has no defined meaning; the result is then \<open>None\<close>.
\<close>

datatype uarg = Num u64 | Str "u8 list option"

definition va_num :: "uarg list \<Rightarrow> (u64 \<times> uarg list) option" where
  "va_num args = (case args of Num x # as \<Rightarrow> Some (x, as) | _ \<Rightarrow> None)"

definition va_str :: "uarg list \<Rightarrow> (u8 list option \<times> uarg list) option" where
  "va_str args = (case args of Str x # as \<Rightarrow> Some (x, as) | _ \<Rightarrow> None)"

definition conversion :: "u8 \<Rightarrow> uarg list \<Rightarrow> (u8 list \<times> uarg list) option" where
  "conversion c args =
     (if c = 100 then map_option (\<lambda>(x, as). (printint_u (ucast x) 10 True, as)) (va_num args)
      else if c = 108 then map_option (\<lambda>(x, as). (printint_u (ucast x) 10 False, as)) (va_num args)
      else if c = 120 then map_option (\<lambda>(x, as). (printint_u (ucast x) 16 False, as)) (va_num args)
      else if c = 112 then map_option (\<lambda>(x, as). (printptr_u x, as)) (va_num args)
      else if c = 115 then map_option (\<lambda>(x, as). (case x of None \<Rightarrow> str ''(null)'' | Some s \<Rightarrow> s, as)) (va_str args)
      else if c = 99 then map_option (\<lambda>(x, as). ([ucast x], as)) (va_num args)
      else if c = 37 then Some ([c], args)
      else Some ([37, c], args))"

fun vprintf :: "bool \<Rightarrow> u8 list \<Rightarrow> uarg list \<Rightarrow> u8 list option" where
  "vprintf state [] args = Some []"
| "vprintf False (c # fmt) args =
     (if c = 37 then vprintf True fmt args else map_option (Cons c) (vprintf False fmt args))"
| "vprintf True (c # fmt) args =
     (case conversion c args of
        None \<Rightarrow> None
      | Some (out, args) \<Rightarrow> map_option (append out) (vprintf False fmt args))"

definition fprintf :: "'w os \<Rightarrow> u32 \<Rightarrow> u8 list \<Rightarrow> uarg list \<Rightarrow> 'w \<Rightarrow> 'w option" where
  "fprintf os fd fmt args w = map_option (\<lambda>out. fold (putc os fd) out w) (vprintf False fmt args)"

definition printf_u :: "'w os \<Rightarrow> u8 list \<Rightarrow> uarg list \<Rightarrow> 'w \<Rightarrow> 'w option" where
  "printf_u os fmt args w = fprintf os 1 fmt args w"

text \<open>Printing a fixed text, whose format has no conversion, and leaving.\<close>

definition say :: "'w os \<Rightarrow> u32 \<Rightarrow> string \<Rightarrow> uarg list \<Rightarrow> 'w \<Rightarrow> ('w \<Rightarrow> 'r option) \<Rightarrow> 'r option" where
  "say os fd fmt args w k = (case fprintf os fd (str fmt) args w of None \<Rightarrow> None | Some w \<Rightarrow> k w)"

section \<open>Programs\<close>

partial_function (option) cat :: "'w os \<Rightarrow> u32 \<Rightarrow> 'w \<Rightarrow> 'w run option" where
  "cat os fd w =
     (case os_read os fd 512 w of (r, w) \<Rightarrow>
      (case r of
         None \<Rightarrow> say os 1 ''cat: read error\<newline>'' [] w (\<lambda>w. Some (Inl (1, w)))
       | Some bs \<Rightarrow>
           if bs = [] then Some (Inr w)
           else case os_write os 1 bs w of (n, w) \<Rightarrow>
             if n \<noteq> of_nat (length bs) then say os 1 ''cat: write error\<newline>'' [] w (\<lambda>w. Some (Inl (1, w)))
             else cat os fd w))"

fun cat_files :: "'w os \<Rightarrow> u8 list list \<Rightarrow> 'w \<Rightarrow> 'w run option" where
  "cat_files os [] w = Some (Inl (0, w))"
| "cat_files os (f # fs) w =
     (case os_open os f 0 w of (fd, w) \<Rightarrow>
      if sint fd < 0 then say os 1 ''cat: cannot open %s\<newline>'' [Str (Some f)] w (\<lambda>w. Some (Inl (1, w)))
      else case cat os fd w of
          None \<Rightarrow> None
        | Some (Inl r) \<Rightarrow> Some (Inl r)
        | Some (Inr w) \<Rightarrow> cat_files os fs (os_close os fd w))"

text \<open>\<open>argv\<close> is the list of all arguments, the program's name first.\<close>

definition main_cat :: "'w os \<Rightarrow> u8 list list \<Rightarrow> 'w \<Rightarrow> 'w run option" where
  "main_cat os argv w =
     (if length argv \<le> 1 then
        case cat os 0 w of None \<Rightarrow> None | Some (Inl r) \<Rightarrow> Some (Inl r) | Some (Inr w) \<Rightarrow> Some (Inl (1, w))
      else cat_files os (tl argv) w)"

fun echo_args :: "'w os \<Rightarrow> u8 list list \<Rightarrow> 'w \<Rightarrow> 'w" where
  "echo_args os [] w = w"
| "echo_args os [a] w = snd (os_write os 1 [10] (snd (os_write os 1 a w)))"
| "echo_args os (a # b # as) w = echo_args os (b # as) (snd (os_write os 1 [32] (snd (os_write os 1 a w))))"

definition main_echo :: "'w os \<Rightarrow> u8 list list \<Rightarrow> 'w \<Rightarrow> 'w run" where
  "main_echo os argv w = Inl (0, echo_args os (tl argv) w)"

text \<open>\<open>wc\<close>: lines, words, bytes, and whether the last byte was inside a word.\<close>

definition wc_byte :: "u8 \<Rightarrow> u32 \<times> u32 \<times> u32 \<times> bool \<Rightarrow> u32 \<times> u32 \<times> u32 \<times> bool" where
  "wc_byte b st = (case st of (l, w, c, inword) \<Rightarrow>
     let c = c + 1;
         l = (if b = 10 then l + 1 else l)
     in if strchr [32, 13, 9, 10, 11] b \<noteq> None then (l, w, c, False)
        else if \<not> inword then (l, w + 1, c, True)
        else (l, w, c, inword))"

partial_function (option) wc_loop :: "'w os \<Rightarrow> u32 \<Rightarrow> u32 \<times> u32 \<times> u32 \<times> bool \<Rightarrow> 'w \<Rightarrow> ((u32 \<times> u32 \<times> u32) option \<times> 'w) option" where
  "wc_loop os fd st w =
     (case os_read os fd 512 w of (r, w) \<Rightarrow>
      (case r of
         None \<Rightarrow> Some (None, w)
       | Some bs \<Rightarrow>
           if bs = [] then Some (case st of (l, wd, c, _) \<Rightarrow> Some (l, wd, c), w)
           else wc_loop os fd (fold wc_byte bs st) w))"

definition wc :: "'w os \<Rightarrow> u32 \<Rightarrow> u8 list \<Rightarrow> 'w \<Rightarrow> 'w run option" where
  "wc os fd name w =
     (case wc_loop os fd (0, 0, 0, False) w of
        None \<Rightarrow> None
      | Some (None, w) \<Rightarrow> say os 1 ''wc: read error\<newline>'' [] w (\<lambda>w. Some (Inl (1, w)))
      | Some (Some (l, wd, c), w) \<Rightarrow>
          say os 1 ''%d %d %d %s\<newline>'' [Num (ucast l), Num (ucast wd), Num (ucast c), Str (Some name)] w (\<lambda>w. Some (Inr w)))"

fun wc_files :: "'w os \<Rightarrow> u8 list list \<Rightarrow> 'w \<Rightarrow> 'w run option" where
  "wc_files os [] w = Some (Inl (0, w))"
| "wc_files os (f # fs) w =
     (case os_open os f 0 w of (fd, w) \<Rightarrow>
      if sint fd < 0 then say os 1 ''wc: cannot open %s\<newline>'' [Str (Some f)] w (\<lambda>w. Some (Inl (1, w)))
      else case wc os fd f w of
          None \<Rightarrow> None
        | Some (Inl r) \<Rightarrow> Some (Inl r)
        | Some (Inr w) \<Rightarrow> wc_files os fs (os_close os fd w))"

definition main_wc :: "'w os \<Rightarrow> u8 list list \<Rightarrow> 'w \<Rightarrow> 'w run option" where
  "main_wc os argv w =
     (if length argv \<le> 1 then
        case wc os 0 [] w of None \<Rightarrow> None | Some (Inl r) \<Rightarrow> Some (Inl r) | Some (Inr w) \<Rightarrow> Some (Inl (0, w))
      else wc_files os (tl argv) w)"

definition main_kill :: "'w os \<Rightarrow> u8 list list \<Rightarrow> 'w \<Rightarrow> 'w run option" where
  "main_kill os argv w =
     (if length argv < 2 then say os 2 ''usage: kill pid...\<newline>'' [] w (\<lambda>w. Some (Inl (1, w)))
      else Some (Inl (0, fold (\<lambda>a. os_kill os (atoi a)) (tl argv) w)))"

fun rm_files :: "'w os \<Rightarrow> u8 list list \<Rightarrow> 'w \<Rightarrow> 'w run option" where
  "rm_files os [] w = Some (Inl (0, w))"
| "rm_files os (f # fs) w =
     (case os_unlink os f w of (r, w) \<Rightarrow>
      if sint r < 0 then say os 2 ''rm: %s failed to delete\<newline>'' [Str (Some f)] w (\<lambda>w. Some (Inl (0, w)))
      else rm_files os fs w)"

definition main_rm :: "'w os \<Rightarrow> u8 list list \<Rightarrow> 'w \<Rightarrow> 'w run option" where
  "main_rm os argv w =
     (if length argv < 2 then say os 2 ''Usage: rm files...\<newline>'' [] w (\<lambda>w. Some (Inl (1, w))) else rm_files os (tl argv) w)"

fun mkdir_files :: "'w os \<Rightarrow> u8 list list \<Rightarrow> 'w \<Rightarrow> 'w run option" where
  "mkdir_files os [] w = Some (Inl (0, w))"
| "mkdir_files os (f # fs) w =
     (case os_mkdir os f w of (r, w) \<Rightarrow>
      if sint r < 0 then say os 2 ''mkdir: %s failed to create\<newline>'' [Str (Some f)] w (\<lambda>w. Some (Inl (0, w)))
      else mkdir_files os fs w)"

definition main_mkdir :: "'w os \<Rightarrow> u8 list list \<Rightarrow> 'w \<Rightarrow> 'w run option" where
  "main_mkdir os argv w =
     (if length argv < 2 then say os 2 ''Usage: mkdir files...\<newline>'' [] w (\<lambda>w. Some (Inl (1, w))) else mkdir_files os (tl argv) w)"

definition main_ln :: "'w os \<Rightarrow> u8 list list \<Rightarrow> 'w \<Rightarrow> 'w run option" where
  "main_ln os argv w =
     (if length argv \<noteq> 3 then say os 2 ''Usage: ln old new\<newline>'' [] w (\<lambda>w. Some (Inl (1, w)))
      else case os_link os (argv ! 1) (argv ! 2) w of (r, w) \<Rightarrow>
        if sint r < 0 then say os 2 ''link %s %s: failed\<newline>'' [Str (Some (argv ! 1)), Str (Some (argv ! 2))] w (\<lambda>w. Some (Inl (0, w)))
        else Some (Inl (0, w)))"

fun ps_lines :: "'w os \<Rightarrow> (u32 \<times> u32 \<times> u8 list) list \<Rightarrow> 'w \<Rightarrow> 'w run option" where
  "ps_lines os [] w = Some (Inl (0, w))"
| "ps_lines os ((pid, sz, name) # ps) w =
     say os 1 ''%d | %d | %s\<newline>'' [Num (ucast pid), Num (ucast sz), Str (Some name)] w (ps_lines os ps)"

definition main_ps :: "'w os \<Rightarrow> 'w \<Rightarrow> 'w run option" where
  "main_ps os w = (case os_ps os w of (pi, w) \<Rightarrow> say os 1 ''PID  Size    Name\<newline>'' [] w (ps_lines os pi))"

text \<open>\<open>ls\<close>: the part of a path after its last slash, padded with blanks to \<open>DIRSIZ\<close>.\<close>

definition fmtname :: "u8 list \<Rightarrow> u8 list" where
  "fmtname path =
     (let p = rev (takeWhile (\<lambda>c. c \<noteq> 47) (rev path)) in
      if 14 \<le> length p then p else p @ replicate (14 - length p) 32)"

partial_function (option) ls_entries :: "'w os \<Rightarrow> u8 list \<Rightarrow> u32 \<Rightarrow> 'w \<Rightarrow> 'w option" where
  "ls_entries os path fd w =
     (case os_read os fd 16 w of (r, w) \<Rightarrow>
      (case r of
         None \<Rightarrow> Some w
       | Some de \<Rightarrow>
           if length de \<noteq> 16 then Some w
           else if de ! 0 = 0 \<and> de ! 1 = 0 then ls_entries os path fd w
           else
             let buf = path @ [47] @ takeWhile (\<lambda>c. c \<noteq> 0) (drop 2 de) in
             case stat_u os buf w of (st, w) \<Rightarrow>
               (case st of
                  None \<Rightarrow>
                    (case fprintf os 1 (str ''ls: cannot stat %s\<newline>'') [Str (Some buf)] w of
                       None \<Rightarrow> None | Some w \<Rightarrow> ls_entries os path fd w)
                | Some st \<Rightarrow>
                    (case fprintf os 1 (str ''%s %d %d %d\<newline>'')
                            [Str (Some (fmtname buf)), Num (scast (us_type st)), Num (ucast (us_ino st)), Num (us_size st)] w of
                       None \<Rightarrow> None | Some w \<Rightarrow> ls_entries os path fd w))))"

definition ls :: "'w os \<Rightarrow> u8 list \<Rightarrow> 'w \<Rightarrow> 'w option" where
  "ls os path w =
     (case os_open os path 0 w of (fd, w) \<Rightarrow>
      if sint fd < 0 then say os 2 ''ls: cannot open %s\<newline>'' [Str (Some path)] w Some
      else case os_fstat os fd w of (st, w) \<Rightarrow>
        (case st of
           None \<Rightarrow> say os 2 ''ls: cannot stat %s\<newline>'' [Str (Some path)] w (\<lambda>w. Some (os_close os fd w))
         | Some st \<Rightarrow>
             if us_type st = 2 then
               say os 1 ''%s %d %d %l\<newline>''
                 [Str (Some (fmtname path)), Num (scast (us_type st)), Num (ucast (us_ino st)), Num (us_size st)] w
                 (\<lambda>w. Some (os_close os fd w))
             else if us_type st = 1 then
               if length path + 1 + 14 + 1 > 512 then say os 1 ''ls: path too long\<newline>'' [] w (\<lambda>w. Some (os_close os fd w))
               else map_option (os_close os fd) (ls_entries os path fd w)
             else Some (os_close os fd w)))"

fun ls_files :: "'w os \<Rightarrow> u8 list list \<Rightarrow> 'w \<Rightarrow> 'w run option" where
  "ls_files os [] w = Some (Inl (0, w))"
| "ls_files os (f # fs) w = (case ls os f w of None \<Rightarrow> None | Some w \<Rightarrow> ls_files os fs w)"

definition main_ls :: "'w os \<Rightarrow> u8 list list \<Rightarrow> 'w \<Rightarrow> 'w run option" where
  "main_ls os argv w =
     (if length argv < 2 then ls_files os [str ''.''] w else ls_files os (tl argv) w)"

section \<open>Numbers\<close>

text \<open>What \<open>printint\<close> prints \<open>atoi\<close> reads back.\<close>

lemma udigits_nth: "d < 10 \<Longrightarrow> udigits ! d = of_nat (48 + d)"
  by (auto simp: udigits_def str_def less_Suc_eq numeral_eq_Suc)

lemma digit_bounds:
  assumes "d < 10"
  shows "(48 :: u8) \<le> of_nat (48 + d) \<and> of_nat (48 + d) \<le> (57 :: u8) \<and> (ucast (of_nat (48 + d) :: u8) :: u32) = of_nat (48 + d)"
proof -
  have "unat (of_nat (48 + d) :: u8) = 48 + d"
    using assms by (simp add: unat_of_nat del: of_nat_add)
  then show ?thesis
    using assms by (simp add: word_le_nat_alt word_unat_eq_iff unat_of_nat unsigned_ucast_eq take_bit_nat_eq_self del: of_nat_add)
qed

lemma atoi_from_append:
  "(\<And>c. c \<in> set xs \<Longrightarrow> 48 \<le> c \<and> c \<le> 57) \<Longrightarrow> atoi_from n (xs @ ys) = atoi_from (atoi_from n xs) ys"
  by (induction n xs rule: atoi_from.induct) auto

lemma printint_loop_digits: "c \<in> set (printint_loop 10 x) \<Longrightarrow> 48 \<le> c \<and> c \<le> 57"
proof (induction x rule: less_induct)
  case (less x)
  have digit: "48 \<le> udigits ! (x mod 10) \<and> udigits ! (x mod 10) \<le> 57"
    using digit_bounds [of "x mod 10"] udigits_nth [of "x mod 10"] by (simp del: of_nat_add)
  from less.prems consider "c = udigits ! (x mod 10)" | "x div 10 \<noteq> 0" "c \<in> set (printint_loop 10 (x div 10))"
    by (subst (asm) printint_loop.simps) (auto split: if_splits)
  then show ?case
    using digit less.IH [of "x div 10"] by cases auto
qed

lemma atoi_printint_loop: "atoi_from 0 (rev (printint_loop 10 x)) = of_nat x"
proof (induction x rule: less_induct)
  case (less x)
  have digit: "atoi_from n [udigits ! (x mod 10)] = n * 10 + of_nat (x mod 10)" for n
    using digit_bounds [of "x mod 10"] udigits_nth [of "x mod 10"] by simp
  show ?case
  proof (cases "x div 10 = 0")
    case True
    then show ?thesis
      using digit [of 0] by (subst printint_loop.simps) simp
  next
    case False
    then have "atoi_from 0 (rev (printint_loop 10 (x div 10))) = of_nat (x div 10)"
      by (intro less.IH) (auto simp: div_eq_0_iff)
    moreover have "printint_loop 10 x = udigits ! (x mod 10) # printint_loop 10 (x div 10)"
      using False by (subst printint_loop.simps) simp
    moreover have "of_nat x = (of_nat (x div 10) * 10 + of_nat (x mod 10) :: u32)"
      by (metis div_mult_mod_eq of_nat_add of_nat_mult of_nat_numeral)
    ultimately show ?thesis
      using atoi_from_append [of "rev (printint_loop 10 (x div 10))" 0 "[udigits ! (x mod 10)]"] digit
        printint_loop_digits by (simp del: atoi_from.simps)
  qed
qed

lemma atoi_printint_u: "atoi (printint_u x 10 sn) = (if sn \<and> sint x < 0 then 0 else x)"
proof (cases "sn \<and> sint x < 0")
  case True
  then show ?thesis
    by (simp add: atoi_def printint_u_def)
next
  case False
  then show ?thesis
    by (auto simp: atoi_def printint_u_def atoi_printint_loop)
qed

section \<open>Streams\<close>

text \<open>
  What the programs rely on of read and write: reading \<open>fd\<close> takes bytes off an input, at least one if there is one, and none at its
  end; writing to descriptor 1 appends all the bytes to an output.
\<close>

definition stream :: "'w os \<Rightarrow> u32 \<Rightarrow> ('w \<Rightarrow> u8 list) \<Rightarrow> ('w \<Rightarrow> u8 list) \<Rightarrow> bool" where
  "stream os fd inp out \<longleftrightarrow>
     (\<forall>n w. \<exists>k w'. os_read os fd n w = (Some (take k (inp w)), w') \<and> k \<le> n \<and> k \<le> length (inp w) \<and>
        (0 < n \<and> inp w \<noteq> [] \<longrightarrow> 0 < k) \<and> inp w' = drop k (inp w) \<and> out w' = out w) \<and>
     (\<forall>bs w. \<exists>w'. os_write os 1 bs w = (of_nat (length bs), w') \<and> inp w' = inp w \<and> out w' = out w @ bs)"

lemma stream_readE:
  assumes "stream os fd inp out"
  obtains k w' where "os_read os fd n w = (Some (take k (inp w)), w')" and "k \<le> n" and "k \<le> length (inp w)"
    and "0 < n \<Longrightarrow> inp w \<noteq> [] \<Longrightarrow> 0 < k" and "inp w' = drop k (inp w)" and "out w' = out w"
  using assms unfolding stream_def by metis

lemma stream_writeE:
  assumes "stream os fd inp out"
  obtains w' where "os_write os 1 bs w = (of_nat (length bs), w')" and "inp w' = inp w" and "out w' = out w @ bs"
  using assms unfolding stream_def by metis

text \<open>\<open>cat\<close> copies its whole input.\<close>

lemma cat_copies:
  assumes st: "stream os fd inp out"
  shows "\<exists>w'. cat os fd w = Some (Inr w') \<and> inp w' = [] \<and> out w' = out w @ inp w"
proof (induction "inp w" arbitrary: w rule: length_induct)
  case 1
  obtain k w1 where rd: "os_read os fd 512 w = (Some (take k (inp w)), w1)" and k: "k \<le> length (inp w)" "inp w \<noteq> [] \<Longrightarrow> 0 < k"
    and w1: "inp w1 = drop k (inp w)" "out w1 = out w"
    using stream_readE [OF st, of 512 w] by (metis zero_less_numeral)
  show ?case
  proof (cases "inp w = []")
    case True
    then show ?thesis
      using rd w1 by (subst cat.simps) simp
  next
    case False
    obtain w2 where wr: "os_write os 1 (take k (inp w)) w1 = (of_nat (length (take k (inp w))), w2)"
      and w2: "inp w2 = inp w1" "out w2 = out w1 @ take k (inp w)"
      using stream_writeE [OF st] by metis
    have "length (inp w2) < length (inp w)"
      using w1 w2 k False by simp
    then obtain w' where "cat os fd w2 = Some (Inr w')" "inp w' = []" "out w' = out w2 @ inp w2"
      using 1 by blast
    then show ?thesis
      using rd wr k False w1 w2 by (subst cat.simps) simp
  qed
qed

text \<open>\<open>wc\<close> counts newlines, words and bytes. A word starts where a byte that is no space follows a space or the beginning.\<close>

definition space :: "u8 \<Rightarrow> bool" where
  "space b \<longleftrightarrow> b \<in> {32, 13, 9, 10, 11}"

definition word_starts :: "u8 list \<Rightarrow> nat" where
  "word_starts xs = length (filter (\<lambda>(a, b). space a \<and> \<not> space b) (zip (32 # xs) xs))"

lemma strchr_None: "strchr s c = None \<longleftrightarrow> c \<notin> set s"
  by (induction s) auto

lemma wc_byte_space: "wc_byte b (l, w, c, inword) =
  (if b = 10 then l + 1 else l, if \<not> space b \<and> \<not> inword then w + 1 else w, c + 1, \<not> space b)"
  by (auto simp: wc_byte_def space_def strchr_None Let_def)

lemma fold_wc_byte:
  "space a = (\<not> inword) \<Longrightarrow>
   fold wc_byte xs (l, w, c, inword) =
     (l + of_nat (count_list xs 10), w + of_nat (length (filter (\<lambda>(a, b). space a \<and> \<not> space b) (zip (a # xs) xs))),
      c + of_nat (length xs), \<not> space (List.last (a # xs)))"
proof (induction xs arbitrary: a l w c inword)
  case (Cons x xs)
  show ?case
    using Cons.prems Cons.IH [of x "\<not> space x"] by (simp add: wc_byte_space algebra_simps)
qed simp

lemma wc_loop_fold:
  assumes st: "stream os fd inp out"
  shows "\<exists>w'. wc_loop os fd s w = Some (case fold wc_byte (inp w) s of (l, wd, c, _) \<Rightarrow> Some (l, wd, c), w') \<and> inp w' = [] \<and> out w' = out w"
proof (induction "inp w" arbitrary: w s rule: length_induct)
  case 1
  obtain k w1 where rd: "os_read os fd 512 w = (Some (take k (inp w)), w1)" and k: "k \<le> length (inp w)" "inp w \<noteq> [] \<Longrightarrow> 0 < k"
    and w1: "inp w1 = drop k (inp w)" "out w1 = out w"
    using stream_readE [OF st, of 512 w] by (metis zero_less_numeral)
  show ?case
  proof (cases "inp w = []")
    case True
    then show ?thesis
      using rd w1 by (subst wc_loop.simps) simp
  next
    case False
    have "length (inp w1) < length (inp w)"
      using w1 k False by simp
    then obtain w' where "wc_loop os fd (fold wc_byte (take k (inp w)) s) w1 =
        Some (case fold wc_byte (inp w1) (fold wc_byte (take k (inp w)) s) of (l, wd, c, _) \<Rightarrow> Some (l, wd, c), w')"
      "inp w' = []" "out w' = out w1"
      using 1 by blast
    moreover have "fold wc_byte (inp w) s = fold wc_byte (inp w1) (fold wc_byte (take k (inp w)) s)"
      using w1 by (metis append_take_drop_id comp_apply fold_append)
    ultimately show ?thesis
      using rd k False w1 by (subst wc_loop.simps) simp
  qed
qed

lemma wc_counts:
  assumes "stream os fd inp out"
  shows "\<exists>w'. wc_loop os fd (0, 0, 0, False) w =
      Some (Some (of_nat (count_list (inp w) 10), of_nat (word_starts (inp w)), of_nat (length (inp w))), w')
    \<and> inp w' = [] \<and> out w' = out w"
proof -
  have "space 32 = (\<not> False)"
    by (simp add: space_def)
  from wc_loop_fold [OF assms, of "(0, 0, 0, False)" w] show ?thesis
    unfolding fold_wc_byte [OF \<open>space 32 = (\<not> False)\<close>] by (simp add: word_starts_def)
qed

end
