(* ===== verification/Grep.thy ===== *)
theory Grep
  imports Ulib
begin

text \<open>
  The program user/grep.c: the regular expression matcher and the loop that reads lines into a buffer of 1024 bytes. The matcher is
  shown to decide a denotational reading of patterns, and the loop to print exactly the lines that match.
\<close>

section \<open>The matcher\<close>

function matchhere :: "u8 list \<Rightarrow> u8 list \<Rightarrow> bool"
  and matchstar :: "u8 \<Rightarrow> u8 list \<Rightarrow> u8 list \<Rightarrow> bool" where
  "matchhere re text =
     (case re of
        [] \<Rightarrow> True
      | c # r \<Rightarrow>
          (case r of
             d # r' \<Rightarrow>
               if d = 42 then matchstar c r' text
               else (case text of [] \<Rightarrow> False | t # ts \<Rightarrow> (c = 46 \<or> c = t) \<and> matchhere r ts)
           | [] \<Rightarrow>
               if c = 36 then text = []
               else (case text of [] \<Rightarrow> False | t # ts \<Rightarrow> (c = 46 \<or> c = t) \<and> matchhere r ts)))"
| "matchstar c re text =
     (matchhere re text \<or> (case text of [] \<Rightarrow> False | t # ts \<Rightarrow> (t = c \<or> c = 46) \<and> matchstar c re ts))"
  by pat_completeness auto
termination
  by (relation "measure (\<lambda>x. case x of Inl (re, text) \<Rightarrow> 2 * (length re + length text)
                               | Inr (c, re, text) \<Rightarrow> 2 * (length re + length text) + 1)") auto

declare matchhere.simps [simp del] matchstar.simps [simp del]

fun match_from :: "u8 list \<Rightarrow> u8 list \<Rightarrow> bool" where
  "match_from re [] = matchhere re []"
| "match_from re (t # ts) = (matchhere re (t # ts) \<or> match_from re ts)"

definition match :: "u8 list \<Rightarrow> u8 list \<Rightarrow> bool" where
  "match re text = (case re of c # r \<Rightarrow> if c = 94 then matchhere r text else match_from re text | [] \<Rightarrow> match_from re text)"

section \<open>The loop over lines\<close>

text \<open>
  The buffer holds the list \<open>p\<close> of bytes from the pointer \<open>p\<close> up to the NUL that ends them; \<open>strchr\<close> stops at the first NUL among them.
\<close>

function grep_lines :: "'w os \<Rightarrow> u8 list \<Rightarrow> u8 list \<Rightarrow> 'w \<Rightarrow> u8 list \<times> 'w" where
  "grep_lines os pattern p w =
     (case strchr (takeWhile (\<lambda>c. c \<noteq> 0) p) 10 of
        None \<Rightarrow> (p, w)
      | Some q \<Rightarrow>
          grep_lines os pattern (drop (Suc q) p)
            (if match pattern (take q p) then snd (os_write os 1 (take (Suc q) p) w) else w))"
  by pat_completeness auto

lemma strchr_Some:
  "strchr s c = Some q \<Longrightarrow> q < length s \<and> s ! q = c \<and> (\<forall>i < q. s ! i \<noteq> c)"
proof (induction s arbitrary: q)
  case (Cons a s)
  show ?case
  proof (cases "a = c")
    case False
    then obtain z where "q = Suc z" "strchr s c = Some z"
      using Cons.prems by auto
    then show ?thesis
      using Cons.IH [of z] False by (auto simp: nth_Cons split: nat.splits)
  qed (use Cons.prems in simp)
qed simp

termination grep_lines
proof (relation "measure (\<lambda>(os, pattern, p, w). length p)", goal_cases)
  case (2 os pattern p w q)
  then have "q < length p"
    using strchr_Some length_takeWhile_le order_less_le_trans by metis
  then show ?case
    by auto
qed simp

declare grep_lines.simps [simp del]

partial_function (option) grep_from :: "'w os \<Rightarrow> u8 list \<Rightarrow> u32 \<Rightarrow> u8 list \<Rightarrow> 'w \<Rightarrow> 'w option" where
  "grep_from os pattern fd buf w =
     (case os_read os fd (1024 - length buf - 1) w of (r, w) \<Rightarrow>
      (case r of
         None \<Rightarrow> Some w
       | Some bs \<Rightarrow>
           if bs = [] then Some w
           else case grep_lines os pattern (buf @ bs) w of (buf, w) \<Rightarrow> grep_from os pattern fd buf w))"

definition grep :: "'w os \<Rightarrow> u8 list \<Rightarrow> u32 \<Rightarrow> 'w \<Rightarrow> 'w option" where
  "grep os pattern fd w = grep_from os pattern fd [] w"

fun grep_files :: "'w os \<Rightarrow> u8 list \<Rightarrow> u8 list list \<Rightarrow> 'w \<Rightarrow> 'w run option" where
  "grep_files os pattern [] w = Some (Inl (0, w))"
| "grep_files os pattern (f # fs) w =
     (case os_open os f 0 w of (fd, w) \<Rightarrow>
      if sint fd < 0 then say os 1 ''grep: cannot open %s\<newline>'' [Str (Some f)] w (\<lambda>w. Some (Inl (1, w)))
      else case grep os pattern fd w of None \<Rightarrow> None | Some w \<Rightarrow> grep_files os pattern fs (os_close os fd w))"

definition main_grep :: "'w os \<Rightarrow> u8 list list \<Rightarrow> 'w \<Rightarrow> 'w run option" where
  "main_grep os argv w =
     (if length argv \<le> 1 then say os 2 ''usage: grep pattern [file ...]\<newline>'' [] w (\<lambda>w. Some (Inl (1, w)))
      else if length argv \<le> 2 then (case grep os (argv ! 1) 0 w of None \<Rightarrow> None | Some w \<Rightarrow> Some (Inl (0, w)))
      else grep_files os (argv ! 1) (drop 2 argv) w)"

section \<open>What patterns mean\<close>

text \<open>
  A pattern is a sequence of items: one character, any number of one character, or the end of the text; the character 46, a dot, stands
  for every character. \<open>denotes is u v\<close>: the items match the text \<open>u\<close> where \<open>v\<close> follows.
\<close>

datatype item = One u8 | Many u8 | Ends

fun items :: "u8 list \<Rightarrow> item list" where
  "items [] = []"
| "items [c] = (if c = 36 then [Ends] else [One c])"
| "items (c # d # r) = (if d = 42 then Many c # items r else One c # items (d # r))"

definition fits :: "u8 \<Rightarrow> u8 \<Rightarrow> bool" where
  "fits c x \<longleftrightarrow> c = 46 \<or> x = c"

fun denotes :: "item list \<Rightarrow> u8 list \<Rightarrow> u8 list \<Rightarrow> bool" where
  "denotes [] u v \<longleftrightarrow> u = []"
| "denotes (One c # r) u v \<longleftrightarrow> (\<exists>x u'. u = x # u' \<and> fits c x \<and> denotes r u' v)"
| "denotes (Many c # r) u v \<longleftrightarrow> (\<exists>a b. u = a @ b \<and> (\<forall>x \<in> set a. fits c x) \<and> denotes r b v)"
| "denotes (Ends # r) u v \<longleftrightarrow> u = [] \<and> v = [] \<and> denotes r u v"

definition prefix_matches :: "item list \<Rightarrow> u8 list \<Rightarrow> bool" where
  "prefix_matches r text \<longleftrightarrow> (\<exists>u v. text = u @ v \<and> denotes r u v)"

text \<open>A pattern that starts with a caret, 94, matches at the beginning of the text, every other one anywhere.\<close>

definition pattern_matches :: "u8 list \<Rightarrow> u8 list \<Rightarrow> bool" where
  "pattern_matches re text \<longleftrightarrow>
     (if re \<noteq> [] \<and> hd re = 94 then prefix_matches (items (tl re)) text
      else \<exists>a t. text = a @ t \<and> prefix_matches (items re) t)"

lemma prefix_matches_Nil: "prefix_matches [] text"
  by (simp add: prefix_matches_def)

lemma prefix_matches_Ends: "prefix_matches [Ends] text \<longleftrightarrow> text = []"
  by (auto simp: prefix_matches_def)

lemma prefix_matches_One:
  "prefix_matches (One c # r) text \<longleftrightarrow> (case text of [] \<Rightarrow> False | t # ts \<Rightarrow> fits c t \<and> prefix_matches r ts)"
  by (cases "text") (auto simp: prefix_matches_def Cons_eq_append_conv)

lemma prefix_matches_Many:
  "prefix_matches (Many c # r) s \<longleftrightarrow>
     prefix_matches r s \<or> (case s of [] \<Rightarrow> False | t # ts \<Rightarrow> fits c t \<and> prefix_matches (Many c # r) ts)"
  (is "?l s \<longleftrightarrow> _ \<or> ?s s")
proof
  assume "?l s"
  then obtain a b v where split: "s = (a @ b) @ v" and a: "\<forall>x \<in> set a. fits c x" and r: "denotes r b v"
    unfolding prefix_matches_def by auto
  show "prefix_matches r s \<or> ?s s"
  proof (cases a)
    case Nil
    then show ?thesis
      using split r unfolding prefix_matches_def by auto
  next
    case (Cons t a')
    then have "\<forall>x \<in> set a'. fits c x"
      using a by simp
    with r have "prefix_matches (Many c # r) ((a' @ b) @ v)"
      unfolding prefix_matches_def denotes.simps by blast
    then show ?thesis
      using split a Cons by simp
  qed
next
  assume "prefix_matches r s \<or> ?s s"
  then show "?l s"
  proof
    assume "prefix_matches r s"
    then show ?thesis
      unfolding prefix_matches_def denotes.simps by (metis append_Nil empty_iff empty_set)
  next
    assume "?s s"
    then obtain t ts a b v where "s = t # ts" "fits c t" "ts = (a @ b) @ v" "\<forall>x \<in> set a. fits c x" "denotes r b v"
      unfolding prefix_matches_def by (cases "s") auto
    then have "s = ((t # a) @ b) @ v" "\<forall>x \<in> set (t # a). fits c x" "denotes r b v"
      by auto
    then show ?thesis
      unfolding prefix_matches_def denotes.simps by blast
  qed
qed

lemma matchhere_matchstar:
  "matchhere re text \<longleftrightarrow> prefix_matches (items re) text"
  "matchstar c re text \<longleftrightarrow> prefix_matches (Many c # items re) text"
proof (induction re "text" and c re "text" rule: matchhere_matchstar.induct)
  case (1 re s)
  show ?case
  proof (cases re rule: items.cases)
    case 1
    then show ?thesis
      by (simp add: matchhere.simps prefix_matches_Nil)
  next
    case (2 c)
    have "matchhere [] ts" for ts
      by (simp add: matchhere.simps)
    then show ?thesis
      using 2 by (subst matchhere.simps) (auto simp: prefix_matches_Ends prefix_matches_One prefix_matches_Nil fits_def split: list.split)
  next
    case (3 c d r)
    show ?thesis
    proof (cases "d = 42")
      case True
      then show ?thesis
        using 3 "1.IH"(2) [OF 3 refl True] by (subst matchhere.simps) simp
    next
      case False
      then show ?thesis
        using 3 "1.IH"(3) by (subst matchhere.simps) (auto simp: prefix_matches_One fits_def split: list.split)
    qed
  qed
next
  case (2 c re s)
  show ?case
    unfolding matchstar.simps [of c re s] prefix_matches_Many [of c "items re" s]
    using 2 by (auto simp: fits_def split: list.split)
qed

lemma match_from_iff: "match_from re text \<longleftrightarrow> (\<exists>a t. text = a @ t \<and> matchhere re t)"
proof (induction re "text" rule: match_from.induct)
  case (2 re t ts)
  show ?case
    unfolding match_from.simps 2 by (auto simp: Cons_eq_append_conv)
qed simp

lemma match_iff: "match re text \<longleftrightarrow> pattern_matches re text"
proof (cases re)
  case (Cons c r)
  then show ?thesis
    by (simp add: match_def pattern_matches_def match_from_iff matchhere_matchstar(1))
qed (simp add: match_def pattern_matches_def match_from_iff matchhere_matchstar(1))

text \<open>
  C33. \<open>match\<close>, the recursive backtracking matcher of grep, decides the denotation of patterns: a text is matched exactly if some part
  of it (with a leading caret, some beginning of it) splits into pieces that the items of the pattern describe.
\<close>

theorem match_denotes: "match re text \<longleftrightarrow> pattern_matches re text"
  by (rule match_iff)

section \<open>Lines\<close>

text \<open>The complete lines of a text, without the newline (10) that ends each, and what follows the last of them.\<close>

fun split_lines :: "u8 list \<Rightarrow> u8 list list \<times> u8 list" where
  "split_lines [] = ([], [])"
| "split_lines (c # s) =
     (case split_lines s of (xs, r) \<Rightarrow>
      if c = 10 then ([] # xs, r) else (case xs of [] \<Rightarrow> ([], c # r) | l # xs \<Rightarrow> ((c # l) # xs, r)))"

abbreviation full_lines :: "u8 list \<Rightarrow> u8 list list" where
  "full_lines s \<equiv> fst (split_lines s)"

abbreviation partial_line :: "u8 list \<Rightarrow> u8 list" where
  "partial_line s \<equiv> snd (split_lines s)"

lemma split_lines_None: "10 \<notin> set s \<Longrightarrow> split_lines s = ([], s)"
  by (induction s) auto

lemma split_lines_first: "10 \<notin> set l \<Longrightarrow> split_lines (l @ 10 # s) = (l # full_lines s, partial_line s)"
  by (induction l) (auto split: prod.split)

lemma split_lines_append:
  "split_lines (a @ b) = (full_lines a @ full_lines (partial_line a @ b), partial_line (partial_line a @ b))"
proof (induction "length a" arbitrary: a rule: less_induct)
  case less
  show ?case
  proof (cases "10 \<in> set a")
    case True
    then obtain l s where a: "a = l @ 10 # s" and l: "10 \<notin> set l"
      by (meson split_list_first)
    have "split_lines (s @ b) = (full_lines s @ full_lines (partial_line s @ b), partial_line (partial_line s @ b))"
      by (rule less) (simp add: a)
    then show ?thesis
      using split_lines_first [OF l, of "s @ b"] split_lines_first [OF l, of s] by (simp add: a)
  qed (simp add: split_lines_None)
qed

lemma partial_line_no_newline: "10 \<notin> set (partial_line s)"
  by (induction s) (auto split: prod.split list.split)

lemma partial_line_subset: "set (partial_line s) \<subseteq> set s"
  by (induction s) (auto split: prod.split list.split)

text \<open>What grep is to print for a text.\<close>

definition selected :: "u8 list \<Rightarrow> u8 list \<Rightarrow> u8 list" where
  "selected pattern s = concat (map (\<lambda>l. l @ [10]) (filter (pattern_matches pattern) (full_lines s)))"

lemma grep_lines_spec:
  assumes st: "stream os fd inp out" and "0 \<notin> set p"
  shows "\<exists>w'. grep_lines os pattern p w = (partial_line p, w') \<and> inp w' = inp w \<and> out w' = out w @ selected pattern p"
  using assms(2)
proof (induction "length p" arbitrary: p w rule: less_induct)
  case less
  have no_nul: "takeWhile (\<lambda>c. c \<noteq> 0) p = p"
    using less.prems by (auto simp: takeWhile_eq_all_conv)
  show ?case
  proof (cases "strchr p 10")
    case None
    then have "split_lines p = ([], p)"
      by (simp add: strchr_None split_lines_None)
    then show ?thesis
      using None by (subst grep_lines.simps) (simp add: no_nul selected_def)
  next
    case (Some q)
    define l s where "l = take q p" and "s = drop (Suc q) p"
    have q: "q < length p" "p ! q = 10" "\<forall>i < q. p ! i \<noteq> 10"
      using strchr_Some [OF Some] by auto
    then have p: "p = l @ 10 # s" and l: "10 \<notin> set l" and take_q: "take (Suc q) p = l @ [10]"
      using id_take_nth_drop [of q p] by (auto simp: l_def s_def in_set_conv_nth take_Suc_conv_app_nth)
    obtain w1 where w1: "os_write os 1 (l @ [10]) w = (of_nat (length (l @ [10])), w1)" "inp w1 = inp w" "out w1 = out w @ l @ [10]"
      using stream_writeE [OF st, of "l @ [10]" w] by blast
    define w2 where "w2 = (if match pattern l then w1 else w)"
    have "length s < length p" "0 \<notin> set s"
      using less.prems p by auto
    then obtain w' where w': "grep_lines os pattern s w2 = (partial_line s, w')" "inp w' = inp w2" "out w' = out w2 @ selected pattern s"
      using less.hyps by blast
    moreover have "grep_lines os pattern p w = grep_lines os pattern s w2"
      using Some w1 take_q by (subst grep_lines.simps) (simp add: no_nul l_def [symmetric] s_def [symmetric] w2_def)
    ultimately show ?thesis
      using w1 split_lines_first [OF l, of s] p by (auto simp: w2_def selected_def match_iff)
  qed
qed

lemma full_lines_long:
  assumes "10 \<notin> set buf" and "\<forall>l \<in> set (full_lines (buf @ s)). length l < length buf"
  shows "full_lines (buf @ s) = []"
proof (cases "10 \<in> set s")
  case True
  then obtain a b where "s = a @ 10 # b" "10 \<notin> set a"
    by (meson split_list_first)
  then show ?thesis
    using assms split_lines_first [of "buf @ a" b] by simp
qed (use assms in \<open>simp add: split_lines_None\<close>)

lemma grep_from_spec:
  assumes st: "stream os fd inp out"
  assumes "10 \<notin> set buf" and "0 \<notin> set (buf @ inp w)" and "\<forall>l \<in> set (full_lines (buf @ inp w)). length l < 1023"
  shows "\<exists>w'. grep_from os pattern fd buf w = Some w' \<and> out w' = out w @ selected pattern (buf @ inp w)"
  using assms(2-)
proof (induction "length (inp w)" arbitrary: buf w rule: less_induct)
  case less
  obtain k w1 where rd: "os_read os fd (1024 - length buf - 1) w = (Some (take k (inp w)), w1)"
    and k: "k \<le> 1024 - length buf - 1" "k \<le> length (inp w)" "0 < 1024 - length buf - 1 \<Longrightarrow> inp w \<noteq> [] \<Longrightarrow> 0 < k"
    and w1: "inp w1 = drop k (inp w)" "out w1 = out w"
    using stream_readE [OF st, of "1024 - length buf - 1" w] by metis
  show ?case
  proof (cases "k = 0")
    case True
    have "full_lines (buf @ inp w) = []"
    proof (cases "inp w = []")
      case False
      then have "1023 \<le> length buf"
        using k True by (cases "length buf < 1023") auto
      then show ?thesis
        using less.prems by (intro full_lines_long) auto
    qed (use less.prems in \<open>simp add: split_lines_None\<close>)
    then show ?thesis
      using rd w1 True by (subst grep_from.simps) (simp add: selected_def)
  next
    case False
    define p where "p = buf @ take k (inp w)"
    have X: "buf @ inp w = p @ inp w1"
      by (simp add: p_def w1)
    have ne: "take k (inp w) \<noteq> []"
      using False k by auto
    have "0 \<notin> set p"
      using less.prems(2) X by simp
    then obtain w2 where gl: "grep_lines os pattern p w1 = (partial_line p, w2)" and w2: "inp w2 = inp w1" "out w2 = out w1 @ selected pattern p"
      using grep_lines_spec [OF st] by blast
    have "length (inp w2) < length (inp w)"
      using False k w1 w2 by simp
    moreover have "0 \<notin> set (partial_line p @ inp w2)"
      using less.prems(2) partial_line_subset [of p] w2 unfolding X by auto
    moreover have "\<forall>l \<in> set (full_lines (partial_line p @ inp w2)). length l < 1023"
      using less.prems(3) w2 unfolding X split_lines_append [of p] by simp
    ultimately obtain w' where w': "grep_from os pattern fd (partial_line p) w2 = Some w'"
      "out w' = out w2 @ selected pattern (partial_line p @ inp w2)"
      using less.hyps [of w2 "partial_line p"] partial_line_no_newline by blast
    have "selected pattern (buf @ inp w) = selected pattern p @ selected pattern (partial_line p @ inp w2)"
      unfolding X selected_def split_lines_append [of p] using w2 by simp
    then show ?thesis
      using rd ne gl w' w1 w2 by (subst grep_from.simps) (simp add: p_def)
  qed
qed

text \<open>
  C34. grep prints the lines that match: on an input without NUL bytes whose lines are shorter than 1023 bytes, read in pieces of any
  size, it ends, and has written to its output exactly the complete lines the pattern describes, each with its newline and in order.
\<close>

theorem grep_prints:
  assumes "stream os fd inp out" and "0 \<notin> set (inp w)" and "\<forall>l \<in> set (full_lines (inp w)). length l < 1023"
  shows "\<exists>w'. grep os pattern fd w = Some w' \<and>
    out w' = out w @ concat (map (\<lambda>l. l @ [10]) (filter (pattern_matches pattern) (full_lines (inp w))))"
  using grep_from_spec [where buf = "[]", OF assms(1)] assms(2-) by (simp add: grep_def selected_def)

text \<open>An input and an output as two lists, read three bytes at a time.\<close>

definition demo_os :: "(u8 list \<times> u8 list) os" where
  "demo_os = \<lparr>os_read = (\<lambda>fd n (i, o'). (Some (take (min n 3) i), (drop (min n 3) i, o'))),
     os_write = (\<lambda>fd bs (i, o'). (of_nat (length bs), (i, o' @ bs))),
     os_open = (\<lambda>path mode w. (3, w)), os_close = (\<lambda>fd w. w), os_fstat = (\<lambda>fd w. (None, w)), os_kill = (\<lambda>pid w. w),
     os_unlink = (\<lambda>path w. (0, w)), os_mkdir = (\<lambda>path w. (0, w)), os_link = (\<lambda>old new w. (0, w)), os_ps = (\<lambda>w. ([], w))\<rparr>"

lemma demo_stream: "stream demo_os 0 fst snd"
proof -
  have "\<exists>k w'. os_read demo_os 0 n w = (Some (take k (fst w)), w') \<and> k \<le> n \<and> k \<le> length (fst w) \<and>
      (0 < n \<and> fst w \<noteq> [] \<longrightarrow> 0 < k) \<and> fst w' = drop k (fst w) \<and> snd w' = snd w" for n w
    by (rule exI [of _ "min (min n 3) (length (fst w))"], cases w) (auto simp: demo_os_def min_def)
  then show ?thesis
    unfolding stream_def by (auto simp: demo_os_def)
qed

theorem grep_prints_witness:
  "\<exists>w'. grep demo_os [97, 42, 98, 36] 0 ([97, 97, 98, 10, 98, 97, 10, 98], []) = Some w' \<and> snd w' = [97, 97, 98, 10]"
proof -
  have lines: "full_lines [97, 97, 98, 10, 98, 97, 10, 98] = [[97, 97, 98], [98, 97]]"
    by simp
  have "match [97, 42, 98, 36] [97, 97, 98]" and "\<not> match [97, 42, 98, 36] [98, 97]"
    by code_simp+
  then have "filter (pattern_matches [97, 42, 98, 36]) [[97, 97, 98], [98, 97]] = [[97, 97, 98]]"
    by (simp add: match_iff)
  then show ?thesis
    using grep_prints [OF demo_stream, of "([97, 97, 98, 10, 98, 97, 10, 98], [])" "[97, 42, 98, 36]"] by (simp add: lines)
qed

end
