(* ===== verification/Sh.thy ===== *)
theory Sh
  imports Ulib "HOL-Library.Sublist"
begin

unbundle bit_operations_syntax

text \<open>
  The shell, user/sh.c: the parser, the termination of its strings in place, and the system calls that running a command makes. A
  pointer into the command line is represented by its distance from the end of the line, so that a pointer and the text behind it are
  the same thing; a string of a command is the pair of its pointers \<open>q\<close> and \<open>eq\<close>. Allocations are taken to succeed.
\<close>

section \<open>Commands\<close>

datatype 's cmd =
  ExecCmd "'s list"
| RedirCmd "'s cmd" 's u32 u32
| PipeCmd "'s cmd" "'s cmd"
| ListCmd "'s cmd" "'s cmd"
| BackCmd "'s cmd"

type_synonym tok = "nat \<times> nat"

section \<open>Tokens\<close>

definition whitespace :: "u8 list" where
  "whitespace = [32, 9, 13, 10, 11]"

definition symbols :: "u8 list" where
  "symbols = str ''<|>&;()''"

definition white :: "u8 \<Rightarrow> bool" where
  "white c \<longleftrightarrow> strchr whitespace c \<noteq> None"

definition wordch :: "u8 \<Rightarrow> bool" where
  "wordch c \<longleftrightarrow> \<not> white c \<and> strchr symbols c = None"

text \<open>The switch of \<open>gettoken\<close>: the kind of the token at \<open>s\<close>, and the text behind it.\<close>

definition token :: "u8 list \<Rightarrow> u8 \<times> u8 list" where
  "token s =
     (case s of
        [] \<Rightarrow> (0, [])
      | c # t \<Rightarrow>
          if c \<in> set (str ''|();&<'') then (c, t)
          else if c = 62 then (if t \<noteq> [] \<and> hd t = 62 then (43, tl t) else (62, t))
          else (97, dropWhile wordch s))"

definition gettoken :: "u8 list \<Rightarrow> u8 \<times> tok \<times> u8 list" where
  "gettoken s =
     (let s = dropWhile white s;
          (ret, e) = token s
      in (ret, (length s, length e), dropWhile white e))"

definition peek :: "string \<Rightarrow> u8 list \<Rightarrow> bool \<times> u8 list" where
  "peek toks s = (let s = dropWhile white s in (s \<noteq> [] \<and> strchr (str toks) (hd s) \<noteq> None, s))"

section \<open>The parser\<close>

text \<open>
  The loops and the recursion are given fuel, which every call takes one of; a panic ends the process that parses. \<open>parseexec\<close> keeps a
  pointer to the \<open>EXEC\<close> node below the redirections around it, and adds the arguments there.
\<close>

primrec add_arg :: "'s \<Rightarrow> 's cmd \<Rightarrow> 's cmd" where
  "add_arg a (ExecCmd as) = ExecCmd (as @ [a])"
| "add_arg a (RedirCmd c f m fd) = RedirCmd (add_arg a c) f m fd"
| "add_arg a (PipeCmd l r) = PipeCmd l r"
| "add_arg a (ListCmd l r) = ListCmd l r"
| "add_arg a (BackCmd c) = BackCmd c"

fun parseredirs :: "nat \<Rightarrow> tok cmd \<Rightarrow> u8 list \<Rightarrow> (tok cmd \<times> u8 list) result" where
  "parseredirs 0 cmd s = Inl NoFuel"
| "parseredirs (Suc n) cmd s =
     (case peek ''<>'' s of (t, s) \<Rightarrow>
      if \<not> t then Inr (cmd, s)
      else case gettoken s of (tok, _, s) \<Rightarrow>
        case gettoken s of (a, (q, eq), s) \<Rightarrow>
          if a \<noteq> 97 then Inl (Panic ''missing file for redirection'')
          else parseredirs n
            (if tok = 60 then RedirCmd cmd (q, eq) O_RDONLY 0
             else if tok = 62 then RedirCmd cmd (q, eq) (O_WRONLY OR O_CREATE) 1
             else RedirCmd cmd (q, eq) (O_WRONLY OR O_CREATE) 1) s)"

fun parse_args :: "nat \<Rightarrow> tok cmd \<Rightarrow> nat \<Rightarrow> u8 list \<Rightarrow> (tok cmd \<times> u8 list) result" where
  "parse_args 0 ret argc s = Inl NoFuel"
| "parse_args (Suc n) ret argc s =
     (case peek ''|)&;'' s of (stop, s) \<Rightarrow>
      if stop then Inr (ret, s)
      else case gettoken s of (tok, q, s) \<Rightarrow>
        if tok = 0 then Inr (ret, s)
        else if tok \<noteq> 97 then Inl (Panic ''syntax'')
        else if argc + 1 \<ge> 10 then Inl (Panic ''too many args'')
        else bnd (parseredirs n (add_arg q ret) s) (\<lambda>(ret, s). parse_args n ret (argc + 1) s))"

fun parse_back :: "nat \<Rightarrow> tok cmd \<Rightarrow> u8 list \<Rightarrow> (tok cmd \<times> u8 list) result" where
  "parse_back 0 cmd s = Inl NoFuel"
| "parse_back (Suc n) cmd s =
     (case peek ''&'' s of (t, s) \<Rightarrow>
      if \<not> t then Inr (cmd, s)
      else case gettoken s of (_, _, s) \<Rightarrow> parse_back n (BackCmd cmd) s)"

fun parseline :: "nat \<Rightarrow> u8 list \<Rightarrow> (tok cmd \<times> u8 list) result"
  and parsepipe :: "nat \<Rightarrow> u8 list \<Rightarrow> (tok cmd \<times> u8 list) result"
  and parseblock :: "nat \<Rightarrow> u8 list \<Rightarrow> (tok cmd \<times> u8 list) result"
  and parseexec :: "nat \<Rightarrow> u8 list \<Rightarrow> (tok cmd \<times> u8 list) result" where
  "parseline 0 s = Inl NoFuel"
| "parseline (Suc n) s =
     bnd (parsepipe n s) (\<lambda>(cmd, s).
     bnd (parse_back n cmd s) (\<lambda>(cmd, s).
     case peek '';'' s of (t, s) \<Rightarrow>
     if t then
       case gettoken s of (_, _, s) \<Rightarrow> bnd (parseline n s) (\<lambda>(right, s). Inr (ListCmd cmd right, s))
     else Inr (cmd, s)))"
| "parsepipe 0 s = Inl NoFuel"
| "parsepipe (Suc n) s =
     bnd (parseexec n s) (\<lambda>(cmd, s).
     case peek ''|'' s of (t, s) \<Rightarrow>
     if t then
       case gettoken s of (_, _, s) \<Rightarrow> bnd (parsepipe n s) (\<lambda>(right, s). Inr (PipeCmd cmd right, s))
     else Inr (cmd, s))"
| "parseblock 0 s = Inl NoFuel"
| "parseblock (Suc n) s =
     (case peek ''('' s of (t, s) \<Rightarrow>
      if \<not> t then Inl (Panic ''parseblock'')
      else case gettoken s of (_, _, s) \<Rightarrow>
        bnd (parseline n s) (\<lambda>(cmd, s).
        case peek '')'' s of (t, s) \<Rightarrow>
        if \<not> t then Inl (Panic ''syntax - missing )'')
        else case gettoken s of (_, _, s) \<Rightarrow> parseredirs n cmd s))"
| "parseexec 0 s = Inl NoFuel"
| "parseexec (Suc n) s =
     (case peek ''('' s of (t, s) \<Rightarrow>
      if t then parseblock n s
      else bnd (parseredirs n (ExecCmd []) s) (\<lambda>(ret, s). parse_args n ret 0 s))"

text \<open>The strings of a command are ended in place: \<open>at b p\<close> is the index in the line \<open>b\<close> of the pointer \<open>p\<close>.\<close>

definition at :: "u8 list \<Rightarrow> nat \<Rightarrow> nat" where
  "at b p = length b - p"

primrec nulterminate :: "u8 list \<Rightarrow> tok cmd \<Rightarrow> u8 list \<Rightarrow> u8 list" where
  "nulterminate b (ExecCmd as) m = fold (\<lambda>(q, eq) m. m[at b eq := 0]) as m"
| "nulterminate b (RedirCmd c f mode fd) m = (nulterminate b c m)[at b (snd f) := 0]"
| "nulterminate b (PipeCmd l r) m = nulterminate b r (nulterminate b l m)"
| "nulterminate b (ListCmd l r) m = nulterminate b r (nulterminate b l m)"
| "nulterminate b (BackCmd c) m = nulterminate b c m"

text \<open>\<open>parsecmd\<close> returns the command and the buffer, the line with its final NUL, in which its strings lie.\<close>

definition parsecmd :: "u8 list \<Rightarrow> (tok cmd \<times> u8 list) result" where
  "parsecmd b =
     bnd (parseline (4 * length b + 4) b) (\<lambda>(cmd, s).
     case peek [] s of (_, s) \<Rightarrow>
     if s \<noteq> [] then Inl (Panic (''leftovers: '' @ map (\<lambda>c. char_of (unat c)) s @ ''\<newline>syntax''))
     else Inr (cmd, nulterminate b cmd (b @ [0])))"

text \<open>What a string pointer of the command denotes for the calls it is passed to: the bytes up to the first NUL.\<close>

definition cstring :: "u8 list \<Rightarrow> u8 list \<Rightarrow> tok \<Rightarrow> u8 list" where
  "cstring b m t = takeWhile (\<lambda>c. c \<noteq> 0) (drop (at b (fst t)) m)"

section \<open>Running commands\<close>

text \<open>
  What a process does, as the tree of its system calls: each has the rest of the program behind it, for every result that the shell
  distinguishes. \<open>DoExec\<close> goes on only if \<open>exec\<close> fails, \<open>DoFork\<close> has the child, the parent, and the parent after a failure.
\<close>

datatype prog =
  DoExit u32
| DoExec "u8 list list" prog
| DoPrint u32 "u8 list" prog
| DoClose u32 prog
| DoOpen "u8 list" u32 "u32 \<Rightarrow> prog"
| DoDup u32 prog
| DoPipe "(u32 \<times> u32) option \<Rightarrow> prog"
| DoFork prog prog prog
| DoWait prog
| DoChdir "u8 list" "u32 \<Rightarrow> prog"

definition panic_sh :: "string \<Rightarrow> prog" where
  "panic_sh msg = DoPrint 2 (str msg @ [10]) (DoExit 1)"

definition fork1 :: "prog \<Rightarrow> prog \<Rightarrow> prog" where
  "fork1 child parent = DoFork child parent (panic_sh ''fork'')"

primrec runcmd :: "u8 list cmd \<Rightarrow> prog" where
  "runcmd (ExecCmd argv) =
     (if argv = [] then DoExit 1
      else DoExec argv (DoPrint 2 (str ''exec '' @ hd argv @ str '' failed\<newline>'') (DoExit 0)))"
| "runcmd (RedirCmd c f mode fd) =
     DoClose fd (DoOpen f mode (\<lambda>r.
       if sint r < 0 then DoPrint 2 (str ''open '' @ f @ str '' failed\<newline>'') (DoExit 1) else runcmd c))"
| "runcmd (ListCmd l r) = fork1 (runcmd l) (DoWait (runcmd r))"
| "runcmd (PipeCmd l r) =
     DoPipe (\<lambda>p. case p of
       None \<Rightarrow> panic_sh ''pipe''
     | Some (p0, p1) \<Rightarrow>
         fork1 (DoClose 1 (DoDup p1 (DoClose p0 (DoClose p1 (runcmd l)))))
         (fork1 (DoClose 0 (DoDup p0 (DoClose p0 (DoClose p1 (runcmd r)))))
         (DoClose p0 (DoClose p1 (DoWait (DoWait (DoExit 0)))))))"
| "runcmd (BackCmd c) = fork1 (runcmd c) (DoExit 0)"

text \<open>
  A line of input: \<open>cd\<close> is run by the shell itself, anything else by a child, which parses it. \<open>NoFuel\<close> does not occur, see below.
\<close>

definition sh_child :: "u8 list \<Rightarrow> prog" where
  "sh_child buf =
     (case parsecmd buf of
        Inr (c, m) \<Rightarrow> runcmd (map_cmd (cstring buf m) c)
      | Inl (Panic msg) \<Rightarrow> panic_sh msg
      | Inl _ \<Rightarrow> panic_sh [])"

definition sh_line :: "u8 list \<Rightarrow> prog \<Rightarrow> prog" where
  "sh_line buf continue =
     (if take 3 buf = str ''cd '' then
        let dir = drop 3 (butlast buf) in
        DoChdir dir (\<lambda>r. if sint r < 0 then DoPrint 2 (str ''cannot cd '' @ dir @ [10]) continue else continue)
      else fork1 (sh_child buf) (DoWait continue))"

text \<open>
  The main loop over the lines that \<open>getcmd\<close> reads, up to the end of the input. At most three descriptors are below 3, so that the
  fourth \<open>open\<close> of the console ends the loop before it.
\<close>

primrec sh_loop :: "u8 list list \<Rightarrow> prog" where
  "sh_loop [] = DoPrint 2 (str ''$ '') (DoExit 0)"
| "sh_loop (buf # bufs) = DoPrint 2 (str ''$ '') (sh_line buf (sh_loop bufs))"

primrec open_console :: "nat \<Rightarrow> prog \<Rightarrow> prog" where
  "open_console 0 continue = continue"
| "open_console (Suc n) continue =
     DoOpen (str ''console'') O_RDWR (\<lambda>fd.
       if sint fd < 0 then continue
       else if sint fd \<ge> 3 then DoClose fd continue
       else open_console n continue)"

definition main_sh :: "u8 list list \<Rightarrow> prog" where
  "main_sh bufs = open_console 4 (sh_loop bufs)"

section \<open>The parser terminates\<close>

declare dropWhile_eq_Nil_conv [simp del]

lemma dropWhile_length: "length (dropWhile P xs) \<le> length xs"
  by (rule length_dropWhile_le)

lemma peek_eq: "peek toks s = (t, s') \<longleftrightarrow>
    s' = dropWhile white s \<and> t = (s' \<noteq> [] \<and> hd s' \<in> set (str toks))"
  by (auto simp: peek_def Let_def strchr_None)

lemma white_dropWhile [simp]: "dropWhile white s = c # t \<Longrightarrow> \<not> white c"
  by (metis hd_dropWhile list.distinct(1) list.sel(1))

lemma symbol_split:
  "strchr symbols c \<noteq> None \<longleftrightarrow> c \<in> set (str ''|();&<'') \<or> c = 62"
  by (auto simp: strchr_None symbols_def str_def)

lemma gettoken_Nil: "dropWhile white s = [] \<Longrightarrow> gettoken s = (0, (0, 0), [])"
  by (simp add: gettoken_def token_def)

lemma token_shorter: "length (snd (token (c # t))) \<le> length t \<or> (\<not> wordch c \<and> strchr symbols c = None)"
proof (cases "wordch c")
  case True
  then show ?thesis
    using length_dropWhile_le [of wordch t] by (auto simp: token_def)
next
  case False
  then show ?thesis
    using symbol_split [of c] by (auto simp: token_def)
qed

lemma gettoken_shorter:
  assumes "gettoken s = (tok, q, s')" and "dropWhile white s \<noteq> []"
  shows "length s' < length s"
proof -
  obtain c t where s: "dropWhile white s = c # t"
    using assms(2) by (cases "dropWhile white s") auto
  have "length t < length s"
    using dropWhile_length [of white s] s by simp
  moreover have "length (snd (token (c # t))) \<le> length t"
    using token_shorter [of c t] white_dropWhile [OF s] by (auto simp: wordch_def)
  moreover have "length s' \<le> length (snd (token (c # t)))"
    using assms(1) s dropWhile_length by (auto simp: gettoken_def Let_def split: prod.splits)
  ultimately show ?thesis
    by linarith
qed

lemma gettoken_le: "gettoken s = (tok, q, s') \<Longrightarrow> length s' \<le> length s"
proof (cases "dropWhile white s = []")
  case True
  then show "gettoken s = (tok, q, s') \<Longrightarrow> ?thesis"
    by (simp add: gettoken_def token_def Let_def)
next
  case False
  then show "gettoken s = (tok, q, s') \<Longrightarrow> ?thesis"
    using gettoken_shorter [of s tok q s'] by simp
qed

lemma peek_gettoken_shorter:
  "peek toks s = (True, s1) \<Longrightarrow> gettoken s1 = (tok, q, s2) \<Longrightarrow> length s2 < length s"
  using gettoken_shorter [of s1 tok q s2] dropWhile_length [of white s] unfolding peek_eq by auto

lemma peek_le: "peek toks s = (t, s1) \<Longrightarrow> length s1 \<le> length s"
  using dropWhile_length [of white s] by (simp add: peek_eq)

text \<open>A parser ends within the fuel \<open>k\<close> and does not move backwards.\<close>

definition ends :: "u8 list \<Rightarrow> (tok cmd \<times> u8 list) result \<Rightarrow> bool" where
  "ends s r \<longleftrightarrow> (case r of Inl e \<Rightarrow> e \<noteq> NoFuel | Inr (c, s') \<Rightarrow> length s' \<le> length s)"

lemma ends_mono: "ends s r \<Longrightarrow> length s \<le> length s0 \<Longrightarrow> ends s0 r"
  by (auto simp: ends_def split: sum.splits)

lemma ends_bnd:
  "ends s r \<Longrightarrow> (\<And>c s'. length s' \<le> length s \<Longrightarrow> ends s (f (c, s'))) \<Longrightarrow> ends s (bnd r f)"
  by (cases r) (auto simp: ends_def)

lemma peek_gettoken_cases:
  obtains (stop) s1 where "peek toks s = (False, s1)" "length s1 \<le> length s"
  | (go) s1 tok q s2 where "peek toks s = (True, s1)" "gettoken s1 = (tok, q, s2)" "length s2 < length s"
  using peek_le peek_gettoken_shorter by (metis (full_types) prod_cases3 surj_pair)

lemma parseredirs_ends: "length s < n \<Longrightarrow> ends s (parseredirs n c s)"
proof (induction n arbitrary: c s)
  case (Suc n)
  show ?case
  proof (rule peek_gettoken_cases [of "''<>''" s])
    fix s1 tok q s2
    assume 1: "peek ''<>'' s = (True, s1)" "gettoken s1 = (tok, q, s2)" "length s2 < length s"
    obtain a q' eq s3 where 2: "gettoken s2 = (a, (q', eq), s3)"
      by (metis prod_cases3 surj_pair)
    have "length s3 < n" "length s3 \<le> length s"
      using gettoken_le [OF 2] 1(3) Suc.prems by auto
    then show ?thesis
      using 1 2 ends_mono [OF Suc.IH [of s3]] by (simp add: ends_def [of s "Inl _"])
  qed (simp add: ends_def)
qed simp

lemma parse_back_ends: "length s < n \<Longrightarrow> ends s (parse_back n c s)"
proof (induction n arbitrary: c s)
  case (Suc n)
  show ?case
  proof (rule peek_gettoken_cases [of "''&''" s])
    fix s1 tok q s2
    assume "peek ''&'' s = (True, s1)" "gettoken s1 = (tok, q, s2)" "length s2 < length s"
    then show ?thesis
      using ends_mono [OF Suc.IH [of s2], of s] Suc.prems by simp
  qed (simp add: ends_def)
qed simp

lemma parse_args_ends: "length s < n \<Longrightarrow> ends s (parse_args n c argc s)"
proof (induction n arbitrary: c argc s)
  case (Suc n)
  obtain t s1 where p: "peek ''|)&;'' s = (t, s1)"
    by fastforce
  obtain tok q s2 where g: "gettoken s1 = (tok, q, s2)"
    by (metis prod_cases3)
  have s1: "length s1 \<le> length s" "s1 = dropWhile white s"
    using peek_le p by (auto simp: peek_eq)
  have s2: "length s2 \<le> length s"
    using gettoken_le [OF g] s1 by simp
  show ?case
  proof (cases "t \<or> tok = 0 \<or> tok \<noteq> 97 \<or> 9 \<le> argc")
    case True
    then show ?thesis
      using p g s1 s2 by (auto simp: ends_def)
  next
    case False
    then have "dropWhile white s1 \<noteq> []"
      using g gettoken_Nil [of s1] by auto
    then have "length s2 < length s"
      using gettoken_shorter [OF g] s1 by simp
    then have "length s2 < n"
      using Suc.prems by simp
    then have "ends s2 (bnd (parseredirs n (add_arg q c) s2) (\<lambda>(ret, s). parse_args n ret (argc + 1) s))"
      by (intro ends_bnd parseredirs_ends) (auto intro: ends_mono [OF Suc.IH])
    then have "ends s (bnd (parseredirs n (add_arg q c) s2) (\<lambda>(ret, s). parse_args n ret (argc + 1) s))"
      by (rule ends_mono) (rule s2)
    then show ?thesis
      using p g False by simp
  qed
qed simp

text \<open>How much fuel each of the mutually recursive parsers needs for the text \<open>s\<close> left.\<close>

lemma parse_ends:
  "(4 * length s + 4 \<le> n \<longrightarrow> ends s (parseline n s)) \<and>
   (4 * length s + 3 \<le> n \<longrightarrow> ends s (parsepipe n s)) \<and>
   (4 * length s + 1 \<le> n \<longrightarrow> ends s (parseblock n s)) \<and>
   (4 * length s + 2 \<le> n \<longrightarrow> ends s (parseexec n s))"
proof (induction n arbitrary: s)
  case (Suc n)
  have line: "ends s (parseline (Suc n) s)" if fuel: "4 * length s + 4 \<le> Suc n"
  proof -
    define F where "F c2 s2 = (case peek '';'' s2 of (t, s) \<Rightarrow>
        if t then case gettoken s of (_, _, s) \<Rightarrow> bnd (parseline n s) (\<lambda>(right, s). Inr (ListCmd c2 right, s)) else Inr (c2, s))"
      for c2 s2
    have "ends s (F c2 s2)" if "length s2 \<le> length s" for c2 s2
    proof (rule peek_gettoken_cases [of "'';''" s2])
      fix s3 tok q s4
      assume 1: "peek '';'' s2 = (True, s3)" "gettoken s3 = (tok, q, s4)" "length s4 < length s2"
      then have "ends s4 (bnd (parseline n s4) (\<lambda>(right, s). Inr (ListCmd c2 right, s)))"
        using Suc.IH [of s4] fuel that by (intro ends_bnd) (auto simp: ends_def)
      then show ?thesis
        using 1 that ends_mono [where s = s4 and ?s0.0 = s] by (simp add: F_def)
    qed (use that in \<open>auto simp: ends_def F_def\<close>)
    moreover have "ends s (parsepipe n s)"
      using Suc.IH [of s] fuel by simp
    moreover have "ends s (parse_back n c1 s1)" if "length s1 \<le> length s" for c1 s1
      using that fuel by (intro ends_mono [OF parse_back_ends]) auto
    ultimately show ?thesis
      unfolding parseline.simps F_def [symmetric] by (intro ends_bnd) (auto intro: ends_bnd)
  qed
  have pipe: "ends s (parsepipe (Suc n) s)" if fuel: "4 * length s + 3 \<le> Suc n"
  proof -
    define F where "F c2 s2 = (case peek ''|'' s2 of (t, s) \<Rightarrow>
        if t then case gettoken s of (_, _, s) \<Rightarrow> bnd (parsepipe n s) (\<lambda>(right, s). Inr (PipeCmd c2 right, s)) else Inr (c2, s))"
      for c2 s2
    have "ends s (F c2 s2)" if "length s2 \<le> length s" for c2 s2
    proof (rule peek_gettoken_cases [of "''|''" s2])
      fix s3 tok q s4
      assume 1: "peek ''|'' s2 = (True, s3)" "gettoken s3 = (tok, q, s4)" "length s4 < length s2"
      then have "ends s4 (bnd (parsepipe n s4) (\<lambda>(right, s). Inr (PipeCmd c2 right, s)))"
        using Suc.IH [of s4] fuel that by (intro ends_bnd) (auto simp: ends_def)
      then show ?thesis
        using 1 that ends_mono [where s = s4 and ?s0.0 = s] by (simp add: F_def)
    qed (use that in \<open>auto simp: ends_def F_def\<close>)
    moreover have "ends s (parseexec n s)"
      using Suc.IH [of s] fuel by simp
    ultimately show ?thesis
      unfolding parsepipe.simps F_def [symmetric] by (intro ends_bnd) auto
  qed
  have block: "ends s (parseblock (Suc n) s)" if fuel: "4 * length s + 1 \<le> Suc n"
  proof (rule peek_gettoken_cases [of "''(''" s])
    fix s1 tok q s2
    assume 1: "peek ''('' s = (True, s1)" "gettoken s1 = (tok, q, s2)" "length s2 < length s"
    have "ends s2 (case peek '')'' s3 of (t, s) \<Rightarrow>
        if \<not> t then Inl (Panic ''syntax - missing )'') else case gettoken s of (_, _, s) \<Rightarrow> parseredirs n c3 s)"
      if "length s3 \<le> length s2" for c3 s3
    proof (rule peek_gettoken_cases [of "'')''" s3])
      fix s4 tok q s5
      assume 2: "peek '')'' s3 = (True, s4)" "gettoken s4 = (tok, q, s5)" "length s5 < length s3"
      then show ?thesis
        using that 1 fuel ends_mono [OF parseredirs_ends [of s5 n c3], of s2] by simp
    qed (auto simp: ends_def)
    moreover have "ends s2 (parseline n s2)"
      using Suc.IH [of s2] 1 fuel by simp
    ultimately have "ends s2 (bnd (parseline n s2) (\<lambda>(c3, s3). case peek '')'' s3 of (t, s) \<Rightarrow>
        if \<not> t then Inl (Panic ''syntax - missing )'') else case gettoken s of (_, _, s) \<Rightarrow> parseredirs n c3 s))"
      by (intro ends_bnd) auto
    then show ?thesis
      using 1 ends_mono by fastforce
  qed (auto simp: ends_def)
  have exec: "ends s (parseexec (Suc n) s)" if fuel: "4 * length s + 2 \<le> Suc n"
  proof -
    obtain t s1 where p: "peek ''('' s = (t, s1)"
      by fastforce
    have s1: "length s1 \<le> length s"
      using peek_le p by blast
    have "ends s1 (bnd (parseredirs n (ExecCmd []) s1) (\<lambda>(ret, s). parse_args n ret 0 s))"
      using s1 fuel ends_mono [OF parse_args_ends] by (intro ends_bnd parseredirs_ends) auto
    moreover have "ends s1 (parseblock n s1)"
      using Suc.IH [of s1] s1 fuel by simp
    ultimately show ?thesis
      using p s1 ends_mono by fastforce
  qed
  show ?case
    using line pipe block exec by blast
qed simp

lemma parseline_ends: "4 * length s + 4 \<le> n \<Longrightarrow> parseline n s \<noteq> Inl NoFuel"
  using parse_ends [of s n] by (auto simp: ends_def)

section \<open>The strings of a command\<close>

text \<open>The text between the two pointers of a string, and what makes it a word of the line.\<close>

definition toktext :: "u8 list \<Rightarrow> tok \<Rightarrow> u8 list" where
  "toktext b t = take (fst t - snd t) (drop (at b (fst t)) b)"

definition tok_ok :: "u8 list \<Rightarrow> tok \<Rightarrow> bool" where
  "tok_ok b t \<longleftrightarrow> (\<exists>p w e. b = p @ w @ e \<and> t = (length (w @ e), length e) \<and> w \<noteq> [] \<and>
     (\<forall>c \<in> set w. wordch c) \<and> (e = [] \<or> \<not> wordch (hd e)))"

lemma toktext_word: "suffix (w @ e) b \<Longrightarrow> toktext b (length (w @ e), length e) = w"
  by (auto simp: toktext_def at_def suffix_def)

definition sound :: "u8 list \<Rightarrow> (tok cmd \<times> u8 list) result \<Rightarrow> bool" where
  "sound b r \<longleftrightarrow> (\<forall>c s. r = Inr (c, s) \<longrightarrow> suffix s b \<and> (\<forall>t \<in> set_cmd c. tok_ok b t))"

lemma sound_Inl [simp]: "sound b (Inl e)"
  by (simp add: sound_def)

lemma sound_Inr [simp]: "sound b (Inr (c, s)) \<longleftrightarrow> suffix s b \<and> (\<forall>t \<in> set_cmd c. tok_ok b t)"
  by (simp add: sound_def)

lemma sound_bnd:
  "sound b r \<Longrightarrow> (\<And>c s. suffix s b \<Longrightarrow> \<forall>t \<in> set_cmd c. tok_ok b t \<Longrightarrow> sound b (f (c, s))) \<Longrightarrow> sound b (bnd r f)"
  by (cases r; cases "projr r") simp_all

lemma suffix_dropWhile_trans: "suffix s b \<Longrightarrow> suffix (dropWhile P s) b"
  using suffix_dropWhile suffix_order.trans by blast

lemma peek_suffix: "peek toks s = (t, s') \<Longrightarrow> suffix s b \<Longrightarrow> suffix s' b"
  by (simp add: peek_eq suffix_dropWhile_trans)

lemma token_suffix: "suffix (snd (token s)) s"
proof (cases s)
  case (Cons c t)
  have "suffix (tl t) (c # t)"
    by (metis suffix_ConsI suffix_tl)
  then show ?thesis
    using Cons suffix_dropWhile [of wordch s] by (auto simp: token_def suffix_ConsI)
qed (simp add: token_def)

lemma gettoken_sound:
  assumes "gettoken s = (tok, t, s')" and "suffix s b"
  shows "suffix s' b" and "tok = 97 \<Longrightarrow> tok_ok b t"
proof -
  define s1 where "s1 = dropWhile white s"
  define e where "e = snd (token s1)"
  have s1: "suffix s1 b"
    using assms(2) by (simp add: s1_def suffix_dropWhile_trans)
  have g: "tok = fst (token s1)" "t = (length s1, length e)" "s' = dropWhile white e"
    using assms(1) by (auto simp: gettoken_def Let_def s1_def [symmetric] e_def split: prod.splits)
  have "suffix e b"
    using token_suffix [of s1] s1 suffix_order.trans by (auto simp: e_def)
  then show "suffix s' b"
    using g by (simp add: suffix_dropWhile_trans)
  assume "tok = 97"
  then obtain c r where c: "s1 = c # r" "c \<notin> set (str ''|();&<'')" "c \<noteq> 62" "e = dropWhile wordch s1"
    using g(1) by (cases s1) (auto simp: token_def e_def str_def split: if_splits)
  then have "wordch c"
    using white_dropWhile [of s c r] symbol_split [of c] by (auto simp: wordch_def s1_def)
  moreover obtain p where "b = p @ s1"
    using s1 by (auto simp: suffix_def)
  ultimately have "b = p @ takeWhile wordch s1 @ e" "t = (length (takeWhile wordch s1 @ e), length e)"
    "takeWhile wordch s1 \<noteq> []" "e = [] \<or> \<not> wordch (hd e)"
    using c g hd_dropWhile [of wordch s1] by auto
  then show "tok_ok b t"
    unfolding tok_ok_def using set_takeWhileD by metis
qed

lemma parseredirs_sound: "suffix s b \<Longrightarrow> \<forall>t \<in> set_cmd c. tok_ok b t \<Longrightarrow> sound b (parseredirs n c s)"
proof (induction n arbitrary: c s)
  case (Suc n)
  obtain t s1 where p: "peek ''<>'' s = (t, s1)"
    by fastforce
  obtain tok q1 s2 where g1: "gettoken s1 = (tok, q1, s2)"
    by (metis prod_cases3)
  obtain a q eq s3 where g2: "gettoken s2 = (a, (q, eq), s3)"
    by (metis prod_cases3 surj_pair)
  have "suffix s1 b" "suffix s3 b" "a = 97 \<Longrightarrow> tok_ok b (q, eq)"
    using peek_suffix [OF p] gettoken_sound [OF g1] gettoken_sound [OF g2] Suc.prems by blast+
  then show ?case
    using p g1 g2 Suc.prems Suc.IH by simp
qed simp

lemma parse_back_sound: "suffix s b \<Longrightarrow> \<forall>t \<in> set_cmd c. tok_ok b t \<Longrightarrow> sound b (parse_back n c s)"
proof (induction n arbitrary: c s)
  case (Suc n)
  obtain t s1 where p: "peek ''&'' s = (t, s1)"
    by fastforce
  obtain tok q1 s2 where g1: "gettoken s1 = (tok, q1, s2)"
    by (metis prod_cases3)
  have "suffix s1 b" "suffix s2 b"
    using peek_suffix [OF p] gettoken_sound [OF g1] Suc.prems by blast+
  then show ?case
    using p g1 Suc.prems Suc.IH by simp
qed simp

lemma set_add_arg: "set_cmd (add_arg a c) \<subseteq> insert a (set_cmd c)"
  by (induction c) auto

lemma parse_args_sound: "suffix s b \<Longrightarrow> \<forall>t \<in> set_cmd c. tok_ok b t \<Longrightarrow> sound b (parse_args n c argc s)"
proof (induction n arbitrary: c argc s)
  case (Suc n)
  obtain t s1 where p: "peek ''|)&;'' s = (t, s1)"
    by fastforce
  obtain tok q s2 where g: "gettoken s1 = (tok, q, s2)"
    by (metis prod_cases3)
  have s: "suffix s1 b" "suffix s2 b" "tok = 97 \<Longrightarrow> tok_ok b q"
    using peek_suffix [OF p] gettoken_sound [OF g] Suc.prems by blast+
  have "sound b (bnd (parseredirs n (add_arg q c) s2) (\<lambda>(ret, s). parse_args n ret (argc + 1) s))" if "tok = 97"
    using s that Suc.prems(2) set_add_arg [of q c] Suc.IH by (intro sound_bnd parseredirs_sound) auto
  then show ?case
    using p g s Suc.prems by simp
qed simp

lemma parse_sound:
  "suffix s b \<Longrightarrow> sound b (parseline n s) \<and> sound b (parsepipe n s) \<and> sound b (parseblock n s) \<and> sound b (parseexec n s)"
proof (induction n arbitrary: s)
  case (Suc n)
  have step: "sound b (case peek toks s of (t, s) \<Rightarrow> if t then case gettoken s of (_, _, s) \<Rightarrow> f s else g s)"
    if "suffix s b" "\<And>s. suffix s b \<Longrightarrow> sound b (f s)" "\<And>s. suffix s b \<Longrightarrow> sound b (g s)" for toks s f g
  proof -
    obtain t s1 where p: "peek toks s = (t, s1)"
      by fastforce
    obtain tok q s2 where q: "gettoken s1 = (tok, q, s2)"
      by (metis prod_cases3)
    show ?thesis
      using that p q peek_suffix [OF p] gettoken_sound(1) [OF q] by simp
  qed
  have flip: "(if \<not> t then x else y) = (if t then y else x)" for t and x y :: "(tok cmd \<times> u8 list) result"
    by simp
  have IH: "suffix s b \<Longrightarrow> sound b (parseline n s)" "suffix s b \<Longrightarrow> sound b (parsepipe n s)"
    "suffix s b \<Longrightarrow> sound b (parseblock n s)" "suffix s b \<Longrightarrow> sound b (parseexec n s)" for s
    using Suc.IH by blast+
  have "sound b (parseline (Suc n) s)"
    unfolding parseline.simps using Suc.prems IH
    by (intro sound_bnd) (auto intro!: sound_bnd parse_back_sound step)
  moreover have "sound b (parsepipe (Suc n) s)"
    unfolding parsepipe.simps using Suc.prems IH
    by (intro sound_bnd) (auto intro!: sound_bnd step)
  moreover have "sound b (parseblock (Suc n) s)"
    unfolding parseblock.simps flip using Suc.prems IH
    by (intro step) (auto intro!: sound_bnd step parseredirs_sound)
  moreover have "sound b (parseexec (Suc n) s)"
  proof -
    obtain t s1 where p: "peek ''('' s = (t, s1)"
      by fastforce
    then have "suffix s1 b"
      using peek_suffix Suc.prems by blast
    then have "sound b (bnd (parseredirs n (ExecCmd []) s1) (\<lambda>(ret, s). parse_args n ret 0 s))"
      by (intro sound_bnd parseredirs_sound) (auto intro: parse_args_sound)
    then show ?thesis
      using p IH \<open>suffix s1 b\<close> by simp
  qed
  ultimately show ?case
    by blast
qed simp

text \<open>Ending the strings in place cuts each of them off where it ends and leaves all of them alone otherwise.\<close>

lemma nth_list_update_if: "j < length xs \<Longrightarrow> xs[i := x] ! j = (if i = j then x else xs ! j)"
  by (cases "i < length xs") auto

lemma nulterminate_nth:
  "length (nulterminate b c m) = length m \<and>
   (\<forall>i < length m. nulterminate b c m ! i = (if i \<in> (\<lambda>t. at b (snd t)) ` set_cmd c then 0 else m ! i))"
proof (induction c arbitrary: m)
  case (ExecCmd ts)
  show ?case
  proof (induction ts arbitrary: m)
    case (Cons t ts)
    then show ?case
      by (auto simp: nth_list_update split: prod.splits)
  qed simp
next
  case (RedirCmd c f mode fd)
  have "length (nulterminate b c m) = length m"
    using RedirCmd by blast
  then show ?case
    using RedirCmd [of m] by (simp add: nth_list_update_if)
qed auto

lemma cstring_toktext:
  assumes toks: "\<forall>t \<in> set_cmd c. tok_ok b t" and t: "t \<in> set_cmd c" and nul: "0 \<notin> set b"
  shows "cstring b (nulterminate b c (b @ [0])) t = toktext b t"
proof -
  define m where "m = nulterminate b c (b @ [0])"
  obtain p w e where b: "b = p @ w @ e" and t_eq: "t = (length (w @ e), length e)" and w: "\<forall>c \<in> set w. wordch c"
    using toks t unfolding tok_ok_def by blast
  have at_t: "at b (fst t) = length p" "at b (snd t) = length p + length w"
    using b t_eq by (auto simp: at_def)
  have m: "length m = length b + 1" "\<And>i. i \<le> length b \<Longrightarrow> m ! i = (if i \<in> (\<lambda>t. at b (snd t)) ` set_cmd c then 0 else (b @ [0]) ! i)"
    using nulterminate_nth [of b c "b @ [0]"] by (auto simp: m_def)
  have ends: "i = length b \<or> \<not> wordch (b ! i)" if i: "i \<in> (\<lambda>t. at b (snd t)) ` set_cmd c" for i
  proof -
    obtain t' where "t' \<in> set_cmd c" "i = at b (snd t')"
      using i by blast
    then obtain p' w' e' where "b = p' @ w' @ e'" "i = length (p' @ w')" "e' = [] \<or> \<not> wordch (hd e')"
      using toks unfolding tok_ok_def at_def by fastforce
    then show ?thesis
      by (cases e') (auto simp: nth_append)
  qed
  have word: "m ! (length p + i) = w ! i \<and> w ! i \<noteq> 0" if "i < length w" for i
  proof -
    have i: "b ! (length p + i) = w ! i" "length p + i < length b"
      using that b by (auto simp: nth_append)
    then have "wordch (b ! (length p + i))" "b ! (length p + i) \<noteq> 0"
      using that w nul nth_mem [of i w] nth_mem [of "length p + i" b] by metis+
    then have "length p + i \<notin> (\<lambda>t. at b (snd t)) ` set_cmd c"
      using ends [of "length p + i"] i(2) by (metis less_irrefl)
    then show ?thesis
      using m(2) [of "length p + i"] i \<open>b ! (length p + i) \<noteq> 0\<close> by (simp add: nth_append)
  qed
  have "m ! (length p + length w) = 0"
    using m(2) [of "length p + length w"] t at_t b by (auto simp: image_iff)
  then have "cstring b m t = take (length w) (drop (length p) m)"
    unfolding cstring_def at_t using word m(1) b by (intro takeWhile_eq_take_P_nth) auto
  also have "\<dots> = w"
    using word m(1) b by (intro nth_equalityI) auto
  also have "w = toktext b t"
    using toktext_word [of w e b] b t_eq by (simp add: suffix_def)
  finally show ?thesis
    by (simp add: m_def)
qed

lemma parsecmd_eq:
  assumes "0 \<notin> set b"
  shows "(case parsecmd b of Inl e \<Rightarrow> e \<noteq> NoFuel
    | Inr (c, m) \<Rightarrow> map_cmd (cstring b m) c = map_cmd (toktext b) c \<and> (\<forall>t \<in> set_cmd c. tok_ok b t)
        \<and> (\<exists>s. parseline (4 * length b + 4) b = Inr (c, s) \<and> dropWhile white s = []))"
proof (cases "parseline (4 * length b + 4) b")
  case (Inl e)
  then show ?thesis
    using parseline_ends [of b "4 * length b + 4"] by (simp add: parsecmd_def)
next
  case (Inr r)
  obtain c s where r: "r = (c, s)"
    by fastforce
  have "\<forall>t \<in> set_cmd c. tok_ok b t"
    using parse_sound [of b b "4 * length b + 4"] Inr r by simp
  then have "map_cmd (cstring b (nulterminate b c (b @ [0]))) c = map_cmd (toktext b) c"
    using assms by (intro cmd.map_cong0 cstring_toktext) auto
  then show ?thesis
    using Inr r \<open>\<forall>t \<in> set_cmd c. tok_ok b t\<close> by (simp add: parsecmd_def peek_def Let_def)
qed

end
