(* ===== verification/Spec2Isabelle.thy ===== *)
theory Spec2Isabelle
  imports Dirs Trap Pipes Consoles Grep Sh
begin

text \<open>
  The kernel of xv6 for RISC-V with virtual consoles, process tracing, listing, suspend and resume.
\<close>

end
